(* ===== verification/Syq_Prelude.thy ===== *)
theory Syq_Prelude
  imports Main "HOL-Library.Monad_Syntax" "HOL-Library.Product_Lexorder" "HOL-Library.Multiset"
begin

section \<open>Shared vocabulary of the development\<close>

text \<open>
  What every component theory uses: the model of a computation that can panic, the ordered
  collections of the Rust standard library as finite sets and bags, and generic lemmas on
  lists, maps and finite sums.

  \<^item> A Rust operation that can panic (a failed \<open>assert!\<close>, an \<open>expect\<close> on \<open>None\<close>, an index
    out of range, an unsigned subtraction below zero) has a result of type \<open>'a option\<close>;
    \<^const>\<open>None\<close> is the panic. Unsigned integers are natural numbers, subtraction is
    \<open>usub\<close> (checked), and every theorem that a state is reached also says that no such
    panic happens on the way.
  \<^item> \<open>BTreeSet\<close> and \<open>HashSet\<close> are sets, \<open>HashMap\<close> is a map \<open>'k \<rightharpoonup> 'v\<close>, and
    \<open>BinaryHeap\<close> is a list read as a bag: only \<open>peek\<close> and \<open>pop\<close> observe it and both take
    a greatest element.
\<close>

named_theorems syq_defs \<open>definitions of operations, for unfolding in component proofs\<close>

subsection \<open>Panics\<close>

definition ensure :: "bool \<Rightarrow> unit option" where
  "ensure b = (if b then Some () else None)"

definition usub :: "nat \<Rightarrow> nat \<Rightarrow> nat option" where
  "usub a b = (if b \<le> a then Some (a - b) else None)"

lemma ensure_simps [simp]: "ensure True = Some ()" "ensure False = None"
  by (simp_all add: ensure_def)

lemma ensure_eq_Some [simp]: "ensure b = Some u \<longleftrightarrow> b"
  by (simp add: ensure_def)

lemma bind_ensure_eq_Some [simp]:
  "Option.bind (ensure b) f = Some y \<longleftrightarrow> b \<and> f () = Some y"
  by (cases b) simp_all

lemma bind_ensure_True: "b \<Longrightarrow> Option.bind (ensure b) f = f ()"
  by simp

lemma usub_eq_Some [simp]: "usub a b = Some c \<longleftrightarrow> b \<le> a \<and> c = a - b"
  by (auto simp: usub_def)

lemma usub_le: "b \<le> a \<Longrightarrow> usub a b = Some (a - b)"
  by (simp add: usub_def)

lemma usub_add [simp]: "usub (a + b) b = Some a" "usub (a + b) a = Some b"
  by (simp_all add: usub_def)

text \<open>64-bit sums: checked and saturating.\<close>

definition u64_max :: nat where
  "u64_max = 2 ^ 64 - 1"

definition uadd :: "nat \<Rightarrow> nat \<Rightarrow> nat option" where
  "uadd a b = (if a + b \<le> u64_max then Some (a + b) else None)"

definition sat_add :: "nat \<Rightarrow> nat \<Rightarrow> nat" where
  "sat_add a b = min (a + b) u64_max"

definition sat_mul :: "nat \<Rightarrow> nat \<Rightarrow> nat" where
  "sat_mul a b = min (a * b) u64_max"

lemma uadd_eq_Some [simp]: "uadd a b = Some c \<longleftrightarrow> a + b \<le> u64_max \<and> c = a + b"
  by (auto simp: uadd_def)

lemma uadd_ok: "a + b \<le> u64_max \<Longrightarrow> uadd a b = Some (a + b)"
  by (simp add: uadd_def)

lemma sat_add_ok: "a + b \<le> u64_max \<Longrightarrow> sat_add a b = a + b"
  by (simp add: sat_add_def)

subsection \<open>Ordered sets and heaps\<close>

definition set_last :: "'a::linorder set \<Rightarrow> 'a option" where
  "set_last s = (if s = {} then None else Some (Max s))"

definition set_first :: "'a::linorder set \<Rightarrow> 'a option" where
  "set_first s = (if s = {} then None else Some (Min s))"

lemma set_last_empty [simp]: "set_last {} = None"
  and set_last_eq_None [simp]: "set_last s = None \<longleftrightarrow> s = {}"
  by (simp_all add: set_last_def)

lemma set_last_eq_Some:
  assumes "finite s"
  shows "set_last s = Some m \<longleftrightarrow> m \<in> s \<and> (\<forall>x\<in>s. x \<le> m)"
proof (cases "s = {}")
  case False
  have "Max s = m \<longleftrightarrow> m \<in> s \<and> (\<forall>x\<in>s. x \<le> m)"
    using Max_eq_iff [OF assms False] .
  with False show ?thesis by (simp add: set_last_def)
qed simp

lemma set_first_eq_Some:
  assumes "finite s"
  shows "set_first s = Some m \<longleftrightarrow> m \<in> s \<and> (\<forall>x\<in>s. m \<le> x)"
proof (cases "s = {}")
  case False
  have "Min s = m \<longleftrightarrow> m \<in> s \<and> (\<forall>x\<in>s. m \<le> x)"
    using Min_eq_iff [OF assms False] .
  with False show ?thesis by (simp add: set_first_def)
qed (simp add: set_first_def)

lemma set_last_SomeD:
  assumes "finite s" "set_last s = Some m"
  shows "m \<in> s" "x \<in> s \<Longrightarrow> x \<le> m"
  using assms by (auto simp: set_last_eq_Some)

lemma set_first_eq_None [simp]: "set_first s = None \<longleftrightarrow> s = {}"
  by (simp add: set_first_def)

text \<open>\<open>BinaryHeap::peek\<close> and \<open>BinaryHeap::pop\<close> on the bag of a list.\<close>

definition heap_peek :: "'a::linorder list \<Rightarrow> 'a option" where
  "heap_peek h = set_last (set h)"

definition heap_pop :: "'a::linorder list \<Rightarrow> ('a \<times> 'a list) option" where
  "heap_pop h = map_option (\<lambda>m. (m, remove1 m h)) (heap_peek h)"

lemma heap_peek_eq_None [simp]: "heap_peek h = None \<longleftrightarrow> h = []"
  by (simp add: heap_peek_def)

lemma heap_peek_Nil [simp]: "heap_peek [] = None"
  by simp

lemma heap_peek_eq_Some: "heap_peek h = Some m \<longleftrightarrow> m \<in> set h \<and> (\<forall>x\<in>set h. x \<le> m)"
  by (simp add: heap_peek_def set_last_eq_Some)

lemma heap_peek_Cons:
  "heap_peek (x # h) = Some (case heap_peek h of None \<Rightarrow> x | Some m \<Rightarrow> max x m)"
proof (cases "heap_peek h")
  case None
  then show ?thesis by (simp add: heap_peek_eq_Some)
next
  case (Some m)
  then have "heap_peek (x # h) = Some (max x m)"
    by (auto simp: heap_peek_eq_Some max_def)
  with Some show ?thesis by simp
qed

lemma heap_pop_eq_Some:
  "heap_pop h = Some (m, h') \<longleftrightarrow> heap_peek h = Some m \<and> h' = remove1 m h"
  by (auto simp: heap_pop_def)

lemma heap_popD:
  assumes "heap_pop h = Some (m, h')"
  shows "heap_peek h = Some m" "mset h = add_mset m (mset h')" "length h' < length h"
    "set h' \<subseteq> set h"
proof -
  have h': "h' = remove1 m h" and peek: "heap_peek h = Some m"
    using assms by (simp_all add: heap_pop_eq_Some)
  then have m: "m \<in> set h" by (simp add: heap_peek_eq_Some)
  show "heap_peek h = Some m" by fact
  show "mset h = add_mset m (mset h')" using m h' by simp
  show "length h' < length h"
    using m h' length_pos_if_in_set [OF m] by (simp add: length_remove1)
  show "set h' \<subseteq> set h" using h' by (simp add: set_remove1_subset)
qed

lemma heap_pop_None_iff [simp]: "heap_pop h = None \<longleftrightarrow> h = []"
  by (simp add: heap_pop_def)

text \<open>\<open>std::cmp::Reverse\<close>: the opposite order, as a type so that pairs compare with it.\<close>

datatype 'a reverse = Reverse (unreverse: 'a)

instantiation reverse :: (linorder) linorder
begin

definition less_eq_reverse :: "'a reverse \<Rightarrow> 'a reverse \<Rightarrow> bool" where
  "less_eq_reverse x y \<longleftrightarrow> unreverse y \<le> unreverse x"

definition less_reverse :: "'a reverse \<Rightarrow> 'a reverse \<Rightarrow> bool" where
  "less_reverse x y \<longleftrightarrow> unreverse y < unreverse x"

instance
  by standard (auto simp: less_eq_reverse_def less_reverse_def reverse.expand)

end

lemma Reverse_le [simp]: "Reverse a \<le> Reverse b \<longleftrightarrow> b \<le> a"
  and Reverse_less [simp]: "Reverse a < Reverse b \<longleftrightarrow> b < a"
  by (simp_all add: less_eq_reverse_def less_reverse_def)

subsection \<open>Vectors\<close>

text \<open>Indexing a \<open>Vec\<close> panics out of range; assignment through an index too.\<close>

definition vec_get :: "'a list \<Rightarrow> nat \<Rightarrow> 'a option" where
  "vec_get xs i = (if i < length xs then Some (xs ! i) else None)"

definition vec_set :: "'a list \<Rightarrow> nat \<Rightarrow> 'a \<Rightarrow> 'a list option" where
  "vec_set xs i v = (if i < length xs then Some (xs[i := v]) else None)"

text \<open>\<open>Vec::resize\<close> and \<open>Iterator::rposition\<close>.\<close>

definition vec_resize :: "'a list \<Rightarrow> nat \<Rightarrow> 'a \<Rightarrow> 'a list" where
  "vec_resize xs n v = take n xs @ replicate (n - length xs) v"

definition rposition :: "('a \<Rightarrow> bool) \<Rightarrow> 'a list \<Rightarrow> nat option" where
  "rposition P xs = (case filter (\<lambda>i. P (xs ! i)) [0..<length xs] of [] \<Rightarrow> None | is \<Rightarrow> Some (last is))"

lemma vec_get_eq_Some [simp]: "vec_get xs i = Some x \<longleftrightarrow> i < length xs \<and> x = xs ! i"
  by (auto simp: vec_get_def)

lemma vec_set_eq_Some [simp]: "vec_set xs i v = Some ys \<longleftrightarrow> i < length xs \<and> ys = xs[i := v]"
  by (auto simp: vec_set_def)

lemma vec_get_ok: "i < length xs \<Longrightarrow> vec_get xs i = Some (xs ! i)"
  by (simp add: vec_get_def)

lemma vec_set_ok: "i < length xs \<Longrightarrow> vec_set xs i v = Some (xs[i := v])"
  by (simp add: vec_set_def)

lemma length_vec_resize [simp]: "length (vec_resize xs n v) = n"
  by (simp add: vec_resize_def)

lemma vec_resize_nth:
  "i < n \<Longrightarrow> vec_resize xs n v ! i = (if i < length xs then xs ! i else v)"
  by (simp add: vec_resize_def nth_append)

lemma length_filter_update:
  "i < length xs \<Longrightarrow> length (filter P (xs[i := y])) + (if P (xs ! i) then 1 else 0) =
     length (filter P xs) + (if P y then 1 else 0)"
proof (induction xs arbitrary: i)
  case (Cons x xs)
  then show ?case by (cases i) (auto split: if_splits)
qed simp

lemma length_filter_drop_update:
  "i < length xs \<Longrightarrow> length (filter P (drop n (xs[i := y]))) + (if n \<le> i \<and> P (xs ! i) then 1 else 0) =
     length (filter P (drop n xs)) + (if n \<le> i \<and> P y then 1 else 0)"
  using length_filter_update [of "i - n" "drop n xs" P y]
  by (cases "n \<le> i") (auto simp: drop_update_swap drop_update_cancel)

subsection \<open>Rounding division\<close>

definition div_ceil :: "nat \<Rightarrow> nat \<Rightarrow> nat" where
  "div_ceil n k = n div k + (if n mod k = 0 then 0 else 1)"

lemma div_ceil_bounds:
  assumes "0 < k"
  shows "n \<le> div_ceil n k * k" "div_ceil n k * k < n + k"
proof -
  define q r where "q = n div k" and "r = n mod k"
  have "n = q * k + r" "r < k" using assms by (simp_all add: q_def r_def)
  then show "n \<le> div_ceil n k * k" "div_ceil n k * k < n + k"
    unfolding div_ceil_def q_def [symmetric] r_def [symmetric] by auto
qed

lemma div_ceil_mult [simp]: "0 < k \<Longrightarrow> div_ceil (m * k) k = m"
  by (simp add: div_ceil_def)

lemma div_ceil_Suc: "0 < k \<Longrightarrow> div_ceil (Suc n) k = n div k + 1"
  by (simp add: div_ceil_def div_Suc mod_Suc)

lemma div_ceil_0 [simp]: "div_ceil 0 k = 0"
  by (simp add: div_ceil_def)

lemma div_ceil_le: assumes "0 < k" "n \<le> m * k" shows "div_ceil n k \<le> m"
proof -
  have "div_ceil n k * k < Suc m * k" using div_ceil_bounds(2) [OF assms(1), of n] assms(2) by simp
  then show ?thesis by (metis less_Suc_eq_le mult_less_cancel2)
qed

subsection \<open>Maps and sums\<close>

lemma finite_dom_upd [simp]: "finite (dom (m(k := v))) \<longleftrightarrow> finite (dom m)"
proof -
  have "dom (m(k := v)) = (if v = None then dom m - {k} else insert k (dom m))"
    by (auto simp: dom_def)
  then show ?thesis by simp
qed

lemma sum_list_map_remove1_nat:
  fixes f :: "'a \<Rightarrow> nat"
  assumes "x \<in> set xs"
  shows "sum_list (map f (remove1 x xs)) + f x = sum_list (map f xs)"
  using assms by (induction xs) auto

subsection \<open>Results and byte strings\<close>

text \<open>
  \<open>anyhow::Result\<close>: the left summand carries the message of a \<open>bail!\<close>. Byte strings are
  lists of characters. \<open>split_on\<close> is \<open>slice::split\<close> at a byte, which gives at least one
  piece.
\<close>

type_synonym 'a result = "string + 'a"

text \<open>The operator \<open>?\<close> on a result: \<open>Result::and_then\<close>.\<close>

definition and_then :: "'e + 'a \<Rightarrow> ('a \<Rightarrow> 'e + 'b) \<Rightarrow> 'e + 'b" where
  "and_then r f = (case r of Inl e \<Rightarrow> Inl e | Inr v \<Rightarrow> f v)"

lemma and_then_simps [simp]: "and_then (Inl e) f = Inl e" "and_then (Inr v) f = f v"
  by (simp_all add: and_then_def)

lemma and_then_Inr: "and_then r f = Inr w \<longleftrightarrow> (\<exists>v. r = Inr v \<and> f v = Inr w)"
  by (cases r) auto

lemma and_then_Inl: "and_then r f = Inl e \<longleftrightarrow> r = Inl e \<or> (\<exists>v. r = Inr v \<and> f v = Inl e)"
  by (cases r) auto

lemma and_then_cong [fundef_cong]:
  "r = r' \<Longrightarrow> (\<And>v. r' = Inr v \<Longrightarrow> f v = g v) \<Longrightarrow> and_then r f = and_then r' g"
  by (cases r') auto

fun split_on :: "'a \<Rightarrow> 'a list \<Rightarrow> 'a list list" where
  "split_on c [] = [[]]"
| "split_on c (x # xs) =
     (if x = c then [] # split_on c xs
      else (case split_on c xs of [] \<Rightarrow> [[x]] | y # ys \<Rightarrow> (x # y) # ys))"

fun join_with :: "'a \<Rightarrow> 'a list list \<Rightarrow> 'a list" where
  "join_with c [] = []"
| "join_with c [x] = x"
| "join_with c (x # y # ys) = x @ [c] @ join_with c (y # ys)"

text \<open>\<open>str::split_once\<close>: the text before and after the first occurrence.\<close>

fun split_once :: "'a \<Rightarrow> 'a list \<Rightarrow> ('a list \<times> 'a list) option" where
  "split_once c [] = None"
| "split_once c (x # xs) =
     (if x = c then Some ([], xs) else map_option (\<lambda>(a, b). (x # a, b)) (split_once c xs))"

definition starts_with :: "'a list \<Rightarrow> 'a list \<Rightarrow> bool" where
  "starts_with p s \<longleftrightarrow> take (length p) s = p"

lemma split_once_append: "c \<notin> set a \<Longrightarrow> split_once c (a @ c # b) = Some (a, b)"
  by (induction a) auto

lemma split_on_not_Nil [simp]: "split_on c s \<noteq> []"
  by (induction s) (auto split: list.split)

lemma split_on_no_sep: "c \<notin> set s \<Longrightarrow> split_on c s = [s]"
  by (induction s) auto

lemma split_on_append: "split_on c (a @ c # b) = split_on c a @ split_on c b"
  by (induction a) (auto split: list.split)

lemma split_on_pieces: "p \<in> set (split_on c s) \<Longrightarrow> c \<notin> set p \<and> set p \<subseteq> set s"
  by (induction s arbitrary: p) (fastforce split: if_splits list.splits)+

lemma join_split: "join_with c (split_on c s) = s"
proof (induction s)
  case (Cons x xs)
  then show ?case
    by (cases "split_on c xs" rule: list.exhaust [case_names Nil Cons])
      (auto split: list.split, (metis join_with.simps(2,3) list.exhaust append_Cons)+)
qed simp

lemma split_join:
  "ps \<noteq> [] \<Longrightarrow> (\<And>p. p \<in> set ps \<Longrightarrow> c \<notin> set p) \<Longrightarrow> split_on c (join_with c ps) = ps"
  by (induction c ps rule: join_with.induct) (simp_all add: split_on_no_sep split_on_append)

end
