(* ===== verification/Queue_Interface.thy ===== *)
theory Queue_Interface
  imports Syq_Prelude
begin

section \<open>The interface of a largest-first queue\<close>

text \<open>
  The scheduler takes work from two queues, one of byte ranges and one of whole files, and
  relies on the same contract of both: a push adds exactly one item, a pop on a non-empty
  queue removes exactly one item of greatest key, a pop on an empty queue says so, and
  neither panics on a well-formed queue. The contract is the locale \<open>largest_first\<close>; the
  component theories interpret it on the operations of the code.
\<close>

fun drain :: "('q \<Rightarrow> ('x option \<times> 'q) option) \<Rightarrow> nat \<Rightarrow> 'q \<Rightarrow> ('x list \<times> 'q) option" where
  "drain pop 0 q = Some ([], q)"
| "drain pop (Suc n) q = do {
     (x, q') \<leftarrow> pop q;
     (case x of
        None \<Rightarrow> Some ([], q')
      | Some y \<Rightarrow> do {
          (ys, q'') \<leftarrow> drain pop n q';
          Some (y # ys, q'') })
   }"

locale largest_first =
  fixes empty :: "'q"
    and push :: "'q \<Rightarrow> 'x \<Rightarrow> 'q option"
    and pop :: "'q \<Rightarrow> ('x option \<times> 'q) option"
    and items :: "'q \<Rightarrow> 'x multiset"
    and key :: "'x \<Rightarrow> 'k::linorder"
    and accepts :: "'q \<Rightarrow> 'x \<Rightarrow> bool"
    and invar :: "'q \<Rightarrow> bool"
  assumes invar_empty: "invar empty"
    and items_empty: "items empty = {#}"
    and push_ok: "invar q \<Longrightarrow> accepts q x \<Longrightarrow>
      \<exists>q'. push q x = Some q' \<and> invar q' \<and> items q' = add_mset x (items q)"
    and pop_none: "invar q \<Longrightarrow> items q = {#} \<Longrightarrow> pop q = Some (None, q)"
    and pop_some: "invar q \<Longrightarrow> items q \<noteq> {#} \<Longrightarrow>
      \<exists>x q'. pop q = Some (Some x, q') \<and> invar q' \<and> items q = add_mset x (items q') \<and>
        (\<forall>y\<in>#items q'. key y \<le> key x)"
begin

lemma pop_total: "invar q \<Longrightarrow> \<exists>x q'. pop q = Some (x, q') \<and> invar q'"
  by (cases "items q = {#}") (auto dest: pop_none pop_some)

lemma pop_SomeD:
  assumes "invar q" "pop q = Some (Some x, q')"
  shows "invar q'" "items q = add_mset x (items q')" "\<forall>y\<in>#items q. key y \<le> key x"
proof -
  have ne: "items q \<noteq> {#}"
    using assms pop_none by fastforce
  with pop_some [OF assms(1) ne] assms(2)
  show "invar q'" "items q = add_mset x (items q')" "\<forall>y\<in>#items q. key y \<le> key x"
    by auto
qed

lemma pop_NoneD:
  assumes "invar q" "pop q = Some (None, q')"
  shows "q' = q" "items q = {#}"
proof -
  show "items q = {#}"
    using assms pop_some by fastforce
  then show "q' = q"
    using assms pop_none by fastforce
qed

text \<open>Popping until the queue is empty serves every item once, greatest key first.\<close>

lemma drain_all:
  assumes "invar q"
  shows "\<exists>xs q'. drain pop (size (items q)) q = Some (xs, q') \<and> invar q' \<and>
    items q' = {#} \<and> mset xs = items q \<and> sorted_wrt (\<lambda>x y. key y \<le> key x) xs"
  using assms
proof (induction "size (items q)" arbitrary: q)
  case 0
  then show ?case by simp
next
  case (Suc n)
  then have ne: "items q \<noteq> {#}" by auto
  from pop_some [OF Suc.prems ne] obtain x q1 where
    1: "pop q = Some (Some x, q1)" "invar q1" "items q = add_mset x (items q1)"
       "\<forall>y\<in>#items q1. key y \<le> key x" by blast
  with Suc.hyps(2) have "n = size (items q1)" by simp
  from Suc.hyps(1) [OF this 1(2)] obtain ys q2 where
    2: "drain pop (size (items q1)) q1 = Some (ys, q2)" "invar q2" "items q2 = {#}"
       "mset ys = items q1" "sorted_wrt (\<lambda>x y. key y \<le> key x) ys" by blast
  have "\<forall>y\<in>set ys. key y \<le> key x"
    using 1(4) 2(4) by (metis set_mset_mset)
  with 1 2 show ?case by simp
qed

end

end
