(* ===== verification/Range_Queue.thy ===== *)
theory Range_Queue
  imports Queue_Interface
begin

section \<open>The queue of byte ranges\<close>

text \<open>
  \<open>RangeQueue\<close> of \<open>src/src/sched.rs\<close>: the byte ranges waiting to be read, indexed by file
  (\<open>by_file\<close>, for short same-file claims) and by each file's greatest range (\<open>largest\<close>, for
  largest-first scheduling), with running totals. An entry of a file is \<open>(length, offset)\<close>;
  an entry of \<open>largest\<close> is \<open>(length, file index, offset)\<close>.
\<close>

record range_queue =
  largest :: "(nat \<times> nat \<times> nat) set"
  by_file :: "nat \<rightharpoonup> (nat \<times> nat) set"
  rq_len :: nat
  rq_bytes :: nat

definition rq_default :: range_queue where
  "rq_default = \<lparr>largest = {}, by_file = Map.empty, rq_len = 0, rq_bytes = 0\<rparr>"

subsection \<open>Operations\<close>

fun rq_insert_all :: "(nat \<times> nat) list \<Rightarrow> (nat \<times> nat) set \<Rightarrow> nat \<Rightarrow> ((nat \<times> nat) set \<times> nat) option"
where
  "rq_insert_all [] fs bytes = Some (fs, bytes)"
| "rq_insert_all ((off, end') # ranges) fs bytes = do {
     len \<leftarrow> usub end' off;
     ensure ((len, off) \<notin> fs);
     rq_insert_all ranges (insert (len, off) fs) (bytes + len)
   }"

definition rq_extend :: "range_queue \<Rightarrow> nat \<Rightarrow> (nat \<times> nat) list \<Rightarrow> range_queue option" where
  "rq_extend q idx ranges =
    (if ranges = [] then Some q
     else do {
       let fs = (case by_file q idx of None \<Rightarrow> {} | Some f \<Rightarrow> f);
       let previous = set_last fs;
       (fs', bytes') \<leftarrow> rq_insert_all ranges fs (rq_bytes q);
       let maximum = set_last fs';
       largest' \<leftarrow>
         (if previous \<noteq> maximum then do {
            l \<leftarrow> (case previous of
                   None \<Rightarrow> Some (largest q)
                 | Some (len, off) \<Rightarrow> do {
                     ensure ((len, idx, off) \<in> largest q);
                     Some (largest q - {(len, idx, off)}) });
            (len, off) \<leftarrow> maximum;
            ensure ((len, idx, off) \<notin> l);
            Some (insert (len, idx, off) l)
          } else Some (largest q));
       Some (q\<lparr>by_file := (by_file q)(idx \<mapsto> fs'), rq_bytes := bytes', largest := largest',
               rq_len := rq_len q + length ranges\<rparr>)
     })"

definition rq_push :: "range_queue \<Rightarrow> nat \<times> nat \<times> nat \<Rightarrow> range_queue option" where
  "rq_push q r = (case r of (idx, off, end') \<Rightarrow> rq_extend q idx [(off, end')])"

definition rq_remove ::
  "range_queue \<Rightarrow> nat \<Rightarrow> nat \<Rightarrow> nat \<Rightarrow> ((nat \<times> nat \<times> nat) \<times> range_queue) option" where
  "rq_remove q len idx off = do {
     fs \<leftarrow> by_file q idx;
     let was_maximum = (set_last fs = Some (len, off));
     ensure ((len, off) \<in> fs);
     let fs' = fs - {(len, off)};
     largest' \<leftarrow>
       (if was_maximum then do {
          ensure ((len, idx, off) \<in> largest q);
          let l = largest q - {(len, idx, off)};
          (case set_last fs' of
             None \<Rightarrow> Some l
           | Some (next_len, next_off) \<Rightarrow> do {
               ensure ((next_len, idx, next_off) \<notin> l);
               Some (insert (next_len, idx, next_off) l) })
        } else Some (largest q));
     len' \<leftarrow> usub (rq_len q) 1;
     bytes' \<leftarrow> usub (rq_bytes q) len;
     Some ((idx, off, off + len),
           q\<lparr>largest := largest',
             by_file := (by_file q)(idx := (if fs' = {} then None else Some fs')),
             rq_len := len', rq_bytes := bytes'\<rparr>)
   }"

definition rq_pop :: "range_queue \<Rightarrow> ((nat \<times> nat \<times> nat) option \<times> range_queue) option" where
  "rq_pop q = (case set_last (largest q) of
     None \<Rightarrow> Some (None, q)
   | Some (len, idx, off) \<Rightarrow> do {
       (r, q') \<leftarrow> rq_remove q len idx off;
       Some (Some r, q') })"

definition rq_take_short ::
  "range_queue \<Rightarrow> nat \<Rightarrow> nat \<Rightarrow> ((nat \<times> nat \<times> nat) option \<times> range_queue) option" where
  "rq_take_short q idx max_size =
    (case Option.bind (by_file q idx) set_first of
       None \<Rightarrow> Some (None, q)
     | Some (len, off) \<Rightarrow>
         (if len \<le> max_size then do {
            (r, q') \<leftarrow> rq_remove q len idx off;
            Some (Some r, q') }
          else Some (None, q)))"

definition rq_is_empty :: "range_queue \<Rightarrow> bool" where
  "rq_is_empty q \<longleftrightarrow> rq_len q = 0"

subsection \<open>The abstract contents and the representation invariant\<close>

definition rq_entries :: "range_queue \<Rightarrow> (nat \<times> nat \<times> nat) set" where
  "rq_entries q = {(idx, e). \<exists>f. by_file q idx = Some f \<and> e \<in> f}"

definition entry_range :: "nat \<times> nat \<times> nat \<Rightarrow> nat \<times> nat \<times> nat" where
  "entry_range e = (case e of (idx, len, off) \<Rightarrow> (idx, off, off + len))"

text \<open>The queued ranges, as \<open>(file index, offset, end)\<close>.\<close>

definition rq_ranges :: "range_queue \<Rightarrow> (nat \<times> nat \<times> nat) set" where
  "rq_ranges q = entry_range ` rq_entries q"

text \<open>What largest-first order compares: length, then file index, then offset.\<close>

definition range_key :: "nat \<times> nat \<times> nat \<Rightarrow> nat \<times> nat \<times> nat" where
  "range_key r = (case r of (idx, off, end') \<Rightarrow> (end' - off, idx, off))"

definition rq_inv :: "range_queue \<Rightarrow> bool" where
  "rq_inv q \<longleftrightarrow>
     finite (dom (by_file q)) \<and>
     (\<forall>idx f. by_file q idx = Some f \<longrightarrow> finite f \<and> f \<noteq> {}) \<and>
     largest q = {(len, idx, off). \<exists>f. by_file q idx = Some f \<and> set_last f = Some (len, off)} \<and>
     rq_len q = card (rq_entries q) \<and>
     rq_bytes q = (\<Sum>(idx, len, off)\<in>rq_entries q. len)"

lemma inj_entry_range: "inj entry_range"
  by (auto simp: inj_def entry_range_def)

lemma entry_range_mem: "(idx, off, end') \<in> rq_ranges q \<longleftrightarrow>
    off \<le> end' \<and> (idx, end' - off, off) \<in> rq_entries q"
  by (force simp: rq_ranges_def entry_range_def image_iff)

lemma rq_ranges_le: "(idx, off, end') \<in> rq_ranges q \<Longrightarrow> off \<le> end'"
  by (simp add: entry_range_mem)

lemma card_rq_ranges: "card (rq_ranges q) = card (rq_entries q)"
  unfolding rq_ranges_def by (rule card_image) (rule inj_on_subset [OF inj_entry_range], simp)

lemma rq_entries_Sigma:
  "rq_entries q = (SIGMA idx : dom (by_file q). the (by_file q idx))"
  by (auto simp: rq_entries_def)

lemma finite_rq_entries: "rq_inv q \<Longrightarrow> finite (rq_entries q)"
  unfolding rq_entries_Sigma rq_inv_def by (rule finite_SigmaI) auto

lemma finite_rq_ranges: "rq_inv q \<Longrightarrow> finite (rq_ranges q)"
  by (simp add: rq_ranges_def finite_rq_entries)

lemma rq_entries_upd:
  "rq_entries (q\<lparr>by_file := (by_file q)(idx := v), rq_bytes := b, largest := l, rq_len := n\<rparr>) =
     {e \<in> rq_entries q. fst e \<noteq> idx} \<union> Pair idx ` (case v of None \<Rightarrow> {} | Some f \<Rightarrow> f)"
  by (auto simp: rq_entries_def split: option.splits if_splits)

lemma rq_default_inv [simp]: "rq_inv rq_default"
  by (simp add: rq_inv_def rq_default_def rq_entries_def)

lemma rq_entries_default [simp]: "rq_entries rq_default = {}"
  and rq_ranges_default [simp]: "rq_ranges rq_default = {}"
  by (simp_all add: rq_entries_def rq_ranges_def rq_default_def)

subsection \<open>Every operation keeps the invariant and never panics on it\<close>

definition heads_of :: "(nat \<rightharpoonup> (nat \<times> nat) set) \<Rightarrow> (nat \<times> nat \<times> nat) set" where
  "heads_of m = {(len, idx, off). \<exists>f. m idx = Some f \<and> set_last f = Some (len, off)}"

lemma heads_of_upd:
  "heads_of (m(i := v)) =
     heads_of m - {(len, i, off) | len off. True} \<union>
     {(len, i, off) | len off. Option.bind v set_last = Some (len, off)}"
  by (auto simp: heads_of_def bind_eq_Some_conv split: if_splits)

lemma heads_of_at:
  "(len, i, off) \<in> heads_of m \<longleftrightarrow> Option.bind (m i) set_last = Some (len, off)"
  by (auto simp: heads_of_def bind_eq_Some_conv)

lemma heads_of_minus:
  "heads_of m - {(len, i, off) | len off. True} =
     (case Option.bind (m i) set_last of None \<Rightarrow> heads_of m
      | Some (len, off) \<Rightarrow> heads_of m - {(len, i, off)})"
  by (auto simp: heads_of_at split: option.splits prod.splits)

lemma rq_invD:
  assumes "rq_inv q"
  shows "finite (dom (by_file q))" "by_file q idx = Some f \<Longrightarrow> finite f \<and> f \<noteq> {}"
    "largest q = heads_of (by_file q)" "rq_len q = card (rq_entries q)"
    "rq_bytes q = (\<Sum>(idx, len, off)\<in>rq_entries q. len)"
  using assms by (auto simp: rq_inv_def heads_of_def)

lemma rq_invI:
  assumes "finite (dom (by_file q))" "\<And>idx f. by_file q idx = Some f \<Longrightarrow> finite f \<and> f \<noteq> {}"
    "largest q = heads_of (by_file q)" "rq_len q = card (rq_entries q)"
    "rq_bytes q = (\<Sum>(idx, len, off)\<in>rq_entries q. len)"
  shows "rq_inv q"
  using assms by (auto simp: rq_inv_def heads_of_def)

lemma rq_insert_all_ok:
  assumes "\<forall>(off, end')\<in>set ranges. off \<le> end' \<and> (end' - off, off) \<notin> fs" "distinct ranges"
  shows "rq_insert_all ranges fs bytes =
    Some (fs \<union> (\<lambda>(off, end'). (end' - off, off)) ` set ranges,
          bytes + (\<Sum>(off, end')\<leftarrow>ranges. end' - off))"
  using assms
proof (induction ranges arbitrary: fs bytes)
  case (Cons r ranges)
  obtain off end' where r: "r = (off, end')" by (cases r)
  have "\<forall>(o', e')\<in>set ranges. o' \<le> e' \<and> (e' - o', o') \<notin> insert (end' - off, off) fs"
    using Cons.prems r by (fastforce simp: eq_diff_iff)
  from Cons.IH [OF this] Cons.prems r show ?case
    by (simp add: usub_le)
qed simp

definition fresh_for :: "range_queue \<Rightarrow> nat \<Rightarrow> (nat \<times> nat) list \<Rightarrow> bool" where
  "fresh_for q idx ranges \<longleftrightarrow>
     distinct ranges \<and> (\<forall>(off, end')\<in>set ranges. off \<le> end' \<and> (idx, off, end') \<notin> rq_ranges q)"

text \<open>The update of one file's set, with the entry of \<^const>\<open>largest\<close> adjusted to match.\<close>

lemma rq_extend_largest:
  assumes "largest q = heads_of (by_file q)" "fs' \<noteq> {}"
    and fs: "fs = (case by_file q idx of None \<Rightarrow> {} | Some f \<Rightarrow> f)"
  shows "(if set_last fs \<noteq> set_last fs' then do {
            l \<leftarrow> (case set_last fs of
                   None \<Rightarrow> Some (largest q)
                 | Some (len, off) \<Rightarrow> do {
                     ensure ((len, idx, off) \<in> largest q);
                     Some (largest q - {(len, idx, off)}) });
            (len, off) \<leftarrow> set_last fs';
            ensure ((len, idx, off) \<notin> l);
            Some (insert (len, idx, off) l)
          } else Some (largest q)) = Some (heads_of ((by_file q)(idx \<mapsto> fs')))"
proof -
  obtain len off where new: "set_last fs' = Some (len, off)"
    using assms(2) by (cases "set_last fs'") auto
  have old: "Option.bind (by_file q idx) set_last = set_last fs"
    by (simp add: fs split: option.splits)
  have upd: "heads_of ((by_file q)(idx \<mapsto> fs')) =
      insert (len, idx, off) (heads_of (by_file q) - {(len, idx, off) | len off. True})"
    by (auto simp: heads_of_upd new)
  show ?thesis
  proof (cases "set_last fs")
    case None
    then have "heads_of (by_file q) - {(len, idx, off) | len off. True} = heads_of (by_file q)"
      unfolding heads_of_minus using old by simp
    then show ?thesis
      using None new old by (simp add: upd assms(1) heads_of_at)
  next
    case (Some lo)
    obtain len0 off0 where lo: "lo = (len0, off0)" by (cases lo)
    have mem: "(len0, idx, off0) \<in> heads_of (by_file q)"
      using Some lo old by (simp add: heads_of_at)
    have minus: "heads_of (by_file q) - {(len, idx, off) | len off. True} =
        heads_of (by_file q) - {(len0, idx, off0)}"
      unfolding heads_of_minus using Some lo old by simp
    show ?thesis
    proof (cases "set_last fs = set_last fs'")
      case True
      then have "(len, off) = (len0, off0)" using Some lo new by simp
      then show ?thesis
        using True mem by (simp add: upd [unfolded minus] assms(1) insert_absorb)
    next
      case False
      then have "(len, idx, off) \<notin> heads_of (by_file q)"
        using new old by (simp add: heads_of_at)
      with False Some lo new mem show ?thesis
        by (simp add: upd [unfolded minus] assms(1))
    qed
  qed
qed

theorem rq_extend_ok:
  assumes inv: "rq_inv q" and fresh: "fresh_for q idx ranges"
  shows "\<exists>q'. rq_extend q idx ranges = Some q' \<and> rq_inv q' \<and>
    rq_ranges q' = rq_ranges q \<union> (\<lambda>(off, end'). (idx, off, end')) ` set ranges"
proof (cases "ranges = []")
  case True
  then show ?thesis using inv by (simp add: rq_extend_def)
next
  case False
  define fs where "fs = (case by_file q idx of None \<Rightarrow> {} | Some f \<Rightarrow> f)"
  define new where "new = (\<lambda>(off, end'). (end' - off, off)) ` set ranges"
  define bytes' where "bytes' = rq_bytes q + (\<Sum>(off, end')\<leftarrow>ranges. end' - off)"
  have in_fs: "e \<in> fs \<longleftrightarrow> (idx, e) \<in> rq_entries q" for e
    by (auto simp: fs_def rq_entries_def split: option.splits)
  have le: "(off, end') \<in> set ranges \<Longrightarrow> off \<le> end' \<and> (end' - off, off) \<notin> fs" for off end'
    using fresh by (auto simp: fresh_for_def in_fs entry_range_mem)
  have ins: "rq_insert_all ranges fs (rq_bytes q) = Some (fs \<union> new, bytes')"
    unfolding new_def bytes'_def
    by (rule rq_insert_all_ok) (use le fresh in \<open>auto simp: fresh_for_def\<close>)
  have ne: "fs \<union> new \<noteq> {}"
    using False by (cases ranges) (auto simp: new_def)
  define q' where "q' = q\<lparr>by_file := (by_file q)(idx \<mapsto> fs \<union> new), rq_bytes := bytes',
    largest := heads_of ((by_file q)(idx \<mapsto> fs \<union> new)), rq_len := rq_len q + length ranges\<rparr>"
  have run: "rq_extend q idx ranges = Some q'"
    using False ins rq_extend_largest [OF rq_invD(3) [OF inv] ne fs_def]
    by (simp add: rq_extend_def Let_def flip: fs_def) (simp add: q'_def)
  have ent: "rq_entries q' = rq_entries q \<union> Pair idx ` new"
    unfolding q'_def rq_entries_upd by (auto simp: in_fs)
  have disj: "rq_entries q \<inter> Pair idx ` new = {}"
    using le by (auto simp: new_def in_fs)
  have inj: "inj_on (\<lambda>(off, end'). (end' - off, off)) (set ranges)"
    using le by (auto simp: inj_on_def) (metis le_add_diff_inverse)
  have card_new: "card (Pair idx ` new) = length ranges"
    using inj fresh
    by (simp add: new_def card_image inj_on_def distinct_card fresh_for_def)
  have sum_new: "(\<Sum>(i, len, off)\<in>Pair idx ` new. len) = (\<Sum>(off, end')\<leftarrow>ranges. end' - off)"
  proof -
    have "(\<Sum>(i, len, off)\<in>Pair idx ` new. len) = (\<Sum>(len, off)\<in>new. len)"
      by (simp add: sum.reindex inj_on_def)
    also have "\<dots> = (\<Sum>r\<in>set ranges. case r of (off, end') \<Rightarrow> end' - off)"
      unfolding new_def sum.reindex [OF inj] by (rule sum.cong) auto
    also have "\<dots> = (\<Sum>(off, end')\<leftarrow>ranges. end' - off)"
      using fresh by (simp add: sum_list_distinct_conv_sum_set fresh_for_def)
    finally show ?thesis .
  qed
  have fin: "finite (Pair idx ` new)"
    by (simp add: new_def)
  have "rq_inv q'"
  proof (rule rq_invI)
    show "finite (dom (by_file q'))"
      using rq_invD(1) [OF inv] by (simp add: q'_def)
    show "finite f \<and> f \<noteq> {}" if "by_file q' i = Some f" for i f
    proof -
      have "finite fs" "finite new"
        using rq_invD(2) [OF inv, of idx] by (auto simp: fs_def new_def split: option.splits)
      then show ?thesis
        using that ne rq_invD(2) [OF inv, of i] by (auto simp: q'_def split: if_splits)
    qed
    show "largest q' = heads_of (by_file q')"
      by (simp add: q'_def)
    show "rq_len q' = card (rq_entries q')"
      using rq_invD(4) [OF inv] card_Un_disjoint [OF finite_rq_entries [OF inv] fin disj]
      by (simp add: ent card_new) (simp add: q'_def)
    have "(\<Sum>(idx, len, off)\<in>rq_entries q'. len) =
        (\<Sum>(idx, len, off)\<in>rq_entries q. len) + (\<Sum>(idx, len, off)\<in>Pair idx ` new. len)"
      unfolding ent by (rule sum.union_disjoint [OF finite_rq_entries [OF inv] fin disj])
    then show "rq_bytes q' = (\<Sum>(idx, len, off)\<in>rq_entries q'. len)"
      using rq_invD(5) [OF inv] by (simp only: sum_new) (simp add: q'_def bytes'_def)
  qed
  moreover have "rq_ranges q' = rq_ranges q \<union> (\<lambda>(off, end'). (idx, off, end')) ` set ranges"
  proof -
    have "entry_range ` Pair idx ` new = (\<lambda>(off, end'). (idx, off, end')) ` set ranges"
      using le by (force simp: new_def entry_range_def image_iff)
    then show ?thesis by (simp add: rq_ranges_def ent image_Un)
  qed
  ultimately show ?thesis using run by blast
qed

lemma rq_remove_largest:
  assumes "largest q = heads_of (by_file q)" "by_file q idx = Some fs" "finite fs"
    and mem: "(len, off) \<in> fs"
  shows "(if set_last fs = Some (len, off) then do {
            ensure ((len, idx, off) \<in> largest q);
            let l = largest q - {(len, idx, off)};
            (case set_last (fs - {(len, off)}) of
               None \<Rightarrow> Some l
             | Some (next_len, next_off) \<Rightarrow> do {
                 ensure ((next_len, idx, next_off) \<notin> l);
                 Some (insert (next_len, idx, next_off) l) })
          } else Some (largest q)) =
         Some (heads_of ((by_file q)(idx := (if fs - {(len, off)} = {} then None
                                             else Some (fs - {(len, off)})))))"
    (is "?lhs = Some (heads_of (_(idx := ?v)))")
proof -
  have bind: "Option.bind ?v set_last = set_last (fs - {(len, off)})"
    by (simp add: set_last_def)
  have upd: "heads_of ((by_file q)(idx := ?v)) =
      heads_of (by_file q) - {(len, idx, off) | len off. True} \<union>
      {(len', idx, off') | len' off'. set_last (fs - {(len, off)}) = Some (len', off')}"
    by (simp only: heads_of_upd bind)
  obtain len0 off0 where last: "set_last fs = Some (len0, off0)"
    using mem by (cases "set_last fs") auto
  then have minus: "heads_of (by_file q) - {(len, idx, off) | len off. True} =
      heads_of (by_file q) - {(len0, idx, off0)}"
    unfolding heads_of_minus using assms(2) by simp
  show ?thesis
  proof (cases "set_last fs = Some (len, off)")
    case True
    then have eq: "len0 = len" "off0 = off" using last by simp_all
    have "(len, idx, off) \<in> heads_of (by_file q)"
      using True assms(2) by (simp add: heads_of_at)
    moreover have "(l', idx, o') \<notin> heads_of (by_file q) - {(len, idx, off)}" for l' o'
      using True assms(2) by (auto simp: heads_of_at)
    ultimately show ?thesis
    proof (cases "set_last (fs - {(len, off)})")
      case None
      have "heads_of ((by_file q)(idx := ?v)) = heads_of (by_file q) - {(len, idx, off)}"
        unfolding upd minus eq None by simp
      then show ?thesis
        using True None \<open>(len, idx, off) \<in> heads_of (by_file q)\<close>
        by (simp add: assms(1) Let_def del: set_last_eq_None)
    next
      case (Some lo)
      obtain l' o' where lo: "lo = (l', o')" by (cases lo)
      have "heads_of ((by_file q)(idx := ?v)) =
          insert (l', idx, o') (heads_of (by_file q) - {(len, idx, off)})"
        unfolding upd minus eq Some lo by auto
      moreover have "(l', idx, o') \<notin> heads_of (by_file q) - {(len, idx, off)}" by fact
      ultimately show ?thesis
        using True Some lo \<open>(len, idx, off) \<in> heads_of (by_file q)\<close>
        by (simp add: assms(1) Let_def)
    qed
  next
    case False
    then have ne: "(len, off) \<noteq> (len0, off0)" using last by auto
    have "set_last (fs - {(len, off)}) = Some (len0, off0)"
      using last ne assms(3) by (auto simp: set_last_eq_Some)
    moreover have "(len0, idx, off0) \<in> heads_of (by_file q)"
      using last assms(2) by (simp add: heads_of_at)
    ultimately show ?thesis
      using False unfolding upd minus by (auto simp: assms(1))
  qed
qed

theorem rq_remove_ok:
  assumes inv: "rq_inv q" and mem: "(idx, len, off) \<in> rq_entries q"
  shows "\<exists>q'. rq_remove q len idx off = Some ((idx, off, off + len), q') \<and> rq_inv q' \<and>
    rq_ranges q' = rq_ranges q - {(idx, off, off + len)}"
proof -
  obtain fs where fs: "by_file q idx = Some fs" "(len, off) \<in> fs" "finite fs"
    using mem rq_invD(2) [OF inv] by (auto simp: rq_entries_def)
  define v where "v = (if fs - {(len, off)} = {} then None else Some (fs - {(len, off)}))"
  define q' where "q' = q\<lparr>largest := heads_of ((by_file q)(idx := v)),
    by_file := (by_file q)(idx := v), rq_len := rq_len q - 1, rq_bytes := rq_bytes q - len\<rparr>"
  have fin: "finite (rq_entries q)" by (rule finite_rq_entries [OF inv])
  have ent: "rq_entries q' = rq_entries q - {(idx, len, off)}"
    using fs by (auto simp: q'_def rq_entries_def v_def split: if_splits)
  have pos: "1 \<le> rq_len q"
    using mem fin rq_invD(4) [OF inv] by (auto simp: Suc_le_eq card_gt_0_iff)
  have sum: "rq_bytes q = len + (\<Sum>(idx, len, off)\<in>rq_entries q'. len)"
    using rq_invD(5) [OF inv] sum.remove [OF fin mem, of "\<lambda>(idx, len, off). len"]
    by (simp add: ent)
  have le: "len \<le> rq_bytes q" using sum by simp
  note new_largest = rq_remove_largest [OF rq_invD(3) [OF inv] fs(1,3,2), folded v_def]
  have run: "rq_remove q len idx off = Some ((idx, off, off + len), q')"
    using fs pos le new_largest
    unfolding rq_remove_def Let_def q'_def by (simp add: usub_le) (simp add: v_def)
  have "rq_inv q'"
  proof (rule rq_invI)
    show "finite (dom (by_file q'))"
      using rq_invD(1) [OF inv] by (simp add: q'_def)
    show "finite f \<and> f \<noteq> {}" if "by_file q' i = Some f" for i f
      using that fs rq_invD(2) [OF inv, of i] by (auto simp: q'_def v_def split: if_splits)
    show "largest q' = heads_of (by_file q')"
      by (simp add: q'_def)
    show "rq_len q' = card (rq_entries q')"
      using rq_invD(4) [OF inv] mem fin by (simp add: ent) (simp add: q'_def)
    show "rq_bytes q' = (\<Sum>(idx, len, off)\<in>rq_entries q'. len)"
      using sum by (simp add: q'_def)
  qed
  moreover have "rq_ranges q' = rq_ranges q - {(idx, off, off + len)}"
  proof -
    have "entry_range ` (rq_entries q - {(idx, len, off)}) =
        entry_range ` rq_entries q - entry_range ` {(idx, len, off)}"
      by (rule image_set_diff [OF inj_entry_range])
    then show ?thesis by (simp add: rq_ranges_def ent entry_range_def)
  qed
  ultimately show ?thesis using run by blast
qed

lemma heads_entries:
  assumes "rq_inv q" "(len, idx, off) \<in> heads_of (by_file q)"
  shows "(idx, len, off) \<in> rq_entries q"
proof -
  obtain fs where fs: "by_file q idx = Some fs" "set_last fs = Some (len, off)"
    using assms(2) by (auto simp: heads_of_def)
  then have "(len, off) \<in> fs"
    using rq_invD(2) [OF assms(1) fs(1)] by (simp add: set_last_eq_Some)
  with fs show ?thesis by (simp add: rq_entries_def)
qed

lemma rq_inv_max:
  assumes inv: "rq_inv q" and "set_last (largest q) = Some (len, idx, off)"
  shows "(idx, len, off) \<in> rq_entries q" "\<forall>(i, l, o')\<in>rq_entries q. (l, i, o') \<le> (len, idx, off)"
proof -
  have heads: "largest q = heads_of (by_file q)" by (rule rq_invD(3) [OF inv])
  have "heads_of (by_file q) \<subseteq> (\<lambda>(i, l, o'). (l, i, o')) ` rq_entries q"
    using heads_entries [OF inv] by (auto simp: image_iff split: prod.splits) blast
  then have "finite (largest q)"
    using finite_rq_entries [OF inv] unfolding heads by (rule finite_subset [OF _ finite_imageI])
  then have max: "(len, idx, off) \<in> heads_of (by_file q)"
      "\<And>h. h \<in> heads_of (by_file q) \<Longrightarrow> h \<le> (len, idx, off)"
    using assms(2) by (simp_all add: set_last_eq_Some heads)
  from max(1) show "(idx, len, off) \<in> rq_entries q"
    by (rule heads_entries [OF inv])
  have "(l, i, o') \<le> (len, idx, off)" if e: "(i, l, o') \<in> rq_entries q" for i l o'
  proof -
    obtain fs where fs: "by_file q i = Some fs" "(l, o') \<in> fs" using e by (auto simp: rq_entries_def)
    with rq_invD(2) [OF inv] obtain l1 o1 where last: "set_last fs = Some (l1, o1)"
      by (cases "set_last fs") auto
    then have "(l, o') \<le> (l1, o1)"
      using fs rq_invD(2) [OF inv fs(1)] set_last_eq_Some by blast
    then have "(l, i, o') \<le> (l1, i, o1)" by auto
    also have "\<dots> \<le> (len, idx, off)"
      using fs last by (intro max(2)) (simp add: heads_of_at)
    finally show ?thesis .
  qed
  then show "\<forall>(i, l, o')\<in>rq_entries q. (l, i, o') \<le> (len, idx, off)" by blast
qed

lemma rq_largest_empty: "rq_inv q \<Longrightarrow> largest q = {} \<longleftrightarrow> rq_ranges q = {}"
proof -
  assume inv: "rq_inv q"
  have "rq_entries q = {}" if "largest q = {}"
  proof (rule ccontr)
    assume "rq_entries q \<noteq> {}"
    then obtain i e fs where "by_file q i = Some fs" "e \<in> fs" by (auto simp: rq_entries_def)
    then obtain l o' where "set_last fs = Some (l, o')" by (cases "set_last fs") auto
    then have "(l, i, o') \<in> largest q"
      using \<open>by_file q i = Some fs\<close> by (simp add: rq_invD(3) [OF inv] heads_of_at)
    with that show False by simp
  qed
  moreover have "largest q = {}" if "rq_entries q = {}"
    using that heads_entries [OF inv] by (auto simp: rq_invD(3) [OF inv])
  ultimately show ?thesis by (auto simp: rq_ranges_def)
qed

lemma rq_pop_none: "rq_inv q \<Longrightarrow> rq_ranges q = {} \<Longrightarrow> rq_pop q = Some (None, q)"
  using rq_largest_empty [of q] by (simp add: rq_pop_def)

theorem rq_pop_some:
  assumes inv: "rq_inv q" and ne: "rq_ranges q \<noteq> {}"
  shows "\<exists>r q'. rq_pop q = Some (Some r, q') \<and> rq_inv q' \<and> r \<in> rq_ranges q \<and>
    rq_ranges q' = rq_ranges q - {r} \<and> (\<forall>r'\<in>rq_ranges q. range_key r' \<le> range_key r)"
proof -
  obtain len idx off where top: "set_last (largest q) = Some (len, idx, off)"
    using ne rq_largest_empty [OF inv] by (cases "set_last (largest q)") auto
  note max = rq_inv_max [OF inv top]
  obtain q' where q': "rq_remove q len idx off = Some ((idx, off, off + len), q')" "rq_inv q'"
      "rq_ranges q' = rq_ranges q - {(idx, off, off + len)}"
    using rq_remove_ok [OF inv max(1)] by blast
  have "range_key r' \<le> range_key (idx, off, off + len)" if "r' \<in> rq_ranges q" for r'
    using that max(2) by (auto simp: rq_ranges_def entry_range_def range_key_def)
  moreover have "(idx, off, off + len) \<in> rq_ranges q"
    using max(1) by (simp add: entry_range_mem)
  ultimately show ?thesis
    using q' top by (auto simp: rq_pop_def)
qed

theorem rq_take_short_ok:
  assumes inv: "rq_inv q"
  shows "\<exists>r q'. rq_take_short q idx max_size = Some (r, q') \<and> rq_inv q' \<and>
    (case r of
       None \<Rightarrow> q' = q \<and> (\<forall>(i, off, end')\<in>rq_ranges q. i = idx \<longrightarrow> max_size < end' - off)
     | Some (i, off, end') \<Rightarrow> i = idx \<and> (i, off, end') \<in> rq_ranges q \<and> end' - off \<le> max_size \<and>
         rq_ranges q' = rq_ranges q - {(i, off, end')} \<and>
         (\<forall>(j, o', e')\<in>rq_ranges q. j = idx \<longrightarrow> (end' - off, off) \<le> (e' - o', o')))"
proof (cases "Option.bind (by_file q idx) set_first")
  case None
  then have "by_file q idx = None"
    using rq_invD(2) [OF inv] by (cases "by_file q idx") auto
  then have "(idx, e) \<notin> rq_entries q" for e by (simp add: rq_entries_def)
  then have "\<forall>(i, off, end')\<in>rq_ranges q. i = idx \<longrightarrow> max_size < end' - off"
    by (auto simp: entry_range_mem)
  with None inv show ?thesis by (simp add: rq_take_short_def)
next
  case (Some lo)
  obtain len off where lo: "lo = (len, off)" by (cases lo)
  from Some lo obtain fs where fs: "by_file q idx = Some fs" "set_first fs = Some (len, off)"
    by (auto simp: bind_eq_Some_conv)
  then have min: "(len, off) \<in> fs" "\<forall>x\<in>fs. (len, off) \<le> x"
    using rq_invD(2) [OF inv fs(1)] by (simp_all add: set_first_eq_Some)
  then have least: "\<forall>(j, o', e')\<in>rq_ranges q. j = idx \<longrightarrow> (len, off) \<le> (e' - o', o')"
  proof (clarify)
    fix o' e' assume "(idx, o', e') \<in> rq_ranges q"
    then have "(e' - o', o') \<in> fs" using fs(1) by (simp add: entry_range_mem rq_entries_def)
    with min(2) show "(len, off) \<le> (e' - o', o')" by blast
  qed
  show ?thesis
  proof (cases "len \<le> max_size")
    case True
    have mem: "(idx, len, off) \<in> rq_entries q" using fs min by (simp add: rq_entries_def)
    from rq_remove_ok [OF inv mem] obtain q' where
      "rq_remove q len idx off = Some ((idx, off, off + len), q')" "rq_inv q'"
      "rq_ranges q' = rq_ranges q - {(idx, off, off + len)}" by blast
    with True Some lo mem least show ?thesis
      by (simp add: rq_take_short_def entry_range_mem)
  next
    case False
    have "\<forall>(i, off, end')\<in>rq_ranges q. i = idx \<longrightarrow> max_size < end' - off"
    proof (clarify)
      fix o' e' assume "(idx, o', e') \<in> rq_ranges q"
      with least have "len \<le> e' - o'" by auto
      with False show "max_size < e' - o'" by simp
    qed
    with False Some lo inv show ?thesis by (simp add: rq_take_short_def)
  qed
qed

subsection \<open>The queue is a largest-first queue\<close>

lemma rq_push_ok:
  assumes "rq_inv q" "off \<le> end'" "(idx, off, end') \<notin> rq_ranges q"
  shows "\<exists>q'. rq_push q (idx, off, end') = Some q' \<and> rq_inv q' \<and>
    rq_ranges q' = insert (idx, off, end') (rq_ranges q)"
  using rq_extend_ok [OF assms(1), of idx "[(off, end')]"] assms(2,3)
  by (simp add: rq_push_def fresh_for_def)

lemma rq_is_empty_iff: "rq_inv q \<Longrightarrow> rq_is_empty q \<longleftrightarrow> rq_ranges q = {}"
  using card_rq_ranges [of q] finite_rq_ranges [of q]
  by (simp add: rq_is_empty_def rq_invD(4) flip: card_rq_ranges)

definition rq_accepts :: "range_queue \<Rightarrow> nat \<times> nat \<times> nat \<Rightarrow> bool" where
  "rq_accepts q r \<longleftrightarrow> (case r of (idx, off, end') \<Rightarrow> off \<le> end') \<and> r \<notin> rq_ranges q"

definition rq_items :: "range_queue \<Rightarrow> (nat \<times> nat \<times> nat) multiset" where
  "rq_items q = mset_set (rq_ranges q)"

lemma rq_items_empty: "rq_inv q \<Longrightarrow> rq_items q = {#} \<longleftrightarrow> rq_ranges q = {}"
  by (simp add: rq_items_def mset_set_empty_iff finite_rq_ranges)

interpretation rq: largest_first rq_default rq_push rq_pop rq_items range_key rq_accepts rq_inv
proof (unfold_locales, goal_cases)
  case 1
  show ?case by simp
next
  case 2
  show ?case by (simp add: rq_items_def)
next
  case (3 q x)
  obtain idx off end' where x: "x = (idx, off, end')" by (cases x)
  with 3 obtain q' where "rq_push q x = Some q'" "rq_inv q'"
      "rq_ranges q' = insert x (rq_ranges q)"
    using rq_push_ok [OF 3(1), of off end' idx] by (auto simp: rq_accepts_def)
  with 3 show ?case by (simp add: rq_items_def rq_accepts_def finite_rq_ranges)
next
  case (4 q)
  then show ?case by (simp add: rq_items_empty rq_pop_none)
next
  case (5 q)
  then have "rq_ranges q \<noteq> {}" by (simp add: rq_items_empty)
  from rq_pop_some [OF 5(1) this] obtain r q' where
    r: "rq_pop q = Some (Some r, q')" "rq_inv q'" "r \<in> rq_ranges q"
       "rq_ranges q' = rq_ranges q - {r}" "\<forall>r'\<in>rq_ranges q. range_key r' \<le> range_key r"
    by blast
  then have "rq_items q = add_mset r (rq_items q')"
    using finite_rq_ranges [OF 5(1)] by (simp add: rq_items_def mset_set.remove)
  moreover have "set_mset (rq_items q') \<subseteq> rq_ranges q"
    using r finite_rq_ranges [of q'] by (auto simp: rq_items_def)
  ultimately show ?case using r by blast
qed

subsection \<open>The property\<close>

text \<open>C27. Queued ranges are served largest first: popping a well-formed range queue as often as it
  has ranges never panics, returns every queued range exactly once in order of falling length
  (then file index, then offset), and leaves the queue empty.\<close>

theorem rq_serves_largest_first:
  assumes "rq_inv q"
  shows "\<exists>xs q'. drain rq_pop (rq_len q) q = Some (xs, q') \<and> rq_inv q' \<and> rq_is_empty q' \<and>
    mset xs = rq_items q \<and> sorted_wrt (\<lambda>x y. range_key y \<le> range_key x) xs"
proof -
  have "size (rq_items q) = rq_len q"
    using rq_invD(4) [OF assms] by (simp add: rq_items_def card_rq_ranges)
  with rq.drain_all [OF assms] show ?thesis
    using rq_is_empty_iff rq_items_empty by metis
qed

theorem rq_serves_largest_first_witness:
  "\<exists>q. rq_push rq_default (7, 0, 4) = Some q \<and>
    (\<exists>xs q'. drain rq_pop (rq_len q) q = Some (xs, q') \<and> mset xs = {#(7, 0, 4)#})"
proof -
  obtain q where q: "rq_push rq_default (7, 0, 4) = Some q" "rq_inv q" "rq_items q = {#(7, 0, 4)#}"
    using rq.push_ok [of rq_default "(7, 0, 4)"]
    by (auto simp: rq_accepts_def rq_ranges_def rq_items_def)
  with rq_serves_largest_first [OF q(2)] show ?thesis by auto
qed

end
