(* ===== verification/Proto_Types.thy ===== *)
theory Proto_Types
  imports Syq_Prelude
begin

section \<open>Data of the protocol\<close>

text \<open>
  The types of \<open>src/src/proto.rs\<close> and \<open>src/src/inode_metadata.rs\<close> that the components share:
  scanned entries, inode metadata, target conditions and registered source paths, with the
  operations on them. Integers are unbounded here; their widths matter to none of these
  operations. A boxed or reference-counted value is the value.
\<close>

type_synonym path_bytes = string

subsection \<open>Inode metadata\<close>

record timestamp =
  seconds :: int
  nanoseconds :: nat

record mac_ace =
  principal :: string
  ace_tag :: nat
  permissions :: nat
  ace_flags :: nat

record mac_acl =
  acl_flags :: nat
  acl_entries :: "mac_ace list"

record posix_acls =
  acl_access :: "string option"
  acl_default :: "string option"

record extended_attributes =
  privileged :: bool
  xattr_values :: "(string \<times> string) list"

record inode_metadata =
  acls :: "posix_acls option"
  macos_acl :: "mac_acl option"
  xattrs :: "extended_attributes option"
  im_atime :: "timestamp option"
  im_crtime :: "timestamp option"

definition inode_metadata_default :: inode_metadata where
  "inode_metadata_default =
     \<lparr>acls = None, macos_acl = None, xattrs = None, im_atime = None, im_crtime = None\<rparr>"

definition overlay_part :: "'a option \<Rightarrow> 'a option \<Rightarrow> 'a option" where
  "overlay_part later current = (if later \<noteq> None then later else current)"

definition overlay :: "inode_metadata \<Rightarrow> inode_metadata \<Rightarrow> inode_metadata" where
  "overlay self later =
     \<lparr>acls = overlay_part (acls later) (acls self),
      macos_acl = overlay_part (macos_acl later) (macos_acl self),
      xattrs = overlay_part (xattrs later) (xattrs self),
      im_atime = overlay_part (im_atime later) (im_atime self),
      im_crtime = overlay_part (im_crtime later) (im_crtime self)\<rparr>"

definition differs_besides_atime :: "inode_metadata \<Rightarrow> inode_metadata option \<Rightarrow> bool" where
  "differs_besides_atime self current =
     (let c = (case current of None \<Rightarrow> inode_metadata_default | Some c \<Rightarrow> c)
      in (acls self, macos_acl self, xattrs self, im_crtime self)
           \<noteq> (acls c, macos_acl c, xattrs c, im_crtime c))"

definition size_hint :: "inode_metadata \<Rightarrow> nat" where
  "size_hint m = 64
     + (case macos_acl m of None \<Rightarrow> 0 | Some a \<Rightarrow> 16 + length (acl_entries a) * 40)
     + (case acls m of
          None \<Rightarrow> 0
        | Some a \<Rightarrow> (case acl_access a of None \<Rightarrow> 0 | Some v \<Rightarrow> length v)
                  + (case acl_default a of None \<Rightarrow> 0 | Some v \<Rightarrow> length v))
     + (case xattrs m of
          None \<Rightarrow> 0
        | Some x \<Rightarrow> sum_list (map (\<lambda>(n, v). length n + length v + 32) (xattr_values x)))"

subsection \<open>Entries, conditions and jobs' enumerations\<close>

datatype kind = Dir | File | Symlink | Fifo | Socket | CharDev | BlockDev | OtherKind

record entry =
  path :: path_bytes
  e_kind :: kind
  e_size :: nat
  mtime :: int
  mtime_nsec :: nat
  mode :: nat
  uid :: nat
  gid :: nat
  rdev :: nat
  dev :: nat
  ino :: nat
  nlink :: nat
  ctime :: int
  ctime_nsec :: nat
  link_target :: "path_bytes option"
  e_atime :: timestamp
  e_metadata :: "inode_metadata option"

datatype target_condition =
    AnyTarget
  | AbsentTarget
  | Matches nat nat
  | MatchesFingerprint nat nat int nat

datatype scanned_destination = UnknownDest | AbsentDest | FileDest nat

datatype replace_reason =
    NotRegular | OtherNames | UntrustedFilesystem | Owner | Privileges | WiderPermissions | NotWritable

definition replace_reason_all :: "replace_reason list" where
  "replace_reason_all =
     [NotRegular, OtherNames, UntrustedFilesystem, Owner, Privileges, WiderPermissions, NotWritable]"

fun replace_reason_key :: "replace_reason \<Rightarrow> string" where
  "replace_reason_key NotRegular = ''not_regular''"
| "replace_reason_key OtherNames = ''other_names''"
| "replace_reason_key UntrustedFilesystem = ''untrusted_filesystem''"
| "replace_reason_key Owner = ''owner''"
| "replace_reason_key Privileges = ''privileges''"
| "replace_reason_key WiderPermissions = ''wider_permissions''"
| "replace_reason_key NotWritable = ''not_writable''"

subsection \<open>Registered paths\<close>

record registered_path =
  rp_root :: nat
  rp_relative :: path_bytes

definition validate_relative_path :: "path_bytes \<Rightarrow> unit result" where
  "validate_relative_path p =
     (if starts_with ''/'' p then Inl ''registered path must be relative''
      else if CHR 0x00 \<in> set p then Inl ''registered path contains NUL''
      else if p = [] then Inr ()
      else if list_ex (\<lambda>c. c = [] \<or> c = ''.'' \<or> c = ''..'') (split_on (CHR ''/'') p)
      then Inl ''registered path contains an unsafe component''
      else Inr ())"

definition registered_path_new :: "nat \<Rightarrow> path_bytes \<Rightarrow> registered_path result" where
  "registered_path_new root relative =
     (case validate_relative_path relative of
        Inl e \<Rightarrow> Inl e
      | Inr _ \<Rightarrow> Inr \<lparr>rp_root = root, rp_relative = relative\<rparr>)"

definition registered_path_join :: "registered_path \<Rightarrow> path_bytes \<Rightarrow> registered_path result" where
  "registered_path_join self relative =
     (case validate_relative_path relative of
        Inl e \<Rightarrow> Inl e
      | Inr _ \<Rightarrow>
          (let joined = rp_relative self
                 @ (if rp_relative self \<noteq> [] \<and> relative \<noteq> [] then ''/'' else [])
                 @ relative
           in registered_path_new (rp_root self) joined))"

text \<open>
  A path names only what lies below its root: the components of an accepted path are never
  empty, \<open>.\<close> or \<open>..\<close>.
\<close>

definition safe_component :: "string \<Rightarrow> bool" where
  "safe_component c \<longleftrightarrow> c \<noteq> [] \<and> c \<noteq> ''.'' \<and> c \<noteq> ''..'' \<and> CHR ''/'' \<notin> set c \<and> CHR 0x00 \<notin> set c"

definition safe_path :: "path_bytes \<Rightarrow> bool" where
  "safe_path p \<longleftrightarrow> (\<exists>cs. (\<forall>c\<in>set cs. safe_component c) \<and> p = join_with (CHR ''/'') cs)"

lemma nul_in_split: "CHR 0x00 \<in> set p \<longleftrightarrow> (\<exists>c\<in>set (split_on (CHR ''/'') p). CHR 0x00 \<in> set c)"
  by (induction p) (auto split: list.splits)

lemma starts_with_slash: "starts_with ''/'' p \<Longrightarrow> [] \<in> set (split_on (CHR ''/'') p)"
  by (cases p) (auto simp: starts_with_def)

lemma validate_ok_iff:
  "validate_relative_path p = Inr () \<longleftrightarrow>
     p = [] \<or> (\<forall>c\<in>set (split_on (CHR ''/'') p). safe_component c)"
proof (cases "p = []")
  case False
  then show ?thesis
    using starts_with_slash [of p] nul_in_split [of p] split_on_pieces [of _ "CHR ''/''" p]
    by (auto simp: validate_relative_path_def list_ex_iff safe_component_def)
qed (simp add: validate_relative_path_def starts_with_def)

lemma validate_ok_safe: "validate_relative_path p = Inr () \<longleftrightarrow> safe_path p"
proof
  assume "validate_relative_path p = Inr ()"
  then consider "p = []" | "\<forall>c\<in>set (split_on (CHR ''/'') p). safe_component c"
    by (auto simp: validate_ok_iff)
  then show "safe_path p"
  proof cases
    case 1
    then show ?thesis unfolding safe_path_def by (intro exI [of _ "[]"]) simp
  next
    case 2
    then show ?thesis unfolding safe_path_def
      by (intro exI [of _ "split_on (CHR ''/'') p"]) (simp add: join_split)
  qed
next
  assume "safe_path p"
  then obtain cs where cs: "\<forall>c\<in>set cs. safe_component c" "p = join_with (CHR ''/'') cs"
    by (auto simp: safe_path_def)
  show "validate_relative_path p = Inr ()"
  proof (cases "cs = []")
    case False
    with cs have "split_on (CHR ''/'') p = cs" by (auto intro!: split_join simp: safe_component_def)
    with cs show ?thesis by (simp add: validate_ok_iff)
  qed (simp add: cs validate_ok_iff)
qed

lemma validate_error_or_ok: "validate_relative_path p = Inr () \<or> (\<exists>e. validate_relative_path p = Inl e)"
  by (cases "validate_relative_path p") auto

text \<open>Joining two accepted paths is always accepted and stays under the same root.\<close>

lemma registered_path_join_ok:
  assumes "safe_path (rp_relative self)" "safe_path relative"
  shows "\<exists>r. registered_path_join self relative = Inr r \<and> rp_root r = rp_root self \<and>
    safe_path (rp_relative r)"
proof -
  let ?s = "rp_relative self"
  let ?j = "?s @ (if ?s \<noteq> [] \<and> relative \<noteq> [] then ''/'' else []) @ relative"
  have "validate_relative_path ?j = Inr ()"
    using assms unfolding validate_ok_safe [symmetric] validate_ok_iff
    by (auto simp: split_on_append)
  with assms(2) show ?thesis
    by (auto simp: registered_path_join_def registered_path_new_def validate_ok_safe [symmetric])
qed

subsection \<open>The properties\<close>

text \<open>C33. A registered path stays below its root: the check accepts a path exactly when it is a
  sequence of components joined by slashes in which no component is empty, \<open>.\<close> or \<open>..\<close> and none
  contains a slash or a NUL byte.\<close>

theorem registered_path_accepts_safe:
  "(\<exists>r. registered_path_new root p = Inr r \<and> rp_root r = root \<and> rp_relative r = p) \<longleftrightarrow> safe_path p"
  by (cases "validate_relative_path p")
    (auto simp: registered_path_new_def validate_ok_safe [symmetric])

end
