(* ===== verification/File_Queue.thy ===== *)
theory File_Queue
  imports Queue_Interface Proto_Types
begin

section \<open>The queue of whole files\<close>

text \<open>
  \<open>FileOrder\<close> and \<open>FileQueue\<close> of \<open>src/src/sched.rs\<close>. Files wait in one heap per destination
  directory; only the heads of the heaps are in the globally ordered set \<open>heads\<close>. A small-file
  batch (\<open>take_small_group\<close>) drains one directory after another. Job indices are \<open>usize\<close>
  values; the tie-break reverses their 64 bits.
\<close>

subsection \<open>The order of equal-sized files\<close>

definition reverse_bits :: "nat \<Rightarrow> nat" where
  "reverse_bits n = horner_sum of_bool 2 (map (\<lambda>i. bit n (63 - i)) [0..<64])"

datatype file_order = FileOrder (order_bits: nat)

definition file_order_new :: "nat \<Rightarrow> file_order" where
  "file_order_new idx = FileOrder (reverse_bits idx)"

definition file_order_index :: "file_order \<Rightarrow> nat" where
  "file_order_index order = reverse_bits (order_bits order)"

instantiation file_order :: linorder
begin

definition less_eq_file_order :: "file_order \<Rightarrow> file_order \<Rightarrow> bool" where
  "less_eq_file_order x y \<longleftrightarrow> order_bits x \<le> order_bits y"

definition less_file_order :: "file_order \<Rightarrow> file_order \<Rightarrow> bool" where
  "less_file_order x y \<longleftrightarrow> order_bits x < order_bits y"

instance
  by standard (auto simp: less_eq_file_order_def less_file_order_def file_order.expand)

end

lemma bit_reverse_bits: "bit (reverse_bits n) i \<longleftrightarrow> i < 64 \<and> bit n (63 - i)"
  by (auto simp: reverse_bits_def bit_horner_sum_bit_iff)

lemma reverse_bits_less: "reverse_bits n < 2 ^ 64"
proof -
  have "horner_sum of_bool (2::nat) (map (\<lambda>i. bit n (63 - i)) [0..<64])
      < 2 ^ length (map (\<lambda>i. bit n (63 - i)) [0..<64])"
    by (rule horner_sum_of_bool_2_less)
  then show ?thesis by (simp add: reverse_bits_def)
qed

lemma bit_less_power: "n < 2 ^ k \<Longrightarrow> bit n i \<Longrightarrow> i < (k::nat)" for n :: nat
  by (metis bit_take_bit_iff take_bit_nat_eq_self)

lemma reverse_bits_twice: "n < 2 ^ 64 \<Longrightarrow> reverse_bits (reverse_bits n) = n"
  by (rule bit_eqI) (auto simp: bit_reverse_bits dest: bit_less_power [of n 64, simplified])

lemma file_order_index_new [simp]: "idx < 2 ^ 64 \<Longrightarrow> file_order_index (file_order_new idx) = idx"
  by (simp add: file_order_index_def file_order_new_def reverse_bits_twice)

subsection \<open>The queue and its operations\<close>

type_synonym file_item = "nat \<times> file_order reverse"

definition item_index :: "file_item \<Rightarrow> nat" where
  "item_index it = file_order_index (unreverse (snd it))"

definition file_item_of :: "nat \<Rightarrow> nat \<Rightarrow> file_item" where
  "file_item_of size' idx = (size', Reverse (file_order_new idx))"

lemma item_index_of [simp]: "idx < 2 ^ 64 \<Longrightarrow> item_index (file_item_of n idx) = idx"
  by (simp add: item_index_def file_item_of_def)

record file_queue =
  heads :: "(file_item \<times> nat) set"
  directories :: "path_bytes \<rightharpoonup> nat"
  groups :: "file_item list list"
  group_of :: "nat list"
  fq_count :: nat
  fq_bytes :: nat

definition fq_default :: file_queue where
  "fq_default = \<lparr>heads = {}, directories = Map.empty, groups = [], group_of = [],
     fq_count = 0, fq_bytes = 0\<rparr>"

definition fq_parent :: "path_bytes \<Rightarrow> path_bytes" where
  "fq_parent destination =
     take (case rposition (\<lambda>b. b = CHR ''/'') destination of None \<Rightarrow> 0 | Some e \<Rightarrow> e) destination"

definition fq_register :: "file_queue \<Rightarrow> nat \<Rightarrow> path_bytes \<Rightarrow> file_queue" where
  "fq_register q idx destination =
    (let parent = fq_parent destination;
         (grp, q1) =
           (case directories q parent of
              Some g \<Rightarrow> (g, q)
            | None \<Rightarrow> (length (groups q),
                q\<lparr>groups := groups q @ [[]],
                  directories := (directories q)(parent \<mapsto> length (groups q))\<rparr>));
         sized = vec_resize (group_of q1) (max (length (group_of q1)) (idx + 1)) 0
     in q1\<lparr>group_of := sized[idx := grp]\<rparr>)"

definition fq_push :: "file_queue \<Rightarrow> file_item \<Rightarrow> file_queue option" where
  "fq_push q item = do {
     grp \<leftarrow> vec_get (group_of q) (item_index item);
     heap \<leftarrow> vec_get (groups q) grp;
     let previous = heap_peek heap;
     let heap' = item # heap;
     head \<leftarrow> heap_peek heap';
     let heads' =
       (if previous \<noteq> Some head
        then insert (head, grp)
               (case previous of None \<Rightarrow> heads q | Some p \<Rightarrow> heads q - {(p, grp)})
        else heads q);
     Some (q\<lparr>groups := (groups q)[grp := heap'], heads := heads',
             fq_bytes := fq_bytes q + fst item, fq_count := fq_count q + 1\<rparr>)
   }"

definition fq_pop_group :: "file_queue \<Rightarrow> nat \<Rightarrow> (file_item option \<times> file_queue) option" where
  "fq_pop_group q grp = do {
     heap \<leftarrow> vec_get (groups q) grp;
     (case heap_pop heap of
        None \<Rightarrow> Some (None, q)
      | Some (item, heap') \<Rightarrow> do {
          let heads1 = heads q - {(item, grp)};
          let heads2 = (case heap_peek heap' of None \<Rightarrow> heads1 | Some h \<Rightarrow> insert (h, grp) heads1);
          bytes' \<leftarrow> usub (fq_bytes q) (fst item);
          count' \<leftarrow> usub (fq_count q) 1;
          Some (Some item, q\<lparr>groups := (groups q)[grp := heap'], heads := heads2,
                             fq_bytes := bytes', fq_count := count'\<rparr>) })
   }"

definition fq_pop :: "file_queue \<Rightarrow> (file_item option \<times> file_queue) option" where
  "fq_pop q = (case set_last (heads q) of
     None \<Rightarrow> Some (None, q)
   | Some (_, grp) \<Rightarrow> fq_pop_group q grp)"

definition fq_is_empty :: "file_queue \<Rightarrow> bool" where
  "fq_is_empty q \<longleftrightarrow> fq_count q = 0"

subsection \<open>The contents and the invariant\<close>

definition fq_items :: "file_queue \<Rightarrow> file_item multiset" where
  "fq_items q = sum_list (map mset (groups q))"

text \<open>
  \<open>fq_shape\<close> relates heads, heaps and directories; \<open>fq_inv\<close> adds the running totals, which
  a small-file batch updates only at its end.
\<close>

definition fq_shape :: "file_queue \<Rightarrow> bool" where
  "fq_shape q \<longleftrightarrow>
     heads q = {(h, g). g < length (groups q) \<and> heap_peek (groups q ! g) = Some h} \<and>
     (\<forall>i < length (group_of q). group_of q ! i < length (groups q)) \<and>
     (\<forall>g < length (groups q). \<forall>it \<in> set (groups q ! g).
        item_index it < length (group_of q) \<and> group_of q ! item_index it = g) \<and>
     (\<forall>d g. directories q d = Some g \<longrightarrow> g < length (groups q)) \<and>
     inj_on (directories q) (dom (directories q))"

definition fq_inv :: "file_queue \<Rightarrow> bool" where
  "fq_inv q \<longleftrightarrow> fq_shape q \<and> fq_count q = size (fq_items q) \<and>
     fq_bytes q = (\<Sum>it\<in>#fq_items q. fst it)"

lemma fq_shapeD:
  assumes "fq_shape q"
  shows "heads q = {(h, g). g < length (groups q) \<and> heap_peek (groups q ! g) = Some h}"
    "i < length (group_of q) \<Longrightarrow> group_of q ! i < length (groups q)"
    "g < length (groups q) \<Longrightarrow> it \<in> set (groups q ! g) \<Longrightarrow>
       item_index it < length (group_of q) \<and> group_of q ! item_index it = g"
    "directories q d = Some g \<Longrightarrow> g < length (groups q)"
    "inj_on (directories q) (dom (directories q))"
  using assms unfolding fq_shape_def by blast+

lemma finite_heads: "fq_shape q \<Longrightarrow> finite (heads q)"
proof -
  assume shape: "fq_shape q"
  have "heads q \<subseteq> (\<lambda>g. (the (heap_peek (groups q ! g)), g)) ` {..<length (groups q)}"
    unfolding fq_shapeD(1) [OF shape] by (auto simp: image_iff)
  then show ?thesis by (rule finite_subset) simp
qed

lemma fq_items_update:
  assumes "g < length (groups q)"
  shows "fq_items (q\<lparr>groups := (groups q)[g := h]\<rparr>) + mset (groups q ! g) = fq_items q + mset h"
proof -
  have "sum_list (map mset (xs[g := h])) + mset (xs ! g) = sum_list (map mset xs) + mset h"
    if "g < length xs" for xs
    using that
  proof (induction xs arbitrary: g)
    case (Cons x xs)
    then show ?case by (cases g) (auto simp: ac_simps)
  qed simp
  with assms show ?thesis by (simp add: fq_items_def)
qed

lemma fq_items_fields [simp]:
  "fq_items (q\<lparr>heads := a\<rparr>) = fq_items q" "fq_items (q\<lparr>fq_bytes := b\<rparr>) = fq_items q"
  "fq_items (q\<lparr>fq_count := c\<rparr>) = fq_items q" "fq_items (q\<lparr>group_of := d\<rparr>) = fq_items q"
  "fq_items (q\<lparr>directories := e\<rparr>) = fq_items q"
  by (simp_all add: fq_items_def)

lemma fq_shape_totals [simp]:
  "fq_shape (q\<lparr>fq_bytes := b\<rparr>) = fq_shape q" "fq_shape (q\<lparr>fq_count := c\<rparr>) = fq_shape q"
  by (simp_all add: fq_shape_def)

text \<open>
  Replacing the heap of one directory, with the global entry of its head adjusted, keeps the
  shape: the one fact behind push, pop and the draining of a directory.
\<close>

lemma fq_shape_replace:
  assumes shape: "fq_shape q" and g: "g < length (groups q)"
    and items: "\<And>it. it \<in> set h \<Longrightarrow> item_index it < length (group_of q) \<and> group_of q ! item_index it = g"
    and new: "hd' = heads q - {(x, g) | x. True} \<union> {(x, g) | x. heap_peek h = Some x}"
  shows "fq_shape (q\<lparr>groups := (groups q)[g := h], heads := hd'\<rparr>)"
  using fq_shapeD [OF shape] g items
  unfolding fq_shape_def new
  by (auto simp: nth_list_update split: if_splits)

lemma heads_minus:
  assumes "fq_shape q" "g < length (groups q)"
  shows "heads q - {(x, g) | x. True} =
    (case heap_peek (groups q ! g) of None \<Rightarrow> heads q | Some p \<Rightarrow> heads q - {(p, g)})"
  using assms(2) by (auto simp: fq_shapeD(1) [OF assms(1)] split: option.splits)

lemma fq_default_inv [simp]: "fq_inv fq_default"
  by (simp add: fq_inv_def fq_shape_def fq_default_def fq_items_def)

lemma fq_items_default [simp]: "fq_items fq_default = {#}"
  by (simp add: fq_items_def fq_default_def)

lemma fq_push_ok:
  assumes inv: "fq_inv q" and idx: "item_index item < length (group_of q)"
  shows "\<exists>q'. fq_push q item = Some q' \<and> fq_inv q' \<and> fq_items q' = add_mset item (fq_items q) \<and>
    group_of q' = group_of q \<and> directories q' = directories q"
proof -
  have shape: "fq_shape q" using inv by (simp add: fq_inv_def)
  define g where "g = group_of q ! item_index item"
  have g: "g < length (groups q)" using fq_shapeD(2) [OF shape idx] by (simp add: g_def)
  define heap where "heap = groups q ! g"
  obtain head where head: "heap_peek (item # heap) = Some head"
    by (cases "heap_peek (item # heap)") auto
  define hd' where "hd' = (if heap_peek heap \<noteq> Some head
      then insert (head, g) (case heap_peek heap of None \<Rightarrow> heads q | Some p \<Rightarrow> heads q - {(p, g)})
      else heads q)"
  define q' where "q' = q\<lparr>groups := (groups q)[g := item # heap], heads := hd',
    fq_bytes := fq_bytes q + fst item, fq_count := fq_count q + 1\<rparr>"
  have run: "fq_push q item = Some q'"
    using idx g head by (simp add: fq_push_def Let_def vec_get_def q'_def hd'_def flip: g_def heap_def)
  have "hd' = heads q - {(x, g) | x. True} \<union> {(x, g) | x. heap_peek (item # heap) = Some x}"
    unfolding heads_minus [OF shape g] hd'_def head
    by (auto simp: heap_def fq_shapeD(1) [OF shape] g split: option.splits)
  then have "fq_shape (q\<lparr>groups := (groups q)[g := item # heap], heads := hd'\<rparr>)"
    using fq_shapeD(3) [OF shape g] idx
    by (intro fq_shape_replace [OF shape g]) (auto simp: heap_def g_def)
  then have "fq_shape q'" by (simp add: q'_def)
  moreover have items: "fq_items q' = add_mset item (fq_items q)"
    using fq_items_update [OF g, of "item # heap"] by (simp add: q'_def heap_def)
  moreover have "fq_count q' = fq_count q + 1" "fq_bytes q' = fq_bytes q + fst item"
    by (simp_all add: q'_def)
  ultimately have "fq_inv q'" using inv by (simp add: fq_inv_def)
  with run items show ?thesis by (auto simp: q'_def)
qed

lemma fq_pop_group_ok:
  assumes inv: "fq_inv q" and g: "g < length (groups q)" and item: "heap_peek (groups q ! g) = Some item"
  shows "\<exists>q'. fq_pop_group q g = Some (Some item, q') \<and> fq_inv q' \<and>
    fq_items q = add_mset item (fq_items q') \<and> group_of q' = group_of q \<and> directories q' = directories q"
proof -
  have shape: "fq_shape q" using inv by (simp add: fq_inv_def)
  define heap where "heap = groups q ! g"
  define hd' where "hd' = (case heap_peek (remove1 item heap) of
      None \<Rightarrow> heads q - {(item, g)} | Some h \<Rightarrow> insert (h, g) (heads q - {(item, g)}))"
  have mem: "item \<in> set heap" using item by (simp add: heap_def heap_peek_eq_Some)
  obtain rest where rest: "mset heap = add_mset item rest"
    using mem by (metis mset_add set_mset_mset)
  have "fq_items (q\<lparr>groups := (groups q)[g := remove1 item heap]\<rparr>) + add_mset item rest =
      fq_items q + rest"
    using fq_items_update [OF g, of "remove1 item heap"] by (simp add: rest flip: heap_def)
  then have items:
    "fq_items q = add_mset item (fq_items (q\<lparr>groups := (groups q)[g := remove1 item heap]\<rparr>))"
    by simp
  define q' where "q' = q\<lparr>groups := (groups q)[g := remove1 item heap], heads := hd',
    fq_bytes := fq_bytes q - fst item, fq_count := fq_count q - 1\<rparr>"
  have bytes: "fst item \<le> fq_bytes q" "1 \<le> fq_count q"
    using inv items by (simp_all add: fq_inv_def)
  have run: "fq_pop_group q g = Some (Some item, q')"
    using g item bytes
    by (simp add: fq_pop_group_def heap_pop_def vec_get_def usub_le Let_def q'_def hd'_def
        flip: heap_def)
  have "hd' = heads q - {(x, g) | x. True} \<union> {(x, g) | x. heap_peek (remove1 item heap) = Some x}"
    unfolding heads_minus [OF shape g] hd'_def using item by (auto split: option.splits)
  then have "fq_shape (q\<lparr>groups := (groups q)[g := remove1 item heap], heads := hd'\<rparr>)"
    using fq_shapeD(3) [OF shape g]
    by (intro fq_shape_replace [OF shape g]) (auto simp: heap_def dest: notin_set_remove1)
  then have "fq_shape q'" by (simp add: q'_def)
  moreover have items': "fq_items q = add_mset item (fq_items q')"
    using items by (simp add: q'_def)
  moreover have "fq_count q' = fq_count q - 1" "fq_bytes q' = fq_bytes q - fst item"
    by (simp_all add: q'_def)
  ultimately have "fq_inv q'" using inv by (simp add: fq_inv_def)
  with run items' show ?thesis by (auto simp: q'_def)
qed

lemma fq_items_mem: "it \<in># fq_items q \<longleftrightarrow> (\<exists>g < length (groups q). it \<in> set (groups q ! g))"
proof -
  have "it \<in># sum_list (map mset xs) \<longleftrightarrow> (\<exists>g < length xs. it \<in> set (xs ! g))" for xs :: "file_item list list"
    by (induction xs) (auto simp: less_Suc_eq_0_disj)
  then show ?thesis by (simp add: fq_items_def)
qed

lemma heads_ex: "fq_shape q \<Longrightarrow> it \<in># fq_items q \<Longrightarrow> \<exists>h g. (h, g) \<in> heads q \<and> it \<le> h"
proof -
  assume shape: "fq_shape q" and "it \<in># fq_items q"
  then obtain g where g: "g < length (groups q)" "it \<in> set (groups q ! g)"
    by (auto simp: fq_items_mem)
  then obtain h where "heap_peek (groups q ! g) = Some h"
    by (cases "heap_peek (groups q ! g)") auto
  with g have "(h, g) \<in> heads q" "it \<le> h"
    by (simp_all add: fq_shapeD(1) [OF shape] heap_peek_eq_Some)
  then show ?thesis by blast
qed

lemma heads_mem:
  assumes "fq_shape q" "(h, g) \<in> heads q"
  shows "g < length (groups q)" "heap_peek (groups q ! g) = Some h" "h \<in># fq_items q"
  using assms(2) unfolding fq_shapeD(1) [OF assms(1)] by (auto simp: heap_peek_eq_Some fq_items_mem)

lemma heads_empty_iff: "fq_shape q \<Longrightarrow> heads q = {} \<longleftrightarrow> fq_items q = {#}"
  by (metis heads_ex heads_mem(3) empty_iff ex_in_conv multiset_nonemptyE set_mset_empty surj_pair)

lemma fq_pop_none: "fq_inv q \<Longrightarrow> fq_items q = {#} \<Longrightarrow> fq_pop q = Some (None, q)"
  using heads_empty_iff [of q] by (simp add: fq_pop_def fq_inv_def)

lemma fq_pop_some:
  assumes inv: "fq_inv q" and ne: "fq_items q \<noteq> {#}"
  shows "\<exists>it q'. fq_pop q = Some (Some it, q') \<and> fq_inv q' \<and> fq_items q = add_mset it (fq_items q') \<and>
    (\<forall>y\<in>#fq_items q. y \<le> it) \<and> group_of q' = group_of q \<and> directories q' = directories q"
proof -
  have shape: "fq_shape q" using inv by (simp add: fq_inv_def)
  obtain it g where top: "set_last (heads q) = Some (it, g)"
    using ne heads_empty_iff [OF shape] by (cases "set_last (heads q)") auto
  then have max: "(it, g) \<in> heads q" "\<And>h g'. (h, g') \<in> heads q \<Longrightarrow> (h, g') \<le> (it, g)"
    using finite_heads [OF shape] by (auto simp only: set_last_eq_Some)
  note mem = heads_mem [OF shape max(1)]
  obtain q' where q': "fq_pop_group q g = Some (Some it, q')" "fq_inv q'"
      "fq_items q = add_mset it (fq_items q')" "group_of q' = group_of q" "directories q' = directories q"
    using fq_pop_group_ok [OF inv mem(1,2)] by blast
  have "y \<le> it" if "y \<in># fq_items q" for y
  proof -
    from heads_ex [OF shape that] obtain h g' where "(h, g') \<in> heads q" "y \<le> h" by blast
    then have "h \<le> it" using max(2) [of h g'] less_eq_prod_simp [of h g' it g] by auto
    with \<open>y \<le> h\<close> show ?thesis by (rule order_trans)
  qed
  with q' top show ?thesis by (auto simp: fq_pop_def)
qed

lemma fq_is_empty_iff: "fq_inv q \<Longrightarrow> fq_is_empty q \<longleftrightarrow> fq_items q = {#}"
  by (simp add: fq_is_empty_def fq_inv_def)

definition fq_accepts :: "file_queue \<Rightarrow> file_item \<Rightarrow> bool" where
  "fq_accepts q item \<longleftrightarrow> item_index item < length (group_of q)"

interpretation fq: largest_first fq_default fq_push fq_pop fq_items "\<lambda>it. it" fq_accepts fq_inv
proof (unfold_locales, goal_cases)
  case (3 q x)
  then show ?case using fq_push_ok [of q x] by (auto simp: fq_accepts_def)
next
  case (5 q)
  then show ?case using fq_pop_some [of q] by fastforce
qed (simp_all add: fq_pop_none)

text \<open>Registration makes the file's directory known and leaves the contents alone.\<close>

lemma fq_register_ok:
  assumes inv: "fq_inv q" and new: "\<And>it. it \<in># fq_items q \<Longrightarrow> item_index it \<noteq> idx"
  shows "fq_inv (fq_register q idx dest)" "fq_items (fq_register q idx dest) = fq_items q"
    "idx < length (group_of (fq_register q idx dest))"
    "directories (fq_register q idx dest) (fq_parent dest) = Some (group_of (fq_register q idx dest) ! idx)"
proof -
  have shape: "fq_shape q" using inv by (simp add: fq_inv_def)
  note D = fq_shapeD [OF shape]
  define g where "g = (case directories q (fq_parent dest) of Some g \<Rightarrow> g | None \<Rightarrow> length (groups q))"
  define gs where "gs = (case directories q (fq_parent dest) of Some g \<Rightarrow> groups q | None \<Rightarrow> groups q @ [[]])"
  define ds where "ds = (directories q)(fq_parent dest \<mapsto> g)"
  define sized where "sized = vec_resize (group_of q) (max (length (group_of q)) (idx + 1)) 0"
  have eq: "fq_register q idx dest = q\<lparr>groups := gs, directories := ds, group_of := sized[idx := g]\<rparr>"
    by (auto simp: fq_register_def Let_def g_def gs_def ds_def sized_def fun_upd_idem
        split: option.splits)
  have len: "idx < length sized" "length (group_of q) \<le> length sized" by (simp_all add: sized_def)
  have g: "g < length gs" "length (groups q) \<le> length gs"
    using D(4) by (auto simp: g_def gs_def split: option.splits)
  have gs_nth: "gs ! i = (if i < length (groups q) then groups q ! i else [])" if "i < length gs" for i
    using that by (auto simp: gs_def nth_append split: option.splits if_splits)
  have sized_nth: "sized ! i = (if i < length (group_of q) then group_of q ! i else 0)" if "i < length sized" for i
    using that by (simp add: sized_def vec_resize_nth)
  have fresh: "directories q (fq_parent dest) = None \<Longrightarrow> directories q d \<noteq> Some g" for d
    using D(4) [of d g] by (auto simp: g_def)
  let ?q = "q\<lparr>groups := gs, directories := ds, group_of := sized[idx := g]\<rparr>"
  have shape': "fq_shape ?q"
    unfolding fq_shape_def
  proof (intro conjI allI impI ballI)
    show "heads ?q = {(h, g'). g' < length (groups ?q) \<and> heap_peek (groups ?q ! g') = Some h}"
      using g(2) by (auto simp: D(1) gs_nth split: if_splits)
  next
    fix i assume "i < length (group_of ?q)"
    then show "group_of ?q ! i < length (groups ?q)"
      using D(2) [of i] g by (cases "i = idx") (auto simp: sized_nth)
  next
    fix g' it assume "g' < length (groups ?q)" and "it \<in> set (groups ?q ! g')"
    then have it: "g' < length (groups q)" "it \<in> set (groups q ! g')"
      by (auto simp: gs_nth split: if_splits)
    then have "item_index it \<noteq> idx" by (intro new) (auto simp: fq_items_mem)
    with D(3) [OF it] len
    show "item_index it < length (group_of ?q)" and "group_of ?q ! item_index it = g'"
      by (auto simp: sized_nth)
  next
    fix d g' assume "directories ?q d = Some g'"
    then show "g' < length (groups ?q)"
      using D(4) [of d g'] g by (auto simp: ds_def split: if_splits)
  next
    show "inj_on (directories ?q) (dom (directories ?q))"
      using D(5) fresh
      by (cases "directories q (fq_parent dest)")
        (auto simp: ds_def g_def inj_on_def dom_def fun_upd_idem)
  qed
  then have "fq_shape (fq_register q idx dest)" by (simp only: eq)
  moreover show items: "fq_items (fq_register q idx dest) = fq_items q"
    by (simp add: eq fq_items_def gs_def split: option.splits)
  ultimately show "fq_inv (fq_register q idx dest)"
    using inv by (simp add: fq_inv_def) (simp add: eq)
  show "idx < length (group_of (fq_register q idx dest))"
    and "directories (fq_register q idx dest) (fq_parent dest) = Some (group_of (fq_register q idx dest) ! idx)"
    using len by (simp_all add: eq ds_def)
qed

subsection \<open>Taking a batch of small files\<close>

text \<open>
  The two nested loops of \<open>Sched::take_small_group\<close>. The inner loop drains one directory; the
  outer loop moves on to the directory of the greatest head once the current one is empty, so
  that a tree of singleton directories still gives whole batches. \<open>single\<close> is the test-only
  mode that reconsiders every head (\<open>first = None\<close>).
\<close>

definition over_limit :: "nat \<Rightarrow> nat \<Rightarrow> nat \<Rightarrow> nat \<Rightarrow> bool option" where
  "over_limit size' max_size max_bytes bytes =
     (if size' > max_size then Some True
      else do { left \<leftarrow> usub max_bytes bytes; Some (size' > left) })"

function fq_take_heap ::
  "nat \<Rightarrow> nat \<Rightarrow> nat \<Rightarrow> bool \<Rightarrow> file_item list \<Rightarrow> nat list \<Rightarrow> nat \<Rightarrow>
     (file_item list \<times> nat list \<times> nat) option" where
  "fq_take_heap max_size max_n max_bytes single heap out bytes =
    (if \<not> length out < max_n then Some (heap, out, bytes)
     else case heap_pop heap of
       None \<Rightarrow> Some (heap, out, bytes)
     | Some (item, heap') \<Rightarrow>
         (case over_limit (fst item) max_size max_bytes bytes of
            None \<Rightarrow> None
          | Some True \<Rightarrow> Some (heap, out, bytes)
          | Some False \<Rightarrow>
              (if single then Some (heap', out @ [item_index item], bytes + fst item)
               else fq_take_heap max_size max_n max_bytes single heap'
                      (out @ [item_index item]) (bytes + fst item))))"
  by pat_completeness auto
termination
  by (relation "measure (\<lambda>(_, _, _, _, heap, _, _). length heap)")
    (auto dest: heap_popD(3))

declare fq_take_heap.simps [simp del]

definition fq_top_group :: "file_queue \<Rightarrow> nat option" where
  "fq_top_group q = map_option snd (set_last (heads q))"

text \<open>What one pass of the inner loop did: a list of items left the heap, within the limits.\<close>

definition took :: "nat \<Rightarrow> nat \<Rightarrow> file_item list \<Rightarrow> nat list \<Rightarrow> nat \<Rightarrow> nat list \<Rightarrow> nat \<Rightarrow> bool" where
  "took max_size max_bytes taken out bytes out' bytes' \<longleftrightarrow>
     out' = out @ map item_index taken \<and> bytes' = bytes + sum_list (map fst taken) \<and>
     bytes' \<le> max_bytes \<and> (\<forall>it\<in>set taken. fst it \<le> max_size)"

lemma over_limit_eq: "bytes \<le> max_bytes \<Longrightarrow>
    over_limit n max_size max_bytes bytes = Some (n > max_size \<or> bytes + n > max_bytes)"
  by (auto simp: over_limit_def usub_le)

lemma took_Nil: "bytes \<le> max_bytes \<Longrightarrow> took max_size max_bytes [] out bytes out bytes"
  by (simp add: took_def)

lemma took_append:
  assumes "took ms mb t1 out bytes out1 bytes1" "took ms mb t2 out1 bytes1 out2 bytes2"
  shows "took ms mb (t1 @ t2) out bytes out2 bytes2"
  using assms by (auto simp: took_def)

lemma fq_take_heap_ok:
  assumes "bytes \<le> max_bytes"
  shows "\<exists>heap' out' bytes' taken.
    fq_take_heap max_size max_n max_bytes single heap out bytes = Some (heap', out', bytes') \<and>
    mset heap = mset taken + mset heap' \<and> took max_size max_bytes taken out bytes out' bytes' \<and>
    length out' \<le> max (length out) max_n \<and>
    (length out < max_n \<longrightarrow> (\<forall>it. heap_peek heap = Some it \<longrightarrow> fst it \<le> max_size \<longrightarrow>
       bytes + fst it \<le> max_bytes \<longrightarrow> taken \<noteq> []))"
  using assms
proof (induction max_size max_n max_bytes single heap out bytes rule: fq_take_heap.induct)
  case (1 max_size max_n max_bytes single heap out bytes)
  note simps = fq_take_heap.simps [of max_size max_n max_bytes single heap out bytes]
  show ?case
  proof (cases "length out < max_n \<and> heap \<noteq> []")
    case False
    then show ?thesis
      using "1.prems" by (auto simp: simps heap_pop_def intro!: took_Nil)
  next
    case True
    then obtain item rest where pop: "heap_pop heap = Some (item, rest)"
      by (cases "heap_pop heap") auto
    note D = heap_popD [OF pop] and lim = over_limit_eq [OF "1.prems", of "fst item" max_size]
    show ?thesis
    proof (cases "fst item > max_size \<or> bytes + fst item > max_bytes")
      case over: True
      with True pop D(1) lim "1.prems" show ?thesis
        by (auto simp: simps intro!: took_Nil)
    next
      case within: False
      then have took1: "took max_size max_bytes [item] out bytes (out @ [item_index item]) (bytes + fst item)"
        by (simp add: took_def)
      show ?thesis
      proof (cases single)
        case one: True
        then have "fq_take_heap max_size max_n max_bytes single heap out bytes =
            Some (rest, out @ [item_index item], bytes + fst item)"
          using True pop lim within by (subst simps) simp
        moreover have "mset heap = mset [item] + mset rest" using D(2) by simp
        moreover have "length (out @ [item_index item]) \<le> max (length out) max_n" using True by simp
        ultimately show ?thesis using took1 by blast
      next
        case multi: False
        then have step: "fq_take_heap max_size max_n max_bytes single heap out bytes =
            fq_take_heap max_size max_n max_bytes single rest (out @ [item_index item]) (bytes + fst item)"
          using True pop lim within by (subst simps) simp
        from "1.IH" [of "(item, rest)" item rest False] True pop lim within multi
        obtain heap' out' bytes' taken where rec:
          "fq_take_heap max_size max_n max_bytes single rest
             (out @ [item_index item]) (bytes + fst item) = Some (heap', out', bytes')"
          "mset rest = mset taken + mset heap'"
          "took max_size max_bytes taken (out @ [item_index item]) (bytes + fst item) out' bytes'"
          "length out' \<le> max (length (out @ [item_index item])) max_n"
          by auto
        have "mset heap = mset ([item] @ taken) + mset heap'"
          using D(2) rec(2) by simp
        moreover have "took max_size max_bytes ([item] @ taken) out bytes out' bytes'"
          by (rule took_append [OF took1 rec(3)])
        moreover have "length out' \<le> max (length out) max_n" using rec(4) True by simp
        ultimately show ?thesis using step rec(1) by (metis append_is_Nil_conv not_Cons_self2)
      qed
    qed
  qed
qed

text \<open>The state of the queue between two directories of a batch.\<close>

definition fq_put_back :: "file_queue \<Rightarrow> nat \<Rightarrow> file_item \<Rightarrow> file_item list \<Rightarrow> file_queue" where
  "fq_put_back q selected head heap' =
     (let heads1 = heads q - {(head, selected)}
      in q\<lparr>heads := (case heap_peek heap' of None \<Rightarrow> heads1 | Some h \<Rightarrow> insert (h, selected) heads1),
           groups := (groups q)[selected := heap']\<rparr>)"

definition fq_select :: "file_queue \<Rightarrow> nat option \<Rightarrow> nat option option" where
  "fq_select q grp =
     (case grp of
        None \<Rightarrow> Some None
      | Some g \<Rightarrow> do { h \<leftarrow> vec_get (groups q) g; Some (if h = [] then fq_top_group q else Some g) })"

lemma fq_take_heap_shrinks:
  assumes "fq_take_heap max_size max_n max_bytes single heap out bytes = Some (heap', out', bytes')"
    and "length out < max_n" "heap_peek heap = Some head"
    and "over_limit (fst head) max_size max_bytes bytes = Some False"
  shows "length heap' < length heap"
proof -
  have "bytes \<le> max_bytes" using assms(4)
    by (auto simp: over_limit_def usub_def split: if_splits)
  with assms fq_take_heap_ok [of bytes max_bytes max_size max_n single heap out]
  obtain taken where "mset heap = mset taken + mset heap'" "taken \<noteq> []"
    by (auto simp: over_limit_eq)
  then have "size (mset heap') < size (mset heap)" by simp
  then show ?thesis by simp
qed

function fq_take_small ::
  "nat option \<Rightarrow> nat \<Rightarrow> nat \<Rightarrow> nat \<Rightarrow> bool \<Rightarrow> file_queue \<Rightarrow> nat list \<Rightarrow> nat \<Rightarrow>
     (file_queue \<times> nat list \<times> nat) option" where
  "fq_take_small grp max_size max_n max_bytes single q out bytes =
    (if \<not> length out < max_n then Some (q, out, bytes)
     else case fq_select q grp of
       None \<Rightarrow> None
     | Some grp' \<Rightarrow>
        (case (case grp' of Some g \<Rightarrow> Some g | None \<Rightarrow> fq_top_group q) of
           None \<Rightarrow> Some (q, out, bytes)
         | Some selected \<Rightarrow>
            (case vec_get (groups q) selected of
               None \<Rightarrow> None
             | Some heap \<Rightarrow>
                (case heap_peek heap of
                   None \<Rightarrow> Some (q, out, bytes)
                 | Some head \<Rightarrow>
                    (case over_limit (fst head) max_size max_bytes bytes of
                       None \<Rightarrow> None
                     | Some True \<Rightarrow> Some (q, out, bytes)
                     | Some False \<Rightarrow>
                        (case fq_take_heap max_size max_n max_bytes single heap out bytes of
                           None \<Rightarrow> None
                         | Some (heap', out', bytes') \<Rightarrow>
                             fq_take_small grp' max_size max_n max_bytes single
                               (fq_put_back q selected head heap') out' bytes'))))))"
  by pat_completeness auto

lemma sum_list_update_less:
  "i < length xs \<Longrightarrow> f y < f (xs ! i) \<Longrightarrow> sum_list (map f (xs[i := y])) < sum_list (map f xs)"
  for f :: "'a \<Rightarrow> nat"
proof (induction xs arbitrary: i)
  case (Cons x xs)
  then show ?case by (cases i) auto
qed simp

termination fq_take_small
proof (relation "measure (\<lambda>(_, _, _, _, _, q, _, _). sum_list (map length (groups q)))", goal_cases)
  case (2 grp max_size max_n max_bytes single q out bytes grp' selected heap head b t heap' u out' bytes')
  then have "length heap' < length (groups q ! selected)"
    using fq_take_heap_shrinks [of max_size max_n max_bytes single heap out bytes heap' out' bytes' head]
    by simp
  with 2 show ?case
    by (auto simp: fq_put_back_def Let_def intro: sum_list_update_less)
qed simp

declare fq_take_small.simps [simp del]

text \<open>The whole of \<open>take_small_group\<close> on the queue: the loop, then the running totals.\<close>

definition fq_take_batch ::
  "file_queue \<Rightarrow> nat option \<Rightarrow> nat \<Rightarrow> nat \<Rightarrow> nat \<Rightarrow> (nat list \<times> file_queue) option" where
  "fq_take_batch q first max_size max_n max_bytes = do {
     grp \<leftarrow> (case first of
        None \<Rightarrow> Some None
      | Some idx \<Rightarrow> map_option Some (vec_get (group_of q) idx));
     (q', out, bytes) \<leftarrow> fq_take_small grp max_size max_n max_bytes (first = None) q [] 0;
     total \<leftarrow> usub (fq_bytes q') bytes;
     count \<leftarrow> usub (fq_count q') (length out);
     Some (out, q'\<lparr>fq_bytes := total, fq_count := count\<rparr>) }"

definition batch_full :: "file_queue \<Rightarrow> nat \<Rightarrow> nat \<Rightarrow> nat \<Rightarrow> nat list \<Rightarrow> nat \<Rightarrow> bool" where
  "batch_full q max_size max_n max_bytes out bytes \<longleftrightarrow>
     max_n \<le> length out \<or> fq_items q = {#} \<or>
     (\<exists>it\<in>#fq_items q. fst it > max_size \<or> bytes + fst it > max_bytes)"

lemma fq_put_back_ok:
  assumes shape: "fq_shape q" and g: "g < length (groups q)"
    and head: "heap_peek (groups q ! g) = Some head"
    and heap': "mset (groups q ! g) = mset taken + mset heap'"
  shows "fq_shape (fq_put_back q g head heap')"
    "fq_items q = mset taken + fq_items (fq_put_back q g head heap')"
    "length (groups (fq_put_back q g head heap')) = length (groups q)"
    "group_of (fq_put_back q g head heap') = group_of q"
    "directories (fq_put_back q g head heap') = directories q"
    "fq_count (fq_put_back q g head heap') = fq_count q"
    "fq_bytes (fq_put_back q g head heap') = fq_bytes q"
proof -
  define hd' where "hd' = (case heap_peek heap' of
      None \<Rightarrow> heads q - {(head, g)} | Some h \<Rightarrow> insert (h, g) (heads q - {(head, g)}))"
  have eq: "fq_put_back q g head heap' = q\<lparr>groups := (groups q)[g := heap'], heads := hd'\<rparr>"
    by (simp add: fq_put_back_def Let_def hd'_def)
  have sub: "set heap' \<subseteq> set (groups q ! g)"
    by (metis heap' le_iff_add set_mset_mono set_mset_mset subset_mset.le_add_same_cancel2 subset_mset.zero_le)
  have "hd' = heads q - {(x, g) | x. True} \<union> {(x, g) | x. heap_peek heap' = Some x}"
    unfolding heads_minus [OF shape g] hd'_def head by (auto split: option.splits)
  then show "fq_shape (fq_put_back q g head heap')"
    unfolding eq using fq_shapeD(3) [OF shape g] sub
    by (intro fq_shape_replace [OF shape g]) auto
  have "fq_items (q\<lparr>groups := (groups q)[g := heap']\<rparr>) + (mset taken + mset heap') = fq_items q + mset heap'"
    using fq_items_update [OF g, of heap'] by (simp add: heap')
  then show "fq_items q = mset taken + fq_items (fq_put_back q g head heap')"
    by (simp add: eq ac_simps)
qed (simp_all add: fq_put_back_def Let_def)

lemma fq_top_groupD:
  assumes "fq_shape q" "fq_top_group q = Some g"
  shows "g < length (groups q)" "groups q ! g \<noteq> []"
proof -
  obtain h where "(h, g) \<in> heads q"
    using assms finite_heads [OF assms(1)] set_last_SomeD by (fastforce simp: fq_top_group_def)
  then show "g < length (groups q)" "groups q ! g \<noteq> []"
    using heads_mem [OF assms(1), of h g] by (auto simp: heap_peek_def)
qed

text \<open>The result of the outer loop, for the induction over it.\<close>

definition batch_ok ::
  "file_queue \<Rightarrow> nat \<Rightarrow> nat \<Rightarrow> nat \<Rightarrow> nat list \<Rightarrow> nat \<Rightarrow> (file_queue \<times> nat list \<times> nat) option \<Rightarrow> bool" where
  "batch_ok q max_size max_n max_bytes out bytes r \<longleftrightarrow>
     (\<exists>q' out' bytes' taken. r = Some (q', out', bytes') \<and> fq_shape q' \<and>
        fq_items q = mset taken + fq_items q' \<and> took max_size max_bytes taken out bytes out' bytes' \<and>
        length out' \<le> max (length out) max_n \<and> batch_full q' max_size max_n max_bytes out' bytes' \<and>
        group_of q' = group_of q \<and> directories q' = directories q \<and>
        fq_count q' = fq_count q \<and> fq_bytes q' = fq_bytes q)"

lemma batch_ok_stop:
  assumes "fq_shape q" "bytes \<le> max_bytes" "batch_full q max_size max_n max_bytes out bytes"
  shows "batch_ok q max_size max_n max_bytes out bytes (Some (q, out, bytes))"
  using assms took_Nil [OF assms(2), of max_size out] unfolding batch_ok_def by force

lemma batch_ok_step:
  assumes shape: "fq_shape q" "g < length (groups q)" "heap_peek (groups q ! g) = Some head"
      "mset (groups q ! g) = mset taken + mset heap'"
    and took: "took max_size max_bytes taken out bytes out' bytes'" "length out' \<le> max (length out) max_n"
    and rec: "batch_ok (fq_put_back q g head heap') max_size max_n max_bytes out' bytes' r"
  shows "batch_ok q max_size max_n max_bytes out bytes r"
proof -
  note put = fq_put_back_ok [OF shape]
  from rec obtain q'' out'' bytes'' taken' where r: "r = Some (q'', out'', bytes'')" "fq_shape q''"
      "fq_items (fq_put_back q g head heap') = mset taken' + fq_items q''"
      "took max_size max_bytes taken' out' bytes' out'' bytes''" "length out'' \<le> max (length out') max_n"
      "batch_full q'' max_size max_n max_bytes out'' bytes''" "group_of q'' = group_of q"
      "directories q'' = directories q" "fq_count q'' = fq_count q" "fq_bytes q'' = fq_bytes q"
    by (auto simp: batch_ok_def put)
  have "fq_items q = mset (taken @ taken') + fq_items q''"
    using put(2) r(3) by simp
  moreover have "length out'' \<le> max (length out) max_n" using r(5) took(2) by simp
  ultimately show ?thesis
    unfolding batch_ok_def using r took_append [OF took(1) r(4)] by blast
qed

lemma fq_select_ok:
  assumes "fq_shape q" "\<And>g. grp = Some g \<Longrightarrow> g < length (groups q)"
  shows "\<exists>grp'. fq_select q grp = Some grp' \<and> (\<forall>g. grp' = Some g \<longrightarrow> g < length (groups q)) \<and>
    (case (case grp' of Some g \<Rightarrow> Some g | None \<Rightarrow> fq_top_group q) of
       Some g \<Rightarrow> g < length (groups q) \<and> groups q ! g \<noteq> []
     | None \<Rightarrow> fq_items q = {#})"
proof -
  note top = fq_top_groupD [OF assms(1)]
  have none: "fq_top_group q = None \<Longrightarrow> fq_items q = {#}"
    using heads_empty_iff [OF assms(1)] by (simp add: fq_top_group_def)
  show ?thesis
  proof (cases grp)
    case None
    then show ?thesis using top none by (auto simp: fq_select_def split: option.splits)
  next
    case (Some g)
    with assms(2) have g: "g < length (groups q)" by simp
    then show ?thesis
      using Some top none by (auto simp: fq_select_def vec_get_def split: option.splits)
  qed
qed

lemma fq_take_small_ok:
  assumes "fq_shape q" "bytes \<le> max_bytes" "\<And>g. grp = Some g \<Longrightarrow> g < length (groups q)"
  shows "batch_ok q max_size max_n max_bytes out bytes
    (fq_take_small grp max_size max_n max_bytes single q out bytes)"
  using assms
proof (induction grp max_size max_n max_bytes single q out bytes rule: fq_take_small.induct)
  case (1 grp max_size max_n max_bytes single q out bytes)
  note simps = fq_take_small.simps [of grp max_size max_n max_bytes single q out bytes]
    and stop = batch_ok_stop [OF "1.prems"(1,2)]
  show ?case
  proof (cases "length out < max_n")
    case False
    then show ?thesis by (subst simps) (simp add: stop batch_full_def)
  next
    case more: True
    obtain grp' where sel: "fq_select q grp = Some grp'" "\<And>g. grp' = Some g \<Longrightarrow> g < length (groups q)"
      "case (case grp' of Some g \<Rightarrow> Some g | None \<Rightarrow> fq_top_group q) of
         Some g \<Rightarrow> g < length (groups q) \<and> groups q ! g \<noteq> [] | None \<Rightarrow> fq_items q = {#}"
      using fq_select_ok [OF "1.prems"(1,3)] by blast
    show ?thesis
    proof (cases "case grp' of Some g \<Rightarrow> Some g | None \<Rightarrow> fq_top_group q")
      case None
      then have "fq_items q = {#}" using sel(3) by simp
      with None show ?thesis using more sel(1)
        by (subst simps) (simp add: stop batch_full_def)
    next
      case (Some selected)
      with sel(3) have g: "selected < length (groups q)" "groups q ! selected \<noteq> []" by simp_all
      then obtain head where head: "heap_peek (groups q ! selected) = Some head"
        by (cases "heap_peek (groups q ! selected)") auto
      then have mem: "head \<in># fq_items q" using g by (auto simp: fq_items_mem heap_peek_eq_Some)
      note lim = over_limit_eq [OF "1.prems"(2), of "fst head" max_size]
      show ?thesis
      proof (cases "fst head > max_size \<or> bytes + fst head > max_bytes")
        case True
        with mem have "batch_full q max_size max_n max_bytes out bytes" by (auto simp: batch_full_def)
        with True show ?thesis using more sel(1) Some g head lim
          by (subst simps) (simp add: stop vec_get_def)
      next
        case False
        obtain heap' out' bytes' taken where run:
          "fq_take_heap max_size max_n max_bytes single (groups q ! selected) out bytes = Some (heap', out', bytes')"
          "mset (groups q ! selected) = mset taken + mset heap'"
          "took max_size max_bytes taken out bytes out' bytes'" "length out' \<le> max (length out) max_n"
          using fq_take_heap_ok [OF "1.prems"(2)] by blast
        note put = fq_put_back_ok [OF "1.prems"(1) g(1) head run(2)]
        have "batch_ok (fq_put_back q selected head heap') max_size max_n max_bytes out' bytes'
            (fq_take_small grp' max_size max_n max_bytes single (fq_put_back q selected head heap') out' bytes')"
          using "1.IH" [of grp' selected _ head False] more sel(1,2) Some g head lim False run(1,3) put(1,3)
          by (simp add: vec_get_def took_def)
        from batch_ok_step [OF "1.prems"(1) g(1) head run(2,3,4) this]
        show ?thesis using more sel(1) Some g head lim False run(1)
          by (subst simps) (simp add: vec_get_def)
      qed
    qed
  qed
qed

lemma fq_take_batch_ok:
  assumes inv: "fq_inv q" and first: "\<And>idx. first = Some idx \<Longrightarrow> idx < length (group_of q)"
  shows "\<exists>out q' taken. fq_take_batch q first max_size max_n max_bytes = Some (out, q') \<and> fq_inv q' \<and>
    fq_items q = mset taken + fq_items q' \<and> out = map item_index taken \<and> length out \<le> max_n \<and>
    sum_list (map fst taken) \<le> max_bytes \<and> (\<forall>it\<in>set taken. fst it \<le> max_size) \<and>
    batch_full q' max_size max_n max_bytes out (sum_list (map fst taken)) \<and>
    group_of q' = group_of q \<and> directories q' = directories q"
proof -
  have shape: "fq_shape q" using inv by (simp add: fq_inv_def)
  define grp where "grp = map_option ((!) (group_of q)) first"
  have grp: "(case first of None \<Rightarrow> Some None
      | Some idx \<Rightarrow> map_option Some (vec_get (group_of q) idx)) = Some grp"
    using first by (auto simp: grp_def vec_get_def split: option.splits)
  have g: "g < length (groups q)" if "grp = Some g" for g
    using that first fq_shapeD(2) [OF shape] by (auto simp: grp_def)
  obtain q1 out bytes taken where run:
      "fq_take_small grp max_size max_n max_bytes (first = None) q [] 0 = Some (q1, out, bytes)"
      "fq_shape q1" "fq_items q = mset taken + fq_items q1"
      "took max_size max_bytes taken [] 0 out bytes" "length out \<le> max_n"
      "batch_full q1 max_size max_n max_bytes out bytes" "group_of q1 = group_of q"
      "directories q1 = directories q" "fq_count q1 = fq_count q" "fq_bytes q1 = fq_bytes q"
    using fq_take_small_ok [of q 0 max_bytes grp max_size max_n "[]" "first = None", OF shape _ g]
    by (auto simp: batch_ok_def)
  have sums: "bytes = sum_list (map fst taken)" "out = map item_index taken"
    using run(4) by (simp_all add: took_def)
  have sum_taken: "(\<Sum>it\<in>#mset taken. fst it) = sum_list (map fst taken)"
    by (metis mset_map sum_mset_sum_list)
  have totals: "fq_bytes q = bytes + (\<Sum>it\<in>#fq_items q1. fst it)"
      "fq_count q = length out + size (fq_items q1)"
    using inv sum_taken by (simp_all add: fq_inv_def run(3) sums del: mset_map)
  let ?q = "q1\<lparr>fq_bytes := fq_bytes q - bytes, fq_count := fq_count q - length out\<rparr>"
  have "fq_take_batch q first max_size max_n max_bytes = Some (out, ?q)"
    unfolding fq_take_batch_def grp using run(1,9,10) totals by (simp add: usub_le)
  moreover have "fq_inv ?q" using run(2) totals by (simp add: fq_inv_def)
  ultimately show ?thesis
    using run(3-8) sums
    by (intro exI [of _ out] exI [of _ ?q] exI [of _ taken]) (simp add: took_def batch_full_def)
qed

subsection \<open>The properties\<close>

text \<open>C28. Files are served largest first: popping a well-formed file queue as often as it has files
  never panics, returns every queued file exactly once, larger sizes first and equal sizes in
  bit-reversed index order, and leaves the queue empty.\<close>

theorem fq_serves_largest_first:
  assumes "fq_inv q"
  shows "\<exists>xs q'. drain fq_pop (fq_count q) q = Some (xs, q') \<and> fq_inv q' \<and> fq_is_empty q' \<and>
    mset xs = fq_items q \<and> sorted_wrt (\<lambda>x y. y \<le> x) xs"
proof -
  have "size (fq_items q) = fq_count q" using assms by (simp add: fq_inv_def)
  with fq.drain_all [OF assms] show ?thesis using fq_is_empty_iff by metis
qed

definition sample_queue :: file_queue where
  "sample_queue = fq_register (fq_register fq_default 0 ''d/a'') 1 ''e/b''"

lemma sample_queue_ok: "fq_inv sample_queue" "fq_items sample_queue = {#}" "length (group_of sample_queue) = 2"
proof -
  note R = fq_register_ok [of fq_default 0 "''d/a''"]
  show "fq_inv sample_queue" "fq_items sample_queue = {#}"
    using fq_register_ok [OF R(1), of 1 "''e/b''"] R(2) by (auto simp: sample_queue_def)
  show "length (group_of sample_queue) = 2"
    by (simp add: sample_queue_def fq_register_def fq_default_def fq_parent_def rposition_def
        vec_resize_def Let_def)
qed

lemma sample_queue_pushed:
  "\<exists>q. fq_push sample_queue (file_item_of 5 1) = Some q \<and> fq_inv q \<and>
    fq_items q = {#file_item_of 5 1#} \<and> length (group_of q) = 2"
  using fq_push_ok [OF sample_queue_ok(1), of "file_item_of 5 1"] sample_queue_ok(2,3) by auto

theorem fq_serves_largest_first_witness:
  "\<exists>q. fq_push sample_queue (file_item_of 5 1) = Some q \<and>
    (\<exists>xs q'. drain fq_pop (fq_count q) q = Some (xs, q') \<and> mset xs = {#file_item_of 5 1#})"
proof -
  obtain q where q: "fq_push sample_queue (file_item_of 5 1) = Some q" "fq_inv q"
    "fq_items q = {#file_item_of 5 1#}" using sample_queue_pushed by blast
  with fq_serves_largest_first [OF q(2)] show ?thesis by auto
qed

text \<open>C29. A small-file batch keeps its limits and takes as much as it may: it never panics; the
  files it takes leave the queue and nothing else does; there are at most \<open>max_n\<close> of them, none
  larger than \<open>max_size\<close>, together at most \<open>max_bytes\<close>; and it stops only when it is full, the
  queue is empty, or a file left in the queue breaks a limit.\<close>

theorem small_batch_within_limits:
  assumes "fq_inv q" "first < length (group_of q)"
  shows "\<exists>out q' taken. fq_take_batch q (Some first) max_size max_n max_bytes = Some (out, q') \<and> fq_inv q' \<and>
    fq_items q = mset taken + fq_items q' \<and> out = map item_index taken \<and> length out \<le> max_n \<and>
    sum_list (map fst taken) \<le> max_bytes \<and> list_all (\<lambda>it. fst it \<le> max_size) taken \<and>
    batch_full q' max_size max_n max_bytes out (sum_list (map fst taken))"
  using fq_take_batch_ok [OF assms(1), of "Some first" max_size max_n max_bytes] assms(2)
  unfolding list_all_iff by blast

theorem small_batch_within_limits_witness:
  "\<exists>q out q'. fq_push sample_queue (file_item_of 5 1) = Some q \<and>
    fq_take_batch q (Some 0) 10 4 100 = Some (out, q') \<and> length out \<le> 4"
proof -
  obtain q where q: "fq_push sample_queue (file_item_of 5 1) = Some q" "fq_inv q"
    "length (group_of q) = 2" using sample_queue_pushed by blast
  with small_batch_within_limits [OF q(2), of 0 10 4 100] show ?thesis by auto
qed

end
