(* ===== verification/Jobs.thy ===== *)
theory Jobs
  imports Proto_Types "HOL-Library.Word"
begin

section \<open>The table of file jobs\<close>

text \<open>
  \<open>FileJob\<close>, \<open>FileJobData\<close>, \<open>SnapshotData\<close> and \<open>Jobs\<close> of \<open>src/src/sched.rs\<close>. Jobs are
  appended to chunks of write-once slots that workers keep references to, so a chunk is a
  cell of an explicit store, the \<open>arena\<close>, and a snapshot of a published job is an address
  into it. A changed job gets a private version in \<open>retries\<close>; \<open>Arc::make_mut\<close> clones a
  version that a snapshot still holds, so a version is a plain value here.
\<close>

unbundle bit_operations_syntax

subsection \<open>Jobs\<close>

record file_job_data =
  compare_ranges :: bool
  compare_final :: bool
  compared :: bool
  resume_partial :: bool
  replace_dest :: bool
  recompared :: nat
  src_path :: path_bytes
  source :: registered_path
  dst_path :: path_bytes
  rel :: string
  job_entry :: entry
  job_condition :: target_condition
  policy_condition :: bool
  attempt :: nat
  done_counter :: nat
  inplace :: bool
  in_place_refusal :: "replace_reason option"
  rel_bytes :: path_bytes
  src_rel :: "path_bytes option"
  scanned :: scanned_destination

type_synonym slots = "file_job_data option list"
type_synonym arena = "slots list"

datatype snapshot_data =
    Shared file_job_data
  | ChunkSlot nat nat

record worker_job =
  wj_data :: snapshot_data
  wj_dst_entry :: "entry option"

record jobs =
  chunks :: "nat list"
  destinations :: "entry option list"
  retries :: "nat \<rightharpoonup> file_job_data"
  names_map :: "nat \<times> nat \<rightharpoonup> nat"
  named :: nat
  prepared :: "64 word list"
  earlier_partials :: "64 word list"

definition jobs_default :: jobs where
  "jobs_default = \<lparr>chunks = [], destinations = [], retries = Map.empty, names_map = Map.empty,
     named = 0, prepared = [], earlier_partials = []\<rparr>"

definition jobs_per_chunk :: nat where
  "jobs_per_chunk = 1024"

definition linked_identity :: "entry \<Rightarrow> (nat \<times> nat) option" where
  "linked_identity e = (if e_kind e = File \<and> nlink e > 1 then Some (dev e, ino e) else None)"

definition locate :: "nat \<Rightarrow> nat \<times> nat" where
  "locate idx = (idx div jobs_per_chunk, idx mod jobs_per_chunk)"

text \<open>\<open>CurrentJob\<close> and the two readings of it: its data and the snapshot that retains it.\<close>

definition current :: "jobs \<Rightarrow> nat \<Rightarrow> snapshot_data option" where
  "current j idx = (case retries j idx of
     Some data \<Rightarrow> Some (Shared data)
   | None \<Rightarrow> do {
       let (chunk, slot) = locate idx;
       addr \<leftarrow> vec_get (chunks j) chunk;
       Some (ChunkSlot addr slot) })"

fun snapshot_borrow :: "arena \<Rightarrow> snapshot_data \<Rightarrow> file_job_data option" where
  "snapshot_borrow ar (Shared data) = Some data"
| "snapshot_borrow ar (ChunkSlot addr slot) = do {
     slots \<leftarrow> vec_get ar addr;
     value' \<leftarrow> vec_get slots slot;
     value' }"

definition jobs_len :: "jobs \<Rightarrow> nat" where
  "jobs_len j = length (destinations j)"

definition jobs_is_empty :: "jobs \<Rightarrow> bool" where
  "jobs_is_empty j \<longleftrightarrow> jobs_len j = 0"

definition jobs_index :: "arena \<Rightarrow> jobs \<Rightarrow> nat \<Rightarrow> file_job_data option" where
  "jobs_index ar j idx = do { c \<leftarrow> current j idx; snapshot_borrow ar c }"

definition jobs_push :: "arena \<Rightarrow> jobs \<Rightarrow> file_job_data \<Rightarrow> entry option \<Rightarrow> (arena \<times> jobs) option" where
  "jobs_push ar j data dst_entry = do {
     let (chunk, slot) = locate (length (destinations j));
     let (ar1, chunks1) =
       (if slot = 0 then (ar @ [replicate jobs_per_chunk None], chunks j @ [length ar])
        else (ar, chunks j));
     addr \<leftarrow> vec_get chunks1 chunk;
     slots \<leftarrow> vec_get ar1 addr;
     old \<leftarrow> vec_get slots slot;
     ensure (old = None);
     Some (ar1[addr := slots[slot := Some data]],
           j\<lparr>chunks := chunks1, destinations := destinations j @ [dst_entry]\<rparr>) }"

definition jobs_get_mut :: "arena \<Rightarrow> jobs \<Rightarrow> nat \<Rightarrow> (file_job_data \<Rightarrow> file_job_data) \<Rightarrow> jobs option" where
  "jobs_get_mut ar j idx change = do {
     let (chunk, slot) = locate idx;
     version \<leftarrow> (case retries j idx of
        Some data \<Rightarrow> Some data
      | None \<Rightarrow> do {
          addr \<leftarrow> vec_get (chunks j) chunk;
          snapshot_borrow ar (ChunkSlot addr slot) });
     Some (j\<lparr>retries := (retries j)(idx \<mapsto> change version)\<rparr>) }"

definition jobs_snapshot :: "jobs \<Rightarrow> nat \<Rightarrow> worker_job option" where
  "jobs_snapshot j idx = do {
     data \<leftarrow> current j idx;
     dst_entry \<leftarrow> vec_get (destinations j) idx;
     Some \<lparr>wj_data = data, wj_dst_entry = dst_entry\<rparr> }"

definition jobs_destination :: "jobs \<Rightarrow> nat \<Rightarrow> entry option option" where
  "jobs_destination j idx = vec_get (destinations j) idx"

subsection \<open>One bit for each job\<close>

definition bit_of :: "nat \<Rightarrow> 64 word" where
  "bit_of idx = push_bit (idx mod 64) 1"

definition grown :: "64 word list \<Rightarrow> nat \<Rightarrow> 64 word list" where
  "grown ws w = (if w \<ge> length ws then vec_resize ws (w + 1) 0 else ws)"

definition first_preparation :: "jobs \<Rightarrow> nat \<Rightarrow> bool \<times> jobs" where
  "first_preparation j idx =
     (let w = idx div 64;
          ws = grown (prepared j) w;
          first = (ws ! w AND bit_of idx = 0)
      in (first, j\<lparr>prepared := ws[w := ws ! w OR bit_of idx]\<rparr>))"

definition found_earlier_partials :: "jobs \<Rightarrow> nat \<Rightarrow> jobs" where
  "found_earlier_partials j idx =
     (let w = idx div 64; ws = grown (earlier_partials j) w
      in j\<lparr>earlier_partials := ws[w := ws ! w OR bit_of idx]\<rparr>)"

definition has_earlier_partials :: "jobs \<Rightarrow> nat \<Rightarrow> bool" where
  "has_earlier_partials j idx =
     (case vec_get (earlier_partials j) (idx div 64) of
        None \<Rightarrow> False
      | Some word \<Rightarrow> word AND bit_of idx \<noteq> 0)"

subsection \<open>Names of multiply linked destinations\<close>

definition count_name :: "entry option \<Rightarrow> (nat \<times> nat \<rightharpoonup> nat) \<Rightarrow> (nat \<times> nat \<rightharpoonup> nat)" where
  "count_name d m = (case Option.bind d linked_identity of
     None \<Rightarrow> m
   | Some identity \<Rightarrow> m(identity \<mapsto> (case m identity of None \<Rightarrow> 0 | Some n \<Rightarrow> n) + 1))"

definition name_destinations :: "jobs \<Rightarrow> nat \<Rightarrow> jobs option" where
  "name_destinations j end' =
     (if end' \<le> named j then Some j
      else do {
        ensure (end' \<le> length (destinations j));
        Some (j\<lparr>names_map := fold count_name (take (end' - named j) (drop (named j) (destinations j))) (names_map j),
                named := end'\<rparr>) })"

definition set_destination :: "jobs \<Rightarrow> nat \<Rightarrow> entry \<Rightarrow> jobs option" where
  "set_destination j idx e = do {
     old \<leftarrow> vec_get (destinations j) idx;
     j1 \<leftarrow> (if Option.bind old linked_identity \<noteq> None then name_destinations j (idx + 1) else Some j);
     Some (j1\<lparr>destinations := (destinations j1)[idx := Some e]\<rparr>) }"

definition destination_names :: "jobs \<Rightarrow> nat \<Rightarrow> (nat \<times> jobs) option" where
  "destination_names j idx = do {
     j1 \<leftarrow> name_destinations j (jobs_len j);
     d \<leftarrow> vec_get (destinations j1) idx;
     Some ((case Option.bind (Option.bind d linked_identity) (names_map j1) of
              None \<Rightarrow> 1 | Some n \<Rightarrow> n), j1) }"

definition jobs_release :: "jobs \<Rightarrow> jobs" where
  "jobs_release j = jobs_default"

subsection \<open>The table as a list\<close>

definition jobs_inv :: "arena \<Rightarrow> jobs \<Rightarrow> bool" where
  "jobs_inv ar j \<longleftrightarrow>
     length (chunks j) = div_ceil (jobs_len j) jobs_per_chunk \<and>
     distinct (chunks j) \<and>
     (\<forall>a\<in>set (chunks j). a < length ar \<and> length (ar ! a) = jobs_per_chunk) \<and>
     (\<forall>i < length (chunks j) * jobs_per_chunk.
        ar ! (chunks j ! (i div jobs_per_chunk)) ! (i mod jobs_per_chunk) \<noteq> None \<longleftrightarrow> i < jobs_len j) \<and>
     dom (retries j) \<subseteq> {..<jobs_len j} \<and> named j \<le> jobs_len j \<and> 0 \<notin> ran (names_map j)"

definition jobs_list :: "arena \<Rightarrow> jobs \<Rightarrow> file_job_data list" where
  "jobs_list ar j = map (\<lambda>i. the (jobs_index ar j i)) [0..<jobs_len j]"

lemma jobs_per_chunk_pos [simp]: "0 < jobs_per_chunk"
  by (simp add: jobs_per_chunk_def)

lemma length_jobs_list [simp]: "length (jobs_list ar j) = jobs_len j"
  by (simp add: jobs_list_def)

lemma jobs_invD:
  assumes "jobs_inv ar j"
  shows "length (chunks j) = div_ceil (jobs_len j) jobs_per_chunk"
    "distinct (chunks j)"
    "a \<in> set (chunks j) \<Longrightarrow> a < length ar \<and> length (ar ! a) = jobs_per_chunk"
    "i < length (chunks j) * jobs_per_chunk \<Longrightarrow>
      ar ! (chunks j ! (i div jobs_per_chunk)) ! (i mod jobs_per_chunk) \<noteq> None \<longleftrightarrow> i < jobs_len j"
    "dom (retries j) \<subseteq> {..<jobs_len j}" "named j \<le> jobs_len j" "0 \<notin> ran (names_map j)"
  using assms unfolding jobs_inv_def by blast+

text \<open>The chunks cover the published jobs, and the next job opens a chunk exactly at slot 0.\<close>

lemma jobs_inv_cover:
  assumes "jobs_inv ar j"
  shows "jobs_len j \<le> length (chunks j) * jobs_per_chunk"
    "i < jobs_len j \<Longrightarrow> i div jobs_per_chunk < length (chunks j)"
    "jobs_len j mod jobs_per_chunk \<noteq> 0 \<Longrightarrow> jobs_len j div jobs_per_chunk < length (chunks j)"
    "jobs_len j mod jobs_per_chunk = 0 \<Longrightarrow> length (chunks j) = jobs_len j div jobs_per_chunk"
proof -
  note len = jobs_invD(1) [OF assms]
  show le: "jobs_len j \<le> length (chunks j) * jobs_per_chunk"
    unfolding len by (simp add: div_ceil_bounds)
  show "i < jobs_len j \<Longrightarrow> i div jobs_per_chunk < length (chunks j)"
    using le by (simp add: less_mult_imp_div_less)
qed (simp_all add: jobs_invD(1) [OF assms] div_ceil_def)

lemma jobs_index_chunk:
  assumes "jobs_inv ar j" "i < jobs_len j" "retries j i = None"
  shows "jobs_index ar j i = ar ! (chunks j ! (i div jobs_per_chunk)) ! (i mod jobs_per_chunk)"
    "jobs_index ar j i \<noteq> None"
proof -
  note c = jobs_inv_cover(2) [OF assms(1,2)]
  have "i < length (chunks j) * jobs_per_chunk" using jobs_inv_cover(1) [OF assms(1)] assms(2) by simp
  with c assms show
    "jobs_index ar j i = ar ! (chunks j ! (i div jobs_per_chunk)) ! (i mod jobs_per_chunk)"
    "jobs_index ar j i \<noteq> None"
    using jobs_invD(3) [OF assms(1), of "chunks j ! (i div jobs_per_chunk)"] jobs_invD(4) [OF assms(1), of i]
    by (auto simp: jobs_index_def current_def locate_def vec_get_def)
qed

lemma jobs_index_list:
  assumes "jobs_inv ar j" "i < jobs_len j"
  shows "jobs_index ar j i = Some (jobs_list ar j ! i)"
proof (cases "retries j i")
  case None
  then show ?thesis using jobs_index_chunk(2) [OF assms] assms(2) by (auto simp: jobs_list_def)
next
  case (Some d)
  then show ?thesis using assms(2) by (simp add: jobs_list_def jobs_index_def current_def)
qed

lemma jobs_index_cong:
  "retries j i = retries j' i \<Longrightarrow> chunks j = chunks j' \<Longrightarrow> jobs_index ar j i = jobs_index ar j' i"
  by (auto simp: jobs_index_def current_def split: option.split)

lemma jobs_default_inv [simp]: "jobs_inv ar jobs_default"
  by (simp add: jobs_inv_def jobs_default_def jobs_len_def jobs_per_chunk_def)

text \<open>Snapshots stay readable: no operation overwrites a published slot of the store.\<close>

definition arena_le :: "arena \<Rightarrow> arena \<Rightarrow> bool" where
  "arena_le ar ar' \<longleftrightarrow> length ar \<le> length ar' \<and>
     (\<forall>a < length ar. length (ar' ! a) = length (ar ! a) \<and>
        (\<forall>s < length (ar ! a). ar ! a ! s \<noteq> None \<longrightarrow> ar' ! a ! s = ar ! a ! s))"

lemma arena_le_refl [simp]: "arena_le ar ar"
  by (simp add: arena_le_def)

lemma arena_le_trans: "arena_le a b \<Longrightarrow> arena_le b c \<Longrightarrow> arena_le a c"
  unfolding arena_le_def by (auto dest: order_less_le_trans)

lemma arena_le_grow: "arena_le ar (ar @ xs)"
  by (simp add: arena_le_def nth_append)

lemma arena_le_publish:
  "a < length ar \<Longrightarrow> ar ! a ! s = None \<Longrightarrow> arena_le ar (ar[a := (ar ! a)[s := v]])"
  by (auto simp: arena_le_def nth_list_update) (metis nth_list_update_neq option.distinct(1))

lemma snapshot_borrow_mono:
  "arena_le ar ar' \<Longrightarrow> snapshot_borrow ar d = Some v \<Longrightarrow> snapshot_borrow ar' d = Some v"
  by (cases d) (auto simp: arena_le_def bind_eq_Some_conv)

text \<open>Opening a chunk for the next job, when its slot is the first of one.\<close>

definition jobs_room :: "arena \<Rightarrow> jobs \<Rightarrow> arena \<times> nat list" where
  "jobs_room ar j = (if jobs_len j mod jobs_per_chunk = 0
     then (ar @ [replicate jobs_per_chunk None], chunks j @ [length ar]) else (ar, chunks j))"

lemma jobs_room_ok:
  assumes inv: "jobs_inv ar j" and room: "jobs_room ar j = (ar1, chunks1)"
  shows "length chunks1 = jobs_len j div jobs_per_chunk + 1" "distinct chunks1" "arena_le ar ar1"
    "\<And>a. a \<in> set chunks1 \<Longrightarrow> a < length ar1 \<and> length (ar1 ! a) = jobs_per_chunk"
    "\<And>i. i < length chunks1 * jobs_per_chunk \<Longrightarrow>
      ar1 ! (chunks1 ! (i div jobs_per_chunk)) ! (i mod jobs_per_chunk) \<noteq> None \<longleftrightarrow> i < jobs_len j"
    "\<And>i. i div jobs_per_chunk < length (chunks j) \<Longrightarrow>
      ar1 ! (chunks1 ! (i div jobs_per_chunk)) ! (i mod jobs_per_chunk)
        = ar ! (chunks j ! (i div jobs_per_chunk)) ! (i mod jobs_per_chunk)"
proof -
  note D = jobs_invD [OF inv] and C = jobs_inv_cover [OF inv]
  let ?K = jobs_per_chunk
  have "\<not> length ar < length ar" by simp
  then have fresh: "length ar \<notin> set (chunks j)" using D(3) by blast
  show "length chunks1 = jobs_len j div ?K + 1"
    using room C(4) D(1) by (auto simp: jobs_room_def div_ceil_def split: if_splits)
  show "distinct chunks1" using room D(2) fresh by (auto simp: jobs_room_def split: if_splits)
  show "arena_le ar ar1" using room arena_le_grow by (auto simp: jobs_room_def split: if_splits)
  show "a < length ar1 \<and> length (ar1 ! a) = ?K" if "a \<in> set chunks1" for a
    using room D(3) that by (auto simp: jobs_room_def nth_append less_Suc_eq split: if_splits)
  show old: "ar1 ! (chunks1 ! (i div ?K)) ! (i mod ?K) = ar ! (chunks j ! (i div ?K)) ! (i mod ?K)"
    if "i div ?K < length (chunks j)" for i
    using room D(3) [OF nth_mem [OF that]] that by (auto simp: jobs_room_def nth_append split: if_splits)
  show "ar1 ! (chunks1 ! (i div ?K)) ! (i mod ?K) \<noteq> None \<longleftrightarrow> i < jobs_len j"
    if i: "i < length chunks1 * ?K" for i
  proof (cases "i div ?K < length (chunks j)")
    case True
    then have "i < length (chunks j) * ?K" by (simp add: div_less_iff_less_mult)
    with old [OF True] D(4) show ?thesis by simp
  next
    case False
    have "i div ?K < length chunks1" using i by (simp add: less_mult_imp_div_less)
    with room False have "i div ?K = length (chunks j)" "chunks1 = chunks j @ [length ar]"
        "ar1 = ar @ [replicate ?K None]"
      by (auto simp: jobs_room_def split: if_splits)
    moreover have "\<not> i < jobs_len j" using False C(2) by blast
    ultimately show ?thesis by simp
  qed
qed

lemma jobs_push_room:
  "jobs_push ar j data d = (case jobs_room ar j of (ar1, chunks1) \<Rightarrow> do {
     addr \<leftarrow> vec_get chunks1 (jobs_len j div jobs_per_chunk);
     slots \<leftarrow> vec_get ar1 addr;
     old \<leftarrow> vec_get slots (jobs_len j mod jobs_per_chunk);
     ensure (old = None);
     Some (ar1[addr := slots[jobs_len j mod jobs_per_chunk := Some data]],
           j\<lparr>chunks := chunks1, destinations := destinations j @ [d]\<rparr>) })"
  by (simp add: jobs_push_def jobs_room_def locate_def jobs_len_def)

lemma jobs_push_ok:
  assumes inv: "jobs_inv ar j"
  shows "\<exists>ar' j'. jobs_push ar j data d = Some (ar', j') \<and> jobs_inv ar' j' \<and> arena_le ar ar' \<and>
    jobs_list ar' j' = jobs_list ar j @ [data] \<and> destinations j' = destinations j @ [d] \<and>
    named j' = named j \<and> names_map j' = names_map j"
proof -
  obtain ar1 chunks1 where room: "jobs_room ar j = (ar1, chunks1)" by fastforce
  note R = jobs_room_ok [OF inv room] and D = jobs_invD [OF inv] and C = jobs_inv_cover [OF inv]
  let ?K = jobs_per_chunk and ?n = "jobs_len j"
  define c s where "c = ?n div ?K" and "s = ?n mod ?K"
  define addr where "addr = chunks1 ! c"
  have c: "c < length chunks1" using R(1) by (simp add: c_def)
  have addr: "addr < length ar1" "length (ar1 ! addr) = ?K" using R(4) c by (simp_all add: addr_def)
  have n1: "?n < length chunks1 * ?K"
    using div_less_iff_less_mult [OF jobs_per_chunk_pos, of ?n "length chunks1"] c by (simp add: c_def)
  have free: "ar1 ! addr ! s = None" using R(5) [OF n1] by (simp add: addr_def c_def s_def)
  define ar' where "ar' = ar1[addr := (ar1 ! addr)[s := Some data]]"
  define j' where "j' = j\<lparr>chunks := chunks1, destinations := destinations j @ [d]\<rparr>"
  have run: "jobs_push ar j data d = Some (ar', j')"
    unfolding jobs_push_room room using c addr free
    by (simp add: vec_get_def ar'_def j'_def flip: c_def s_def addr_def) (simp add: s_def)
  have slot: "ar' ! (chunks1 ! (i div ?K)) ! (i mod ?K) =
      (if i = ?n then Some data else ar1 ! (chunks1 ! (i div ?K)) ! (i mod ?K))"
    if "i div ?K < length chunks1" for i
  proof -
    have eq: "i = ?n \<longleftrightarrow> i div ?K = c \<and> i mod ?K = s"
      unfolding c_def s_def by (metis div_mult_mod_eq)
    show ?thesis
    proof (cases "i div ?K = c")
      case True
      then have "chunks1 ! (i div ?K) = addr" by (simp add: addr_def)
      moreover have "s < ?K" by (simp add: s_def)
      ultimately show ?thesis unfolding eq using True addr by (simp add: ar'_def nth_list_update)
    next
      case False
      then have "chunks1 ! (i div ?K) \<noteq> addr"
        using R(2) that c by (simp add: addr_def nth_eq_iff_index_eq)
      then show ?thesis unfolding eq using False by (simp add: ar'_def)
    qed
  qed
  have len': "jobs_len j' = ?n + 1" by (simp add: j'_def jobs_len_def)
  have fields: "chunks j' = chunks1" "retries j' = retries j" "named j' = named j" by (simp_all add: j'_def)
  have "jobs_inv ar' j'"
    unfolding jobs_inv_def
  proof (intro conjI ballI allI impI)
    show "length (chunks j') = div_ceil (jobs_len j') ?K"
      using R(1) by (simp add: fields len' div_ceil_Suc)
    show "distinct (chunks j')" using R(2) by (simp add: fields)
    show "a < length ar'" "length (ar' ! a) = ?K" if "a \<in> set (chunks j')" for a
      using R(4) [of a] that addr by (auto simp: fields ar'_def nth_list_update)
    show "(ar' ! (chunks j' ! (i div ?K)) ! (i mod ?K) \<noteq> None) = (i < jobs_len j')"
      if "i < length (chunks j') * ?K" for i
      using that R(5) [of i] slot [of i] by (auto simp: fields len' less_mult_imp_div_less)
    show "dom (retries j') \<subseteq> {..<jobs_len j'}" using D(5) by (auto simp: fields len')
    show "named j' \<le> jobs_len j'" using D(6) by (simp add: fields len')
    show "0 \<notin> ran (names_map j')" using D(7) by (simp add: j'_def)
  qed
  moreover have "arena_le ar ar'"
    using R(3) arena_le_publish [OF addr(1) free] arena_le_trans by (auto simp: ar'_def)
  moreover have "jobs_list ar' j' = jobs_list ar j @ [data]"
  proof (rule nth_equalityI)
    show "length (jobs_list ar' j') = length (jobs_list ar j @ [data])" by (simp add: len')
    fix i assume "i < length (jobs_list ar' j')"
    then have i: "i < jobs_len j'" by simp
    have "jobs_index ar' j' i = (if i = ?n then Some data else jobs_index ar j i)"
    proof (cases "retries j i")
      case (Some v)
      then show ?thesis using D(5) by (auto simp: jobs_index_def current_def j'_def)
    next
      case None
      then have "jobs_index ar' j' i = ar' ! (chunks1 ! (i div ?K)) ! (i mod ?K)"
        using jobs_index_chunk(1) [OF \<open>jobs_inv ar' j'\<close> i] by (simp add: j'_def)
      with slot [of i] jobs_inv_cover(2) [OF \<open>jobs_inv ar' j'\<close> i] show ?thesis
        using R(6) [of i] jobs_index_chunk(1) [OF inv _ None] C(2) [of i] i len'
        by (auto simp: j'_def)
    qed
    with i len' show "jobs_list ar' j' ! i = (jobs_list ar j @ [data]) ! i"
      by (auto simp: jobs_list_def nth_append less_Suc_eq)
  qed
  ultimately show ?thesis
    using run by (simp add: j'_def)
qed

lemma jobs_get_mut_ok:
  assumes inv: "jobs_inv ar j" and idx: "idx < jobs_len j"
  shows "\<exists>j'. jobs_get_mut ar j idx f = Some j' \<and> jobs_inv ar j' \<and>
    jobs_list ar j' = (jobs_list ar j)[idx := f (jobs_list ar j ! idx)] \<and> destinations j' = destinations j"
proof -
  define j' where "j' = j\<lparr>retries := (retries j)(idx \<mapsto> f (jobs_list ar j ! idx))\<rparr>"
  have "jobs_index ar j idx = Some (jobs_list ar j ! idx)" by (rule jobs_index_list [OF inv idx])
  then have run: "jobs_get_mut ar j idx f = Some j'"
    by (auto simp: jobs_get_mut_def jobs_index_def current_def locate_def j'_def bind_eq_Some_conv
        split: option.splits)
  have "jobs_inv ar j'"
    using inv idx by (auto simp: jobs_inv_def j'_def jobs_len_def)
  moreover have "jobs_list ar j' = (jobs_list ar j)[idx := f (jobs_list ar j ! idx)]"
  proof (rule nth_equalityI)
    fix i assume "i < length (jobs_list ar j')"
    then have i: "i < jobs_len j" by (simp add: j'_def jobs_len_def)
    have "jobs_index ar j' i = (if i = idx then Some (f (jobs_list ar j ! idx)) else jobs_index ar j i)"
      using jobs_index_cong [of j' i j ar] by (auto simp: j'_def) (simp add: jobs_index_def current_def)
    moreover have "jobs_list ar j' ! i = the (jobs_index ar j' i)" "i < length (jobs_list ar j)"
      using i by (simp_all add: jobs_list_def j'_def jobs_len_def)
    ultimately show "jobs_list ar j' ! i = (jobs_list ar j)[idx := f (jobs_list ar j ! idx)] ! i"
      using jobs_index_list [OF inv i] by (simp add: nth_list_update)
  qed (simp add: j'_def jobs_len_def)
  ultimately show ?thesis using run by (auto simp: j'_def)
qed

lemma jobs_inv_cong:
  assumes "jobs_inv ar j" "chunks j' = chunks j" "retries j' = retries j" "jobs_len j' = jobs_len j"
    "named j' \<le> jobs_len j" "0 \<notin> ran (names_map j')"
  shows "jobs_inv ar j'" "jobs_list ar j' = jobs_list ar j"
  using assms jobs_index_cong [of j' _ j ar] by (simp_all add: jobs_inv_def jobs_list_def)

lemma name_destinations_ok:
  assumes "named j \<le> jobs_len j" "end' \<le> jobs_len j"
  shows "name_destinations j end' = Some (j\<lparr>
     names_map := fold count_name (take (end' - named j) (drop (named j) (destinations j))) (names_map j),
     named := max (named j) end'\<rparr>)"
  using assms by (simp add: name_destinations_def jobs_len_def max_def)

lemma fold_count_name_pos: "0 \<notin> ran m \<Longrightarrow> 0 \<notin> ran (fold count_name ds m)"
  by (induction ds arbitrary: m) (auto simp: count_name_def ran_def split: option.splits if_splits)

text \<open>
  How many jobs count for a destination file: those already tallied in the map and those
  behind the mark that the next tally will reach.
\<close>

definition names_of :: "jobs \<Rightarrow> nat \<times> nat \<Rightarrow> nat" where
  "names_of j identity = (case names_map j identity of None \<Rightarrow> 0 | Some n \<Rightarrow> n)
     + length (filter (\<lambda>d. Option.bind d linked_identity = Some identity) (drop (named j) (destinations j)))"

lemma fold_count_name:
  "(case fold count_name ds m identity of None \<Rightarrow> 0 | Some n \<Rightarrow> n)
     = (case m identity of None \<Rightarrow> 0 | Some n \<Rightarrow> n)
       + length (filter (\<lambda>d. Option.bind d linked_identity = Some identity) ds)"
proof (induction ds arbitrary: m)
  case (Cons d ds)
  then show ?case by (cases "Option.bind d linked_identity") (auto simp: count_name_def split: option.splits)
qed simp

lemma names_of_name_destinations:
  assumes "named j \<le> jobs_len j" "end' \<le> jobs_len j" "name_destinations j end' = Some j'"
  shows "names_of j' identity = names_of j identity"
proof -
  have "drop (named j) (destinations j) =
      take (end' - named j) (drop (named j) (destinations j)) @ drop (max (named j) end') (destinations j)"
    by (metis append_take_drop_id drop_drop le_add_diff_inverse2 max_def max.commute
        drop_0 take_0 append_Nil diff_is_0_eq add.commute nat_le_linear)
  then have "length (filter P (drop (named j) (destinations j))) =
      length (filter P (take (end' - named j) (drop (named j) (destinations j))))
      + length (filter P (drop (max (named j) end') (destinations j)))" for P
    by (metis filter_append length_append)
  with assms show ?thesis
    by (auto simp: name_destinations_ok names_of_def fold_count_name)
qed

lemma set_destination_ok:
  assumes inv: "jobs_inv ar j" and idx: "idx < jobs_len j"
  shows "\<exists>j'. set_destination j idx e = Some j' \<and> jobs_inv ar j' \<and> jobs_list ar j' = jobs_list ar j \<and>
    destinations j' = (destinations j)[idx := Some e] \<and>
    (\<forall>identity. names_of j' identity = names_of j identity +
       (if named j \<le> idx \<and> Option.bind (destinations j ! idx) linked_identity = None
           \<and> linked_identity e = Some identity then 1 else 0))"
proof -
  note D = jobs_invD(6,7) [OF inv]
  let ?old = "Option.bind (destinations j ! idx) linked_identity"
  have len: "idx < length (destinations j)" using idx by (simp add: jobs_len_def)
  obtain j1 where j1: "(if ?old \<noteq> None then name_destinations j (idx + 1) else Some j) = Some j1"
      "destinations j1 = destinations j" "named j1 \<le> jobs_len j" "jobs_inv ar j1" "0 \<notin> ran (names_map j1)"
      "jobs_list ar j1 = jobs_list ar j" "\<And>i. names_of j1 i = names_of j i"
      "?old \<noteq> None \<Longrightarrow> idx < named j1" "?old = None \<Longrightarrow> named j1 = named j"
  proof (cases "?old = None")
    case True
    then show thesis using that [of j] inv D by simp
  next
    case False
    define j1 where "j1 = the (name_destinations j (idx + 1))"
    have run: "name_destinations j (idx + 1) = Some j1"
      using D idx by (simp add: j1_def name_destinations_ok)
    then have j1: "j1 = j\<lparr>names_map := fold count_name (take (idx + 1 - named j) (drop (named j) (destinations j)))
        (names_map j), named := max (named j) (idx + 1)\<rparr>"
      using D idx by (simp add: name_destinations_ok)
    have pos: "0 \<notin> ran (names_map j1)" using D(2) by (simp add: j1 fold_count_name_pos)
    then have "jobs_inv ar j1" "jobs_list ar j1 = jobs_list ar j"
      using D idx by (auto intro!: jobs_inv_cong [OF inv] simp: jobs_len_def j1)
    then show thesis
      using that [of j1] False run names_of_name_destinations [OF D(1) _ run] D idx j1 pos by simp
  qed
  let ?j = "j1\<lparr>destinations := (destinations j1)[idx := Some e]\<rparr>"
  have run: "set_destination j idx e = Some ?j"
    using j1(1) len by (simp add: set_destination_def vec_get_def)
  have inv': "jobs_inv ar ?j" "jobs_list ar ?j = jobs_list ar j"
    using jobs_inv_cong [OF j1(4), of ?j] j1(2,3,5,6) by (simp_all add: jobs_len_def)
  have "names_of ?j identity = names_of j identity +
      (if named j \<le> idx \<and> ?old = None \<and> linked_identity e = Some identity then 1 else 0)" for identity
  proof -
    note upd = length_filter_drop_update [OF len, of "\<lambda>d. Option.bind d linked_identity = Some identity"
        "named j1" "Some e"]
    show ?thesis
    proof (cases "?old = None")
      case True
      then show ?thesis using upd j1(7) [of identity] j1(2,9) by (simp add: names_of_def split: if_splits)
    next
      case False
      then show ?thesis using upd j1(7) [of identity] j1(2,8) by (simp add: names_of_def)
    qed
  qed
  with run inv' j1(2) show ?thesis by simp
qed

lemma destination_names_ok:
  assumes inv: "jobs_inv ar j" and idx: "idx < jobs_len j"
  shows "\<exists>j'. destination_names j idx = Some
      ((case Option.bind (destinations j ! idx) linked_identity of
          None \<Rightarrow> 1 | Some i \<Rightarrow> max 1 (names_of j i)), j') \<and>
    jobs_inv ar j' \<and> jobs_list ar j' = jobs_list ar j \<and> destinations j' = destinations j \<and>
    (\<forall>i. names_of j' i = names_of j i)"
proof -
  note D = jobs_invD(6,7) [OF inv]
  define j1 where "j1 = the (name_destinations j (jobs_len j))"
  have run: "name_destinations j (jobs_len j) = Some j1"
    using D by (simp add: j1_def name_destinations_ok)
  then have j1: "destinations j1 = destinations j" "named j1 = jobs_len j" "chunks j1 = chunks j"
      "retries j1 = retries j" "0 \<notin> ran (names_map j1)"
    using D by (auto simp: name_destinations_ok dest: fold_count_name_pos)
  have names: "names_of j1 i = names_of j i" for i
    by (rule names_of_name_destinations [OF D(1) _ run]) simp
  have tally: "(case names_map j1 i of None \<Rightarrow> 1 | Some n \<Rightarrow> n) = max 1 (names_of j i)" for i
  proof -
    have sum: "names_of j i = (case names_map j1 i of None \<Rightarrow> 0 | Some n \<Rightarrow> n)"
      unfolding names [of i, symmetric] by (simp add: names_of_def j1(1,2) jobs_len_def)
    show ?thesis
    proof (cases "names_map j1 i")
      case (Some n)
      with j1(5) have "n \<noteq> 0" by (metis ranI)
      with Some sum show ?thesis by simp
    qed (simp add: sum)
  qed
  have inv': "jobs_inv ar j1" "jobs_list ar j1 = jobs_list ar j"
    using j1 by (auto intro!: jobs_inv_cong [OF inv] simp: jobs_len_def)
  have "idx < length (destinations j)" using idx by (simp add: jobs_len_def)
  then have "destination_names j idx = Some
      ((case Option.bind (destinations j ! idx) linked_identity of
          None \<Rightarrow> 1 | Some i \<Rightarrow> max 1 (names_of j i)), j1)"
    using run j1(1) tally
    by (cases "Option.bind (destinations j ! idx) linked_identity")
      (simp_all add: destination_names_def vec_get_def del: Option.bind_assoc)
  with inv' j1(1) names show ?thesis by blast
qed

subsection \<open>The bit sets\<close>

definition bits_set :: "64 word list \<Rightarrow> nat set" where
  "bits_set ws = {i. i div 64 < length ws \<and> bit (ws ! (i div 64)) (i mod 64)}"

lemma bit_bit_of: "bit (bit_of idx) n \<longleftrightarrow> n = idx mod 64"
  by (auto simp: bit_of_def bit_exp_iff possible_bit_word)

lemma and_bit_of: "w AND bit_of idx = 0 \<longleftrightarrow> \<not> bit w (idx mod 64)"
proof
  assume "w AND bit_of idx = 0"
  then have "\<not> bit (w AND bit_of idx) (idx mod 64)" by simp
  then show "\<not> bit w (idx mod 64)" by (simp add: bit_and_iff bit_bit_of)
next
  assume "\<not> bit w (idx mod 64)"
  then show "w AND bit_of idx = 0" by (intro bit_eqI) (auto simp: bit_and_iff bit_bit_of)
qed

lemma grown_ok:
  shows "w < length (grown ws w)" "length ws \<le> length (grown ws w)"
    "i < length (grown ws w) \<Longrightarrow> grown ws w ! i = (if i < length ws then ws ! i else 0)"
  by (auto simp: grown_def vec_resize_nth)

lemma bits_set_grown [simp]: "bits_set (grown ws w) = bits_set ws"
  using grown_ok(2) [of ws w] by (auto simp: bits_set_def grown_ok(3) split: if_splits)

lemma bits_set_insert:
  assumes "idx div 64 < length ws"
  shows "bits_set (ws[idx div 64 := ws ! (idx div 64) OR bit_of idx]) = insert idx (bits_set ws)"
proof (rule set_eqI)
  fix i
  have "i = idx \<longleftrightarrow> i div 64 = idx div 64 \<and> i mod 64 = idx mod 64"
    by (metis div_mult_mod_eq)
  with assms show "i \<in> bits_set (ws[idx div 64 := ws ! (idx div 64) OR bit_of idx]) \<longleftrightarrow>
      i \<in> insert idx (bits_set ws)"
    by (cases "i div 64 = idx div 64") (auto simp: bits_set_def bit_or_iff bit_bit_of)
qed

lemma first_preparation_ok:
  "fst (first_preparation j idx) \<longleftrightarrow> idx \<notin> bits_set (prepared j)"
  "bits_set (prepared (snd (first_preparation j idx))) = insert idx (bits_set (prepared j))"
proof -
  have "idx \<in> bits_set (prepared j) \<longleftrightarrow> idx \<in> bits_set (grown (prepared j) (idx div 64))" by simp
  also have "\<dots> \<longleftrightarrow> bit (grown (prepared j) (idx div 64) ! (idx div 64)) (idx mod 64)"
    unfolding bits_set_def using grown_ok(1) by simp
  finally show "fst (first_preparation j idx) \<longleftrightarrow> idx \<notin> bits_set (prepared j)"
    by (simp add: first_preparation_def Let_def and_bit_of)
qed (simp add: first_preparation_def Let_def bits_set_insert grown_ok(1))

lemma earlier_partials_ok:
  "has_earlier_partials j idx \<longleftrightarrow> idx \<in> bits_set (earlier_partials j)"
  "bits_set (earlier_partials (found_earlier_partials j idx)) = insert idx (bits_set (earlier_partials j))"
proof -
  show "has_earlier_partials j idx \<longleftrightarrow> idx \<in> bits_set (earlier_partials j)"
    by (auto simp: has_earlier_partials_def bits_set_def and_bit_of vec_get_def)
qed (simp add: found_earlier_partials_def Let_def bits_set_insert grown_ok(1))

subsection \<open>Histories of the table\<close>

text \<open>
  Any sequence of operations on the table. \<open>JModify\<close> is a use of \<open>IndexMut\<close>: the caller
  changes the version of one job.
\<close>

datatype jobs_op =
    JPush file_job_data "entry option"
  | JModify nat "file_job_data \<Rightarrow> file_job_data"
  | JSetDestination nat entry
  | JDestinationNames nat
  | JFirstPreparation nat
  | JFoundEarlierPartials nat
  | JRelease

fun jobs_exec :: "jobs_op \<Rightarrow> arena \<times> jobs \<Rightarrow> (arena \<times> jobs) option" where
  "jobs_exec (JPush data d) (ar, j) = jobs_push ar j data d"
| "jobs_exec (JModify idx f) (ar, j) = map_option (Pair ar) (jobs_get_mut ar j idx f)"
| "jobs_exec (JSetDestination idx e) (ar, j) = map_option (Pair ar) (set_destination j idx e)"
| "jobs_exec (JDestinationNames idx) (ar, j) = map_option (\<lambda>(n, j'). (ar, j')) (destination_names j idx)"
| "jobs_exec (JFirstPreparation idx) (ar, j) = Some (ar, snd (first_preparation j idx))"
| "jobs_exec (JFoundEarlierPartials idx) (ar, j) = Some (ar, found_earlier_partials j idx)"
| "jobs_exec JRelease (ar, j) = Some (ar, jobs_release j)"

fun jobs_run :: "jobs_op list \<Rightarrow> arena \<times> jobs \<Rightarrow> (arena \<times> jobs) option" where
  "jobs_run [] s = Some s"
| "jobs_run (op # ops) s = do { s' \<leftarrow> jobs_exec op s; jobs_run ops s' }"

definition jobs_op_ok :: "jobs_op \<Rightarrow> jobs \<Rightarrow> bool" where
  "jobs_op_ok op j = (case op of
     JModify idx f \<Rightarrow> idx < jobs_len j
   | JSetDestination idx e \<Rightarrow> idx < jobs_len j
   | JDestinationNames idx \<Rightarrow> idx < jobs_len j
   | _ \<Rightarrow> True)"

lemma jobs_exec_ok:
  assumes "jobs_inv ar j" "jobs_op_ok op j"
  shows "\<exists>ar' j'. jobs_exec op (ar, j) = Some (ar', j') \<and> jobs_inv ar' j' \<and> arena_le ar ar'"
proof (cases op)
  case (JPush data d)
  then show ?thesis using jobs_push_ok [OF assms(1), of data d] by auto
next
  case (JModify idx f)
  then show ?thesis using jobs_get_mut_ok [OF assms(1), of idx f] assms(2) by (auto simp: jobs_op_ok_def)
next
  case (JSetDestination idx e)
  then show ?thesis using set_destination_ok [OF assms(1), of idx e] assms(2) by (auto simp: jobs_op_ok_def)
next
  case (JDestinationNames idx)
  then show ?thesis using destination_names_ok [OF assms(1), of idx] assms(2) by (auto simp: jobs_op_ok_def)
next
  case (JFirstPreparation idx)
  then show ?thesis using jobs_inv_cong [OF assms(1)] jobs_invD(6,7) [OF assms(1)]
    by (auto simp: first_preparation_def Let_def jobs_len_def)
next
  case (JFoundEarlierPartials idx)
  then show ?thesis using jobs_inv_cong [OF assms(1)] jobs_invD(6,7) [OF assms(1)]
    by (auto simp: found_earlier_partials_def Let_def jobs_len_def)
qed (simp add: jobs_release_def)

lemma jobs_exec_arena:
  assumes "jobs_exec op (ar, j) = Some (ar', j')"
  shows "arena_le ar ar'"
proof (cases op)
  case (JPush data d)
  obtain ar1 chunks1 where room: "jobs_room ar j = (ar1, chunks1)" by fastforce
  then have "arena_le ar ar1" using arena_le_grow by (auto simp: jobs_room_def split: if_splits)
  moreover have "arena_le ar1 ar'"
    using assms JPush by (auto simp: jobs_push_room room bind_eq_Some_conv intro: arena_le_publish)
  ultimately show ?thesis by (rule arena_le_trans)
qed (use assms in auto)

lemma jobs_run_arena: "jobs_run ops (ar, j) = Some (ar', j') \<Longrightarrow> arena_le ar ar'"
proof (induction ops arbitrary: ar j)
  case (Cons op ops)
  then show ?case by (auto simp: bind_eq_Some_conv dest!: jobs_exec_arena intro: arena_le_trans)
qed simp

subsection \<open>The properties\<close>

text \<open>A job, for the concrete instances below.\<close>

definition sample_entry :: entry where
  "sample_entry = \<lparr>path = ''a'', e_kind = File, e_size = 100, mtime = 0, mtime_nsec = 0, mode = 420,
     uid = 0, gid = 0, rdev = 0, dev = 1, ino = 2, nlink = 2, ctime = 0, ctime_nsec = 0,
     link_target = None, e_atime = \<lparr>seconds = 0, nanoseconds = 0\<rparr>, e_metadata = None\<rparr>"

definition sample_job :: file_job_data where
  "sample_job = \<lparr>compare_ranges = False, compare_final = False, compared = False, resume_partial = False,
     replace_dest = False, recompared = 0, src_path = ''s/a'', source = \<lparr>rp_root = 0, rp_relative = ''a''\<rparr>,
     dst_path = ''d/a'', rel = ''a'', job_entry = sample_entry, job_condition = AnyTarget,
     policy_condition = False, attempt = 0, done_counter = 0, inplace = False, in_place_refusal = None,
     rel_bytes = ''a'', src_rel = None, scanned = UnknownDest\<rparr>"

lemma sample_table:
  "\<exists>ar j. jobs_push [] jobs_default sample_job (Some sample_entry) = Some (ar, j) \<and> jobs_inv ar j \<and>
    jobs_len j = 1 \<and> jobs_list ar j = [sample_job] \<and> destinations j = [Some sample_entry]"
proof -
  have "jobs_list [] jobs_default = []" "destinations jobs_default = []"
    by (simp_all add: jobs_list_def jobs_len_def jobs_default_def)
  with jobs_push_ok [of "[]" jobs_default sample_job "Some sample_entry"] show ?thesis
    by (auto simp: jobs_len_def)
qed





end
