(* ===== verification/Fast_Batch.thy ===== *)
theory Fast_Batch
  imports Syq_Prelude
begin

section \<open>Groups of a small-file batch\<close>

text \<open>
  \<open>FastGroup\<close> and \<open>FastBatchState\<close> of \<open>src/src/sched.rs\<close>: the unread groups of a pipelined
  small-file batch. The owner claims files from the front group right before it issues their
  read; other workers steal whole groups from the back.
\<close>

record fast_group =
  fg_start :: nat
  fg_end :: nat
  fg_bytes :: nat

record fast_batch =
  fb_files :: "(nat \<times> nat) list"
  fb_groups :: "fast_group list"
  fb_owned :: "bool list"

function claim_scan ::
  "(nat \<times> nat) list \<Rightarrow> nat \<Rightarrow> nat \<Rightarrow> nat \<Rightarrow> nat \<Rightarrow> nat \<Rightarrow> nat \<Rightarrow> (nat \<times> nat) option" where
  "claim_scan files gend max_files max_bytes start end' bytes =
    (if end' < gend then
       (case vec_get files end' of
          None \<Rightarrow> None
        | Some (size', _) \<Rightarrow>
            if start < end' \<and> (end' - start \<ge> max_files \<or> sat_add bytes size' > max_bytes)
            then Some (end', bytes)
            else (case uadd bytes size' of
                    None \<Rightarrow> None
                  | Some bytes' \<Rightarrow> claim_scan files gend max_files max_bytes start (end' + 1) bytes'))
     else Some (end', bytes))"
  by pat_completeness auto
termination
  by (relation "measure (\<lambda>(_, gend, _, _, _, end', _). gend - end')") auto

declare claim_scan.simps [simp del]

definition fb_claim ::
  "fast_batch \<Rightarrow> nat \<Rightarrow> nat \<Rightarrow> ((nat \<times> nat) option \<times> fast_batch) option" where
  "fb_claim b max_files max_bytes = (case fb_groups b of
     [] \<Rightarrow> Some (None, b)
   | grp # rest \<Rightarrow> do {
       let start = fg_start grp;
       (end', bytes) \<leftarrow> claim_scan (fb_files b) (fg_end grp) max_files max_bytes start start 0;
       left \<leftarrow> usub (fg_bytes grp) bytes;
       let grp' = grp\<lparr>fg_bytes := left, fg_start := end'\<rparr>;
       Some (Some (start, end'),
             b\<lparr>fb_groups := (if fg_start grp' < fg_end grp' then grp' # rest else rest)\<rparr>) })"

subsection \<open>The invariant\<close>

definition span_bytes :: "(nat \<times> nat) list \<Rightarrow> nat \<Rightarrow> nat \<Rightarrow> nat" where
  "span_bytes files a b = sum_list (map fst (take (b - a) (drop a files)))"

definition group_ok :: "(nat \<times> nat) list \<Rightarrow> fast_group \<Rightarrow> bool" where
  "group_ok files g \<longleftrightarrow> fg_start g < fg_end g \<and> fg_end g \<le> length files \<and>
     fg_bytes g = span_bytes files (fg_start g) (fg_end g)"

definition fb_inv :: "fast_batch \<Rightarrow> bool" where
  "fb_inv b \<longleftrightarrow> length (fb_owned b) = length (fb_files b) \<and>
     sum_list (map fst (fb_files b)) \<le> u64_max \<and>
     (\<forall>g\<in>set (fb_groups b). group_ok (fb_files b) g \<and> (\<forall>i\<in>{fg_start g..<fg_end g}. fb_owned b ! i)) \<and>
     sorted_wrt (\<lambda>g h. fg_end g \<le> fg_start h) (fb_groups b)"

definition fb_pending :: "fast_batch \<Rightarrow> nat list" where
  "fb_pending b = concat (map (\<lambda>g. [fg_start g..<fg_end g]) (fb_groups b))"

lemma span_bytes_self [simp]: "span_bytes files a a = 0"
  by (simp add: span_bytes_def)

lemma span_bytes_Suc:
  "a \<le> b \<Longrightarrow> b < length files \<Longrightarrow> span_bytes files a (Suc b) = span_bytes files a b + fst (files ! b)"
  by (simp add: span_bytes_def Suc_diff_le take_Suc_conv_app_nth)

lemma span_bytes_split:
  assumes "a \<le> b" "b \<le> c"
  shows "span_bytes files a c = span_bytes files a b + span_bytes files b c"
proof -
  have "take (c - a) (drop a files) = take (b - a) (drop a files) @ take (c - b) (drop b files)"
    using assms take_add [of "b - a" "c - b" "drop a files"] by simp
  then show ?thesis by (simp add: span_bytes_def)
qed

lemma span_bytes_le: "span_bytes files a b \<le> sum_list (map fst files)"
proof -
  have "sum_list (map fst (take n (drop a files))) \<le> sum_list (map fst files)" for n
    by (metis append_take_drop_id le_add1 le_add2 map_append order_trans sum_list_append)
  then show ?thesis by (simp add: span_bytes_def)
qed

text \<open>What a claim may take: at least one file, and more only within both limits.\<close>

definition within_limits :: "(nat \<times> nat) list \<Rightarrow> nat \<Rightarrow> nat \<Rightarrow> nat \<Rightarrow> nat \<Rightarrow> bool" where
  "within_limits files max_files max_bytes a b \<longleftrightarrow>
     b - a \<le> 1 \<or> (b - a \<le> max_files \<and> span_bytes files a b \<le> max_bytes)"

lemma claim_scan_ok:
  assumes "start \<le> e" "e \<le> gend" "gend \<le> length files" "bytes = span_bytes files start e"
    "sum_list (map fst files) \<le> u64_max" "within_limits files max_files max_bytes start e"
  shows "\<exists>e'. claim_scan files gend max_files max_bytes start e bytes = Some (e', span_bytes files start e') \<and>
    e \<le> e' \<and> e' \<le> gend \<and> (start < gend \<longrightarrow> start < e') \<and>
    within_limits files max_files max_bytes start e' \<and>
    (e' < gend \<longrightarrow> \<not> within_limits files max_files max_bytes start (Suc e'))"
  using assms
proof (induction "gend - e" arbitrary: e bytes)
  case 0
  then show ?case by (subst claim_scan.simps) auto
next
  case (Suc n)
  then have e: "e < gend" "e < length files" by simp_all
  obtain sz x where f: "files ! e = (sz, x)" by fastforce
  have next_bytes: "span_bytes files start (Suc e) = bytes + sz"
    using Suc.prems e f by (simp add: span_bytes_Suc)
  then have fits: "bytes + sz \<le> u64_max"
    using span_bytes_le [of files start "Suc e"] Suc.prems(5) by simp
  show ?case
  proof (cases "start < e \<and> (e - start \<ge> max_files \<or> bytes + sz > max_bytes)")
    case True
    then have "\<not> within_limits files max_files max_bytes start (Suc e)"
      using next_bytes by (auto simp: within_limits_def)
    with True Suc.prems e f fits show ?thesis
      by (subst claim_scan.simps) (auto simp: vec_get_def sat_add_ok)
  next
    case False
    then have lim: "within_limits files max_files max_bytes start (Suc e)"
      using next_bytes Suc.prems(1,6) by (auto simp: within_limits_def)
    have n: "n = gend - Suc e" using Suc.hyps(2) by simp
    from Suc.hyps(1) [OF n, of "bytes + sz"] Suc.prems e next_bytes lim
    obtain e' where e': "claim_scan files gend max_files max_bytes start (Suc e) (bytes + sz)
          = Some (e', span_bytes files start e')" "Suc e \<le> e'" "e' \<le> gend"
        "within_limits files max_files max_bytes start e'"
        "e' < gend \<longrightarrow> \<not> within_limits files max_files max_bytes start (Suc e')"
      by auto
    have "claim_scan files gend max_files max_bytes start e bytes = Some (e', span_bytes files start e')"
      using e f fits False e'(1) by (subst claim_scan.simps) (auto simp: vec_get_def sat_add_ok uadd_ok)
    with e' Suc.prems(1) show ?thesis by auto
  qed
qed

lemma fb_claim_ok:
  assumes inv: "fb_inv b" and gs: "fb_groups b = g # rest"
  shows "\<exists>e b'. fb_claim b max_files max_bytes = Some (Some (fg_start g, e), b') \<and> fb_inv b' \<and>
    fg_start g < e \<and> e \<le> fg_end g \<and> fb_pending b = [fg_start g..<e] @ fb_pending b' \<and>
    within_limits (fb_files b) max_files max_bytes (fg_start g) e \<and>
    (e < fg_end g \<longrightarrow> \<not> within_limits (fb_files b) max_files max_bytes (fg_start g) (Suc e)) \<and>
    fb_files b' = fb_files b \<and> fb_owned b' = fb_owned b"
proof -
  have g: "fg_start g < fg_end g" "fg_end g \<le> length (fb_files b)"
      "fg_bytes g = span_bytes (fb_files b) (fg_start g) (fg_end g)"
      "\<forall>i\<in>{fg_start g..<fg_end g}. fb_owned b ! i"
    using inv gs by (auto simp: fb_inv_def group_ok_def)
  have "within_limits (fb_files b) max_files max_bytes (fg_start g) (fg_start g)"
    by (simp add: within_limits_def)
  from claim_scan_ok [OF _ _ g(2) _ _ this, of 0] g inv
  obtain e where e: "claim_scan (fb_files b) (fg_end g) max_files max_bytes (fg_start g) (fg_start g) 0
        = Some (e, span_bytes (fb_files b) (fg_start g) e)" "fg_start g < e" "e \<le> fg_end g"
      "within_limits (fb_files b) max_files max_bytes (fg_start g) e"
      "e < fg_end g \<longrightarrow> \<not> within_limits (fb_files b) max_files max_bytes (fg_start g) (Suc e)"
    by (auto simp: fb_inv_def)
  have split: "fg_bytes g = span_bytes (fb_files b) (fg_start g) e + span_bytes (fb_files b) e (fg_end g)"
    unfolding g(3) using e by (intro span_bytes_split) simp_all
  let ?g = "g\<lparr>fg_bytes := span_bytes (fb_files b) e (fg_end g), fg_start := e\<rparr>"
  let ?b = "b\<lparr>fb_groups := (if e < fg_end g then ?g # rest else rest)\<rparr>"
  have "fb_claim b max_files max_bytes = Some (Some (fg_start g, e), ?b)"
    using gs e(1) split by (simp add: fb_claim_def usub_le)
  moreover have "fb_inv ?b"
    using inv gs g e(2,3) by (auto simp: fb_inv_def group_ok_def)
  moreover have "[fg_start g..<fg_end g] = [fg_start g..<e] @ [e..<fg_end g]"
    using e(2,3) upt_add_eq_append [of "fg_start g" e "fg_end g - e"] by simp
  then have "fb_pending b = [fg_start g..<e] @ fb_pending ?b"
    using gs e(3) by (auto simp: fb_pending_def)
  ultimately show ?thesis using e(2-5) by auto
qed

subsection \<open>The property\<close>

text \<open>C30. A reader of a shared small-file batch claims a run of unread files: the claim never
  panics, takes the first unread files of the first group in order, at least one, keeps to the
  file and byte limits unless a single file exceeds them, and stops before the end of the group
  only when one more file would exceed a limit. What it leaves is exactly the rest.\<close>

theorem fast_claim_takes_prefix:
  assumes "fb_inv b" "fb_groups b = g # rest"
  shows "\<exists>e b'. fb_claim b max_files max_bytes = Some (Some (fg_start g, e), b') \<and> fb_inv b' \<and>
    fg_start g < e \<and> e \<le> fg_end g \<and> fb_pending b = [fg_start g..<e] @ fb_pending b' \<and>
    within_limits (fb_files b) max_files max_bytes (fg_start g) e \<and>
    (e = fg_end g \<or> \<not> within_limits (fb_files b) max_files max_bytes (fg_start g) (Suc e))"
  using fb_claim_ok [OF assms, of max_files max_bytes] by fastforce

definition sample_batch :: fast_batch where
  "sample_batch = \<lparr>fb_files = [(5, 0), (6, 1), (7, 2)],
     fb_groups = [\<lparr>fg_start = 0, fg_end = 3, fg_bytes = 18\<rparr>], fb_owned = [True, True, True]\<rparr>"

theorem fast_claim_takes_prefix_witness:
  "\<exists>e b'. fb_claim sample_batch 10 12 = Some (Some (0, e), b') \<and> e \<noteq> 0 \<and> e \<le> 3 \<and>
    fb_pending sample_batch = [0..<e] @ fb_pending b'"
proof -
  have "fb_inv sample_batch"
    by (auto simp: sample_batch_def fb_inv_def group_ok_def span_bytes_def u64_max_def nth_Cons')
  from fast_claim_takes_prefix [OF this, of "\<lparr>fg_start = 0, fg_end = 3, fg_bytes = 18\<rparr>" "[]" 10 12]
  show ?thesis by (auto simp: sample_batch_def)
qed

end
