(* ===== verification/Scheduler.thy ===== *)
theory Scheduler
  imports Range_Queue File_Queue Jobs Fast_Batch
begin

section \<open>The scheduler\<close>

text \<open>
  \<open>RangeState\<close>, \<open>Inner\<close>, \<open>Item\<close>, \<open>RangeWork\<close> and \<open>Sched\<close> of \<open>src/src/sched.rs\<close>. Every
  method runs under the scheduler's mutex, so each is a function on the state; what a worker
  does to a range it holds, under the mutex of the range alone, is a separate step.

  A \<open>RangeHandle\<close> or \<open>FastBatchHandle\<close> (\<open>Arc<Mutex<..>>\<close>) is an address into a store of the
  state. \<open>Arc::ptr_eq\<close> is equality of addresses. The record \<open>sched\<close> extends \<open>inner\<close>, which
  extends the stores. Calls on the two condition variables are recorded in \<open>signals\<close>, newest
  first. \<open>sched_next\<close> is one pass of the loop of \<open>next\<close>: it returns an item, or registers
  the worker as waiting; \<open>sched_next_woken\<close> is the pass after a wake-up.
\<close>

subsection \<open>State\<close>

record range_split =
  rs_block :: nat
  rs_minimum :: nat

record range_state =
  r_idx :: nat
  r_pos :: nat
  r_end :: nat
  r_split :: "range_split option"

datatype item = ItemFile nat | ItemRange nat | ItemFinish nat bool | ItemExit

datatype range_claim = Cancelled | Ready "nat option"

datatype signal = NotifyOne | NotifyAll | TuneOne

record shared_cells =
  range_store :: "range_state list"
  batch_store :: "fast_batch list"
  job_arena :: arena

record inner = shared_cells +
  files :: file_queue
  ranges :: range_queue
  finishes :: "(nat \<times> bool) list"
  finishing :: nat
  inflight :: "nat list"
  outstanding :: "nat \<rightharpoonup> nat"
  failed :: "nat set"
  probing :: nat
  waiting_workers :: nat
  fast_probing :: nat
  fast_batches :: nat
  fast_groups :: "nat list"
  file_work_anticipated :: bool
  scan_done :: bool
  work_released :: bool
  abort :: bool

record sched = inner +
  direct_fallback_workers :: nat
  initial_range_workers :: nat
  tune_request :: nat
  job_table :: jobs
  block :: nat
  min_split :: nat
  receiver_holds :: "nat set"
  setups_cancelled :: bool
  signals :: "signal list"

definition sched_new :: "nat \<Rightarrow> nat \<Rightarrow> sched" where
  "sched_new block' min_split' =
     \<lparr>range_store = [], batch_store = [], job_arena = [],
      files = fq_default, ranges = rq_default, finishes = [], finishing = 0, inflight = [],
      outstanding = Map.empty, failed = {}, probing = 0, waiting_workers = 0, fast_probing = 0,
      fast_batches = 0, fast_groups = [], file_work_anticipated = False, scan_done = False,
      work_released = False, abort = False,
      direct_fallback_workers = 0, initial_range_workers = 0, tune_request = 0,
      job_table = jobs_default, block = block', min_split = max min_split' (2 * block'),
      receiver_holds = {}, setups_cancelled = False, signals = []\<rparr>"

definition notify :: "signal \<Rightarrow> sched \<Rightarrow> sched" where
  "notify sig s = s\<lparr>signals := sig # signals s\<rparr>"

subsection \<open>Inner\<close>

definition claim_range :: "nat \<Rightarrow> nat \<Rightarrow> nat \<Rightarrow> sched \<Rightarrow> nat \<times> sched" where
  "claim_range idx off end' g =
     (length (range_store g),
      g\<lparr>range_store := range_store g @ [\<lparr>r_idx = idx, r_pos = off, r_end = end', r_split = None\<rparr>],
        inflight := inflight g @ [length (range_store g)]\<rparr>)"

definition finished :: "sched \<Rightarrow> bool" where
  "finished g \<longleftrightarrow> scan_done g \<and> probing g = 0 \<and> finishing g = 0 \<and> inflight g = [] \<and>
     fq_is_empty (files g) \<and> rq_is_empty (ranges g) \<and> finishes g = []"

definition end_unneeded_worker_setups :: "sched \<Rightarrow> sched" where
  "end_unneeded_worker_setups s =
     (if abort s \<or> finished s then s\<lparr>setups_cancelled := True\<rparr> else s)"

subsection \<open>Planning\<close>

definition queue_file :: "nat \<Rightarrow> nat \<Rightarrow> sched \<Rightarrow> sched option" where
  "queue_file size' idx s = do {
     q \<leftarrow> fq_push (files s) (file_item_of size' idx);
     Some (s\<lparr>files := q\<rparr>) }"

definition push_file :: "file_job_data \<Rightarrow> entry option \<Rightarrow> sched \<Rightarrow> (nat \<times> sched) option" where
  "push_file data dst_entry s = do {
     let size' = e_size (job_entry data);
     (ar, j) \<leftarrow> jobs_push (job_arena s) (job_table s) data dst_entry;
     idx \<leftarrow> usub (jobs_len j) 1;
     snapshot \<leftarrow> current j idx;
     job \<leftarrow> snapshot_borrow ar snapshot;
     let s1 = s\<lparr>job_arena := ar, job_table := j, files := fq_register (files s) idx (dst_path job)\<rparr>;
     s2 \<leftarrow> queue_file size' idx s1;
     let first_work = \<not> file_work_anticipated s2;
     let s3 = s2\<lparr>file_work_anticipated := True\<rparr>;
     let runnable = scan_done s3 \<or> work_released s3;
     Some (idx, if first_work then notify NotifyAll s3
                else if runnable then notify NotifyOne s3 else s3) }"

definition clear_finished_work :: "sched \<Rightarrow> sched" where
  "clear_finished_work s = s\<lparr>job_table := jobs_release (job_table s), files := fq_default,
     ranges := rq_default, finishes := [], inflight := [], fast_groups := [],
     outstanding := Map.empty, failed := {}\<rparr>"

definition anticipate_file_work :: "sched \<Rightarrow> sched" where
  "anticipate_file_work s =
     (let first = \<not> file_work_anticipated s; s1 = s\<lparr>file_work_anticipated := True\<rparr>
      in if first then notify NotifyAll s1 else s1)"

text \<open>One pass of the wait: \<^const>\<open>None\<close> is another wait on the condition variable.\<close>

definition wait_for_anticipated_file_work :: "sched \<Rightarrow> bool option" where
  "wait_for_anticipated_file_work s =
     (if file_work_anticipated s then Some True
      else if scan_done s \<or> abort s then Some False
      else None)"

definition release_preflighted_work :: "sched \<Rightarrow> sched" where
  "release_preflighted_work s = notify NotifyAll (s\<lparr>work_released := True\<rparr>)"

definition sched_scan_done :: "sched \<Rightarrow> sched" where
  "sched_scan_done s =
     end_unneeded_worker_setups (notify TuneOne (notify NotifyAll (s\<lparr>scan_done := True\<rparr>)))"

definition sched_abort :: "sched \<Rightarrow> sched" where
  "sched_abort s = (notify TuneOne (notify NotifyAll (s\<lparr>abort := True\<rparr>)))\<lparr>setups_cancelled := True\<rparr>"

subsection \<open>Worker counts\<close>

definition request_worker_count :: "nat \<Rightarrow> sched \<Rightarrow> sched" where
  "request_worker_count workers s = notify TuneOne (s\<lparr>tune_request := max (tune_request s) workers\<rparr>)"

definition arm_direct_fallback :: "nat \<Rightarrow> sched \<Rightarrow> sched" where
  "arm_direct_fallback workers s = s\<lparr>direct_fallback_workers := workers\<rparr>"

definition reserve_initial_ranges :: "nat \<Rightarrow> sched \<Rightarrow> sched" where
  "reserve_initial_ranges workers s = s\<lparr>initial_range_workers := workers\<rparr>"

definition request_direct_fallback :: "sched \<Rightarrow> sched" where
  "request_direct_fallback s =
     (let workers = direct_fallback_workers s
      in if workers > 0 then request_worker_count workers s else s)"

definition take_worker_count_request :: "sched \<Rightarrow> nat \<times> sched" where
  "take_worker_count_request s = (tune_request s, s\<lparr>tune_request := 0\<rparr>)"

text \<open>Whether \<open>wait_for_tuning\<close> goes to sleep.\<close>

definition tuning_waits :: "sched \<Rightarrow> bool" where
  "tuning_waits s \<longleftrightarrow> tune_request s = 0 \<and> \<not> abort s \<and> \<not> finished s"

subsection \<open>Failures and receiver holds\<close>

definition hold_at_receiver :: "nat \<Rightarrow> sched \<Rightarrow> sched" where
  "hold_at_receiver idx s = s\<lparr>receiver_holds := insert idx (receiver_holds s)\<rparr>"

definition receiver_published :: "nat \<Rightarrow> sched \<Rightarrow> sched" where
  "receiver_published idx s = s\<lparr>receiver_holds := receiver_holds s - {idx}\<rparr>"

definition take_receiver_hold :: "nat \<Rightarrow> sched \<Rightarrow> bool \<times> sched" where
  "take_receiver_hold idx s =
     (idx \<in> receiver_holds s, s\<lparr>receiver_holds := receiver_holds s - {idx}\<rparr>)"

definition fail_file :: "nat \<Rightarrow> sched \<Rightarrow> bool \<times> sched" where
  "fail_file idx s = (idx \<notin> failed s, s\<lparr>failed := insert idx (failed s)\<rparr>)"

definition is_failed :: "nat \<Rightarrow> sched \<Rightarrow> bool" where
  "is_failed idx s \<longleftrightarrow> idx \<in> failed s"

subsection \<open>Returning files to the queue\<close>

definition job_size :: "sched \<Rightarrow> nat \<Rightarrow> nat option" where
  "job_size s idx = do { d \<leftarrow> jobs_index (job_arena s) (job_table s) idx; Some (e_size (job_entry d)) }"

definition requeue :: "nat \<Rightarrow> sched \<Rightarrow> sched option" where
  "requeue idx s = do {
     size' \<leftarrow> job_size s idx;
     s1 \<leftarrow> queue_file size' idx s;
     Some (notify NotifyOne s1) }"

definition requeue_probed :: "nat \<Rightarrow> sched \<Rightarrow> sched option" where
  "requeue_probed idx s = do {
     size' \<leftarrow> job_size s idx;
     p \<leftarrow> usub (probing s) 1;
     s1 \<leftarrow> queue_file size' idx (s\<lparr>probing := p\<rparr>);
     Some (notify NotifyAll s1) }"

subsection \<open>Small-file batches\<close>

definition begin_fast_batch :: "nat \<Rightarrow> nat \<Rightarrow> sched \<Rightarrow> (nat \<times> sched) option" where
  "begin_fast_batch active max_n s = do {
     ensure (probing s > fast_probing s);
     let available_workers = max (active - fast_batches s) 1;
     let available_files = fq_count (files s) + 1;
     ensure (1 \<le> max_n);
     let target = min (max (div_ceil available_files available_workers) 1) max_n;
     Some (target, s\<lparr>fast_probing := fast_probing s + 1, fast_batches := fast_batches s + 1\<rparr>) }"

definition mark_fast :: "nat \<Rightarrow> sched \<Rightarrow> sched option" where
  "mark_fast n s = do {
     let s1 = s\<lparr>fast_probing := fast_probing s + n\<rparr>;
     ensure (fast_probing s1 \<le> probing s1);
     Some s1 }"

definition group_slice :: "(nat \<times> nat) list \<Rightarrow> nat \<times> nat \<Rightarrow> (nat \<times> nat) list option" where
  "group_slice fs r = (case r of (a, b) \<Rightarrow> do {
     ensure (a \<le> b \<and> b \<le> length fs);
     Some (take (b - a) (drop a fs)) })"

fun make_groups :: "(nat \<times> nat) list \<Rightarrow> (nat \<times> nat) list \<Rightarrow> fast_group list option" where
  "make_groups fs [] = Some []"
| "make_groups fs (r # rs) = do {
     slice \<leftarrow> group_slice fs r;
     gs \<leftarrow> make_groups fs rs;
     Some (\<lparr>fg_start = fst r, fg_end = snd r, fg_bytes = sum_list (map fst slice)\<rparr> # gs) }"

definition share_fast_groups ::
  "(nat \<times> nat) list \<Rightarrow> (nat \<times> nat) list \<Rightarrow> sched \<Rightarrow> (((nat \<times> nat) \<times> nat) \<times> sched) option" where
  "share_fast_groups fs groups' s = (case groups' of
     [] \<Rightarrow> None
   | first # rest \<Rightarrow> do {
       let shareable = (rest \<noteq> []);
       gs \<leftarrow> make_groups fs rest;
       let handle = length (batch_store s);
       let s1 = s\<lparr>batch_store := batch_store s @
         [\<lparr>fb_files = fs, fb_groups = gs, fb_owned = replicate (length fs) True\<rparr>]\<rparr>;
       Some ((first, handle),
             if shareable then notify NotifyAll (s1\<lparr>fast_groups := fast_groups s1 @ [handle]\<rparr>) else s1) })"

definition finish_fast_groups :: "nat \<Rightarrow> sched \<Rightarrow> (bool list \<times> sched) option" where
  "finish_fast_groups handle s = do {
     b \<leftarrow> vec_get (batch_store s) handle;
     Some (fb_owned b, s\<lparr>fast_groups := filter (\<lambda>h. h \<noteq> handle) (fast_groups s)\<rparr>) }"

text \<open>The owner's claim, under the mutex of the batch alone.\<close>

definition claim_fast :: "nat \<Rightarrow> nat \<Rightarrow> nat \<Rightarrow> sched \<Rightarrow> ((nat \<times> nat) option \<times> sched) option" where
  "claim_fast handle max_files max_bytes s = do {
     b \<leftarrow> vec_get (batch_store s) handle;
     (r, b') \<leftarrow> fb_claim b max_files max_bytes;
     Some (r, s\<lparr>batch_store := (batch_store s)[handle := b']\<rparr>) }"

fun queue_files :: "(nat \<times> nat) list \<Rightarrow> sched \<Rightarrow> sched option" where
  "queue_files [] s = Some s"
| "queue_files ((size', idx) # fs) s = do { s1 \<leftarrow> queue_file size' idx s; queue_files fs s1 }"

fun steal_fast_from :: "nat list \<Rightarrow> sched \<Rightarrow> (nat option \<times> sched) option" where
  "steal_fast_from [] s = Some (None, s)"
| "steal_fast_from (handle # hs) s = do {
     batch \<leftarrow> vec_get (batch_store s) handle;
     (if fb_groups batch = [] then steal_fast_from hs s
      else do {
        let grp = last (fb_groups batch);
        fs \<leftarrow> group_slice (fb_files batch) (fg_start grp, fg_end grp);
        ensure (fg_end grp \<le> length (fb_owned batch));
        let batch' = batch\<lparr>fb_groups := butlast (fb_groups batch),
          fb_owned := take (fg_start grp) (fb_owned batch) @ replicate (fg_end grp - fg_start grp) False
            @ drop (fg_end grp) (fb_owned batch)\<rparr>;
        fp \<leftarrow> usub (fast_probing s) (length fs);
        less \<leftarrow> usub (length fs) 1;
        p \<leftarrow> usub (probing s) less;
        (_, first) \<leftarrow> vec_get fs 0;
        s1 \<leftarrow> queue_files (tl fs)
          (s\<lparr>batch_store := (batch_store s)[handle := batch'], fast_probing := fp, probing := p\<rparr>);
        Some (Some first, notify NotifyAll s1) }) }"

definition steal_fast_group :: "sched \<Rightarrow> (nat option \<times> sched) option" where
  "steal_fast_group s = steal_fast_from (fast_groups s) s"

definition complete_fast_batch :: "nat \<Rightarrow> sched \<Rightarrow> sched option" where
  "complete_fast_batch n s = do {
     ensure (n > 0);
     ensure (probing s \<ge> n \<and> fast_probing s \<ge> n \<and> fast_batches s > 0);
     p \<leftarrow> usub (probing s) n;
     fp \<leftarrow> usub (fast_probing s) n;
     b \<leftarrow> usub (fast_batches s) 1;
     Some (notify NotifyAll (s\<lparr>probing := p, fast_probing := fp, fast_batches := b\<rparr>)) }"

definition take_small_group ::
  "nat option \<Rightarrow> nat \<Rightarrow> nat \<Rightarrow> nat \<Rightarrow> sched \<Rightarrow> (nat list \<times> sched) option" where
  "take_small_group first max_size max_n max_bytes s = do {
     (out, q) \<leftarrow> fq_take_batch (files s) first max_size max_n max_bytes;
     Some (out, s\<lparr>files := q, probing := probing s + length out\<rparr>) }"

definition take_small_near :: "nat \<Rightarrow> nat \<Rightarrow> nat \<Rightarrow> nat \<Rightarrow> sched \<Rightarrow> (nat list \<times> sched) option" where
  "take_small_near first = take_small_group (Some first)"

subsection \<open>Stealing and claiming ranges\<close>

definition remaining :: "range_state \<Rightarrow> nat" where
  "remaining r = r_end r - r_pos r"

definition split_minimum :: "sched \<Rightarrow> range_state \<Rightarrow> nat" where
  "split_minimum s r = (case r_split r of None \<Rightarrow> min_split s | Some p \<Rightarrow> rs_minimum p)"

fun best_victim :: "sched \<Rightarrow> nat list \<Rightarrow> (nat \<times> nat) option \<Rightarrow> (nat \<times> nat) option option" where
  "best_victim s [] best = Some best"
| "best_victim s (h # hs) best = do {
     r \<leftarrow> vec_get (range_store s) h;
     let rem = remaining r;
     best_victim s hs
       (if rem \<ge> 2 * split_minimum s r \<and> (case best of None \<Rightarrow> True | Some (b, _) \<Rightarrow> rem > b)
        then Some (rem, h) else best) }"

text \<open>
  The second half of \<open>steal\<close>, on the chosen victim. The victim's own worker may have moved
  its position since it was chosen, so this half reads the range again.
\<close>

definition steal_split :: "nat \<Rightarrow> sched \<Rightarrow> (nat option \<times> sched) option" where
  "steal_split victim s = do {
     r \<leftarrow> vec_get (range_store s) victim;
     rem \<leftarrow> usub (r_end r) (r_pos r);
     let policy = r_split r;
     let block' = (case policy of None \<Rightarrow> block s | Some p \<Rightarrow> rs_block p);
     ensure (block' \<noteq> 0);
     let split = div_ceil (r_pos r + rem div 2) block' * block';
     (if split \<ge> r_end r \<or> split \<le> r_pos r then Some (None, s)
      else do {
        let s1 = s\<lparr>range_store := (range_store s)[victim := r\<lparr>r_end := split\<rparr>],
          outstanding := (outstanding s)(r_idx r \<mapsto>
            (case outstanding s (r_idx r) of None \<Rightarrow> 0 | Some n \<Rightarrow> n) + 1)\<rparr>;
        let (handle, s2) = claim_range (r_idx r) split (r_end r) s1;
        r2 \<leftarrow> vec_get (range_store s2) handle;
        Some (Some handle, s2\<lparr>range_store := (range_store s2)[handle := r2\<lparr>r_split := policy\<rparr>]\<rparr>) }) }"

definition steal :: "sched \<Rightarrow> (nat option \<times> sched) option" where
  "steal s = do {
     best \<leftarrow> best_victim s (inflight s) None;
     (case best of None \<Rightarrow> Some (None, s) | Some (_, victim) \<Rightarrow> steal_split victim s) }"

definition take_work :: "sched \<Rightarrow> (item option \<times> sched) option" where
  "take_work s = do {
     (rg, q) \<leftarrow> rq_pop (ranges s);
     (case rg of
        Some (idx, off, end') \<Rightarrow>
          (case claim_range idx off end' (s\<lparr>ranges := q\<rparr>) of (h, s1) \<Rightarrow> Some (Some (ItemRange h), s1))
      | None \<Rightarrow>
     (if finishes s \<noteq> [] then
        (case last (finishes s) of (idx, matched) \<Rightarrow>
          Some (Some (ItemFinish idx matched),
                s\<lparr>finishes := butlast (finishes s), finishing := finishing s + 1\<rparr>))
      else do {
     (it, fq) \<leftarrow> fq_pop (files s);
     (case it of
        Some f \<Rightarrow> Some (Some (ItemFile (item_index f)), s\<lparr>files := fq, probing := probing s + 1\<rparr>)
      | None \<Rightarrow> do {
     (h, s1) \<leftarrow> steal s;
     (case h of
        Some h \<Rightarrow> Some (Some (ItemRange h), s1)
      | None \<Rightarrow> do {
     (f, s2) \<leftarrow> steal_fast_group s1;
     Some (map_option ItemFile f, s2) }) }) })) }"

definition sched_next :: "sched \<Rightarrow> (item option \<times> sched) option" where
  "sched_next s =
    (if abort s then Some (Some ItemExit, notify TuneOne s)
     else do {
       (it, s1) \<leftarrow> (if scan_done s \<or> work_released s then take_work s else Some (None, s));
       (case it of
          Some i \<Rightarrow> Some (Some i, s1)
        | None \<Rightarrow>
            if finished s1 then Some (Some ItemExit, notify TuneOne s1)
            else Some (None, s1\<lparr>waiting_workers := waiting_workers s1 + 1\<rparr>)) })"

definition sched_next_woken :: "sched \<Rightarrow> (item option \<times> sched) option" where
  "sched_next_woken s = do {
     w \<leftarrow> usub (waiting_workers s) 1;
     sched_next (s\<lparr>waiting_workers := w\<rparr>) }"

definition range_work :: "nat \<Rightarrow> nat option \<Rightarrow> sched \<Rightarrow> (range_claim \<times> sched) option" where
  "range_work idx max_size s =
    (if abort s \<or> idx \<in> failed s then Some (Cancelled, s)
     else (case max_size of
       None \<Rightarrow> Some (Ready None, s)
     | Some size' \<Rightarrow>
        (if size' = 0 \<or> rq_len (ranges s) \<le> waiting_workers s then Some (Ready None, s)
         else do {
           (rg, q) \<leftarrow> rq_take_short (ranges s) idx size';
           (case rg of
              None \<Rightarrow> Some (Ready None, s\<lparr>ranges := q\<rparr>)
            | Some (idx', off, end') \<Rightarrow>
                (case claim_range idx' off end' (s\<lparr>ranges := q\<rparr>) of
                   (h, s1) \<Rightarrow> Some (Ready (Some h), s1))) })))"

definition take_short_range :: "nat \<Rightarrow> nat \<Rightarrow> sched \<Rightarrow> (nat option \<times> sched) option" where
  "take_short_range idx max_size s =
    (if max_size = 0 then Some (None, s)
     else do {
       (w, s1) \<leftarrow> range_work idx (Some max_size) s;
       Some ((case w of Cancelled \<Rightarrow> None | Ready h \<Rightarrow> h), s1) })"

text \<open>
  A worker's claim of the next bytes of a range it holds: a comparison window
  (\<open>Worker::claim_comparison_window\<close>) or a read request.
\<close>

definition claim_window :: "nat \<Rightarrow> nat \<Rightarrow> sched \<Rightarrow> ((nat \<times> nat) option \<times> sched) option" where
  "claim_window h window s = do {
     r \<leftarrow> vec_get (range_store s) h;
     let start = r_pos r;
     let end' = min (r_end r) (start + window);
     Some (if start < end' then Some (start, end') else None,
           s\<lparr>range_store := (range_store s)[h := r\<lparr>r_pos := end'\<rparr>]\<rparr>) }"

subsection \<open>Registering, finishing and returning ranges\<close>

fun split_parts :: "nat \<Rightarrow> nat \<Rightarrow> nat \<Rightarrow> nat \<Rightarrow> nat \<Rightarrow> nat list \<Rightarrow> (nat \<times> nat) list" where
  "split_parts block' blocks parts end' off [] = []"
| "split_parts block' blocks parts end' off (part # rest) =
    (let n = blocks div parts + (if part < blocks mod parts then 1 else 0);
         lim = (if part + 1 = parts then end' else off + n * block')
     in (off, lim) # split_parts block' blocks parts end' lim rest)"

definition initial_split :: "sched \<Rightarrow> nat \<Rightarrow> (nat \<times> nat) list \<Rightarrow> (nat \<times> nat) list option" where
  "initial_split s workers rs =
    (if workers > 1 \<and> fq_is_empty (files s) \<and> length rs = 1 then
       (case rs ! 0 of (start, end') \<Rightarrow>
         (if block s dvd start then do {
            len \<leftarrow> usub end' start;
            ensure (block s \<noteq> 0);
            let blocks = len div block s;
            ensure (div_ceil (min_split s) (block s) \<noteq> 0);
            let parts = max (min workers (blocks div div_ceil (min_split s) (block s))) 1;
            Some (if parts > 1 then split_parts (block s) blocks parts end' start [0..<parts] else rs) }
          else Some rs))
     else Some rs)"

definition ranges_ready :: "nat \<Rightarrow> (nat \<times> nat) list \<Rightarrow> sched \<Rightarrow> (nat option \<times> sched) option" where
  "ranges_ready idx ranges' s = do {
     p \<leftarrow> usub (probing s) 1;
     let workers = initial_range_workers s;
     let s1 = s\<lparr>probing := p, initial_range_workers := 0\<rparr>;
     rs \<leftarrow> initial_split s1 workers ranges';
     let s2 = (if rs \<noteq> [] then s1\<lparr>outstanding := (outstanding s1)(idx \<mapsto> length rs)\<rparr> else s1);
     let (first, s3) = (case rs of
        [] \<Rightarrow> (None, s2)
      | (off, end') # _ \<Rightarrow> (case claim_range idx off end' s2 of (h, s') \<Rightarrow> (Some h, s')));
     q \<leftarrow> rq_extend (ranges s3) idx (tl rs);
     Some (first, notify NotifyAll (s3\<lparr>ranges := q\<rparr>)) }"

definition drop_inflight :: "nat \<Rightarrow> sched \<Rightarrow> sched" where
  "drop_inflight h s = s\<lparr>inflight := filter (\<lambda>x. x \<noteq> h) (inflight s)\<rparr>"

definition range_done :: "nat \<Rightarrow> sched \<Rightarrow> (bool \<times> sched) option" where
  "range_done h s = do {
     let s1 = drop_inflight h s;
     r \<leftarrow> vec_get (range_store s1) h;
     let idx = r_idx r;
     n \<leftarrow> outstanding s1 idx;
     n' \<leftarrow> usub n 1;
     let done = (n' = 0);
     let s2 = s1\<lparr>outstanding := (outstanding s1)(idx := (if done then None else Some n'))\<rparr>;
     Some (done \<and> \<not> abort s2 \<and> idx \<notin> failed s2, notify NotifyAll s2) }"

definition retry_range :: "nat \<Rightarrow> nat \<Rightarrow> sched \<Rightarrow> sched option" where
  "retry_range h start s = do {
     let s1 = drop_inflight h s;
     r \<leftarrow> vec_get (range_store s1) h;
     s2 \<leftarrow> (if start < r_end r then do {
              q \<leftarrow> rq_push (ranges s1) (r_idx r, start, r_end r);
              Some (s1\<lparr>ranges := q\<rparr>) }
            else do {
              n \<leftarrow> outstanding s1 (r_idx r);
              n' \<leftarrow> usub n 1;
              Some (if n' = 0
                then s1\<lparr>outstanding := (outstanding s1)(r_idx r := None),
                        finishes := finishes s1 @ [(r_idx r, False)]\<rparr>
                else s1\<lparr>outstanding := (outstanding s1)(r_idx r \<mapsto> n')\<rparr>) });
     Some (notify NotifyAll s2) }"

definition release_rest :: "nat \<Rightarrow> sched \<Rightarrow> sched option" where
  "release_rest h s = do {
     r \<leftarrow> vec_get (range_store s) h;
     (if r_end r \<le> r_pos r then Some s
      else do {
        let s1 = s\<lparr>range_store := (range_store s)[h := r\<lparr>r_end := r_pos r\<rparr>],
          outstanding := (outstanding s)(r_idx r \<mapsto>
            (case outstanding s (r_idx r) of None \<Rightarrow> 0 | Some n \<Rightarrow> n) + 1)\<rparr>;
        q \<leftarrow> rq_push (ranges s1) (r_idx r, r_pos r, r_end r);
        Some (notify NotifyAll (s1\<lparr>ranges := q\<rparr>)) }) }"

definition update_range_split :: "nat \<Rightarrow> range_split \<Rightarrow> sched \<Rightarrow> sched option" where
  "update_range_split h split s = do {
     r \<leftarrow> vec_get (range_store s) h;
     Some (if r_split r = Some split then s
           else notify TuneOne (notify NotifyAll
             (s\<lparr>range_store := (range_store s)[h := r\<lparr>r_split := Some split\<rparr>]\<rparr>))) }"

definition return_unstarted :: "item \<Rightarrow> sched \<Rightarrow> sched option" where
  "return_unstarted it s = (case it of
     ItemExit \<Rightarrow> Some s
   | ItemFile idx \<Rightarrow> do {
       size' \<leftarrow> job_size s idx;
       p \<leftarrow> usub (probing s) 1;
       s1 \<leftarrow> queue_file size' idx (s\<lparr>probing := p\<rparr>);
       Some (notify NotifyAll s1) }
   | ItemRange h \<Rightarrow> do {
       let s1 = drop_inflight h s;
       r \<leftarrow> vec_get (range_store s1) h;
       q \<leftarrow> rq_push (ranges s1) (r_idx r, r_pos r, r_end r);
       Some (notify NotifyAll (s1\<lparr>ranges := q\<rparr>)) }
   | ItemFinish idx matched \<Rightarrow> do {
       f \<leftarrow> usub (finishing s) 1;
       Some (notify NotifyAll (s\<lparr>finishes := finishes s @ [(idx, matched)], finishing := f\<rparr>)) })"

definition finish_done :: "sched \<Rightarrow> sched option" where
  "finish_done s = do {
     f \<leftarrow> usub (finishing s) 1;
     Some (notify TuneOne (notify NotifyAll (s\<lparr>finishing := f\<rparr>))) }"

definition requeue_finish :: "nat \<Rightarrow> bool \<Rightarrow> sched \<Rightarrow> sched" where
  "requeue_finish idx matched s = notify NotifyOne (s\<lparr>finishes := finishes s @ [(idx, matched)]\<rparr>)"

subsection \<open>What the tuner sees\<close>

definition needs_worker_capacity :: "sched \<Rightarrow> bool" where
  "needs_worker_capacity s \<longleftrightarrow>
     \<not> fq_is_empty (files s) \<or> \<not> rq_is_empty (ranges s) \<or> finishes s \<noteq> [] \<or> probing s > fast_probing s \<or>
     list_ex (\<lambda>h. fb_groups (batch_store s ! h) \<noteq> []) (fast_groups s) \<or>
     list_ex (\<lambda>h. r_pos (range_store s ! h) < r_end (range_store s ! h)) (inflight s)"

record tuning_evidence =
  tw_scan_done :: bool
  remaining_bytes :: nat
  queued_files :: nat
  unread_batch_files :: nat
  unread_batch_bytes :: nat
  work_units :: nat
  minimum_split :: nat
  workers :: nat
  activity :: nat
  minimum_activity :: nat
  parallel :: bool
  sufficient :: bool

definition unread_groups :: "sched \<Rightarrow> fast_group list" where
  "unread_groups s = concat (map (\<lambda>h. fb_groups (batch_store s ! h)) (fast_groups s))"

fun ilog2 :: "nat \<Rightarrow> nat" where
  "ilog2 n = (if n < 2 then 0 else ilog2 (n div 2) + 1)"

declare ilog2.simps [simp del]

definition balanced_shares :: "nat \<Rightarrow> nat" where
  "balanced_shares shares = (if shares = 0 then 0 else 2 ^ ilog2 shares)"

definition extra_units :: "range_state \<Rightarrow> nat option" where
  "extra_units r = (case r_split r of
     None \<Rightarrow> Some 0
   | Some sp \<Rightarrow> do {
       ensure (rs_minimum sp \<noteq> 0);
       Some (balanced_shares (remaining r div rs_minimum sp) - 1) })"

fun add_units :: "range_state list \<Rightarrow> nat \<Rightarrow> nat option" where
  "add_units [] units = Some units"
| "add_units (r # rs) units = do { u \<leftarrow> extra_units r; add_units rs (sat_add units (min u u64_max)) }"

definition tuning_work :: "nat \<Rightarrow> nat \<Rightarrow> nat \<Rightarrow> sched \<Rightarrow> tuning_evidence option" where
  "tuning_work n min_activity file_credit s =
    (let ev = \<lparr>tw_scan_done = scan_done s, remaining_bytes = 0, queued_files = 0,
       unread_batch_files = 0, unread_batch_bytes = 0, work_units = 0, minimum_split = min_split s,
       workers = n, activity = 0, minimum_activity = min_activity, parallel = False, sufficient = False\<rparr>
     in if \<not> scan_done s then Some ev
     else do {
       let live = map (\<lambda>h. range_store s ! h) (inflight s);
       let groups' = unread_groups s;
       let ubf = sum_list (map (\<lambda>g. fg_end g - fg_start g) groups');
       let ubb = sum_list (map fg_bytes groups');
       let bytes = fq_bytes (files s) + rq_bytes (ranges s) + sum_list (map remaining live) + ubb;
       let available_files = fq_count (files s) + ubf;
       units \<leftarrow> add_units live (available_files + rq_len (ranges s) + length (inflight s));
       let act = sat_add bytes (sat_mul available_files file_credit);
       let par = (units \<ge> n \<or> bytes \<ge> sat_mul n (min_split s));
       Some (ev\<lparr>unread_batch_files := ubf, unread_batch_bytes := ubb, remaining_bytes := bytes,
         queued_files := fq_count (files s), activity := act, work_units := units,
         parallel := par, sufficient := par \<and> act \<ge> min_activity\<rparr>) })"

definition work_left_for :: "nat \<Rightarrow> nat \<Rightarrow> nat \<Rightarrow> sched \<Rightarrow> bool option" where
  "work_left_for n min_activity file_credit s =
     map_option sufficient (tuning_work n min_activity file_credit s)"

end
