(* ===== verification/Sched_Ranges.thy ===== *)
theory Sched_Ranges
  imports Scheduler
begin

section \<open>Who owes which bytes\<close>

text \<open>
  The accounting of byte ranges in the scheduler. A piece \<open>(file, from, to)\<close> is a queued range,
  or an in-flight handle from where its claim began to its current end. Where a claim began is
  not in the code's state (a worker keeps it on its stack and passes it to \<open>retry_range\<close>), so
  the list \<open>lo\<close> of these offsets, one for each handle ever made, is carried beside it.
\<close>

type_synonym piece = "nat \<times> nat \<times> nat"

definition piece_of :: "range_state list \<Rightarrow> nat list \<Rightarrow> nat \<Rightarrow> piece" where
  "piece_of st lo h = (r_idx (st ! h), lo ! h, r_end (st ! h))"

definition pieces :: "nat list \<Rightarrow> range_state list \<Rightarrow> nat list \<Rightarrow> range_queue \<Rightarrow> piece multiset" where
  "pieces lo st infl q = rq_items q + image_mset (piece_of st lo) (mset infl)"

text \<open>How often a byte of a file is owed, and how many pieces of a file there are.\<close>

definition cover :: "piece multiset \<Rightarrow> nat \<Rightarrow> nat \<Rightarrow> nat" where
  "cover M idx b = size (filter_mset (\<lambda>(i, a, e). i = idx \<and> a \<le> b \<and> b < e) M)"

definition owed :: "piece multiset \<Rightarrow> nat \<Rightarrow> nat" where
  "owed M idx = size (filter_mset (\<lambda>p. fst p = idx) M)"

definition handles_ok :: "nat list \<Rightarrow> range_state list \<Rightarrow> nat list \<Rightarrow> bool" where
  "handles_ok lo st infl \<longleftrightarrow> length lo = length st \<and> distinct infl \<and>
     (\<forall>h\<in>set infl. h < length st \<and> lo ! h \<le> r_pos (st ! h) \<and> r_pos (st ! h) \<le> r_end (st ! h)) \<and>
     (\<forall>r\<in>set st. \<forall>sp. r_split r = Some sp \<longrightarrow> rs_block sp \<noteq> 0 \<and> rs_minimum sp \<noteq> 0)"

definition counts_ok :: "piece multiset \<Rightarrow> (nat \<rightharpoonup> nat) \<Rightarrow> bool" where
  "counts_ok M out \<longleftrightarrow> (\<forall>idx. out idx = (if owed M idx = 0 then None else Some (owed M idx)))"

definition ranges_ok ::
  "nat list \<Rightarrow> range_state list \<Rightarrow> nat list \<Rightarrow> range_queue \<Rightarrow> (nat \<rightharpoonup> nat) \<Rightarrow> bool" where
  "ranges_ok lo st infl q out \<longleftrightarrow>
     rq_inv q \<and> (\<forall>(i, a, e)\<in>#rq_items q. a < e) \<and> handles_ok lo st infl \<and>
     (\<forall>idx b. cover (pieces lo st infl q) idx b \<le> 1) \<and> counts_ok (pieces lo st infl q) out"

lemma cover_simps [simp]:
  "cover {#} idx b = 0" "cover (M + N) idx b = cover M idx b + cover N idx b"
  "cover (add_mset (i, a, e) M) idx b = (if i = idx \<and> a \<le> b \<and> b < e then 1 else 0) + cover M idx b"
  by (simp_all add: cover_def)

lemma owed_simps [simp]:
  "owed {#} idx = 0" "owed (M + N) idx = owed M idx + owed N idx"
  "owed (add_mset p M) idx = (if fst p = idx then 1 else 0) + owed M idx"
  by (simp_all add: owed_def)

text \<open>Cutting a piece in two changes no byte's count, and adds one piece of the file.\<close>

lemma cover_cut:
  "a \<le> m \<Longrightarrow> m \<le> e \<Longrightarrow> cover (add_mset (i, a, m) (add_mset (i, m, e) M)) = cover (add_mset (i, a, e) M)"
  by (intro ext) auto

lemma handles_okD:
  assumes "handles_ok lo st infl"
  shows "length lo = length st" "distinct infl"
    "h \<in> set infl \<Longrightarrow> h < length st" "h \<in> set infl \<Longrightarrow> lo ! h \<le> r_pos (st ! h)"
    "h \<in> set infl \<Longrightarrow> r_pos (st ! h) \<le> r_end (st ! h)"
    "r \<in> set st \<Longrightarrow> r_split r = Some sp \<Longrightarrow> rs_block sp \<noteq> 0 \<and> rs_minimum sp \<noteq> 0"
  using assms unfolding handles_ok_def by blast+

lemma ranges_okD:
  assumes "ranges_ok lo st infl q out"
  shows "rq_inv q" "(i, a, e) \<in># rq_items q \<Longrightarrow> a < e" "handles_ok lo st infl"
    "cover (pieces lo st infl q) idx b \<le> 1" "counts_ok (pieces lo st infl q) out"
  using assms unfolding ranges_ok_def by blast+

text \<open>
  The piece of one handle apart from the rest, and what the changes the scheduler makes do to
  the pieces: a new handle, a handle retired, an end or position moved.
\<close>

definition others :: "nat list \<Rightarrow> range_state list \<Rightarrow> nat list \<Rightarrow> range_queue \<Rightarrow> nat \<Rightarrow> piece multiset" where
  "others lo st infl q h = pieces lo st (filter (\<lambda>x. x \<noteq> h) infl) q"

lemma pieces_handle:
  assumes "distinct infl" "h \<in> set infl"
  shows "pieces lo st infl q = add_mset (piece_of st lo h) (others lo st infl q h)"
proof -
  have "mset infl = add_mset h (mset (filter (\<lambda>x. x \<noteq> h) infl))"
    using assms
  proof (induction infl)
    case (Cons x infl)
    then have "x = h \<Longrightarrow> filter (\<lambda>x. x \<noteq> h) infl = infl" by (auto intro!: filter_True)
    with Cons show ?case by (cases "x = h") (auto simp del: mset_filter)
  qed simp
  from arg_cong [OF this, of "image_mset (piece_of st lo)"]
  show ?thesis by (simp add: pieces_def others_def)
qed

lemma pieces_cong:
  assumes "\<And>h. h \<in> set infl \<Longrightarrow> piece_of st' lo' h = piece_of st lo h"
  shows "pieces lo' st' infl q = pieces lo st infl q"
  using assms by (auto simp: pieces_def intro!: image_mset_cong)

lemma pieces_new:
  assumes "length lo = length st" "\<And>h. h \<in> set infl \<Longrightarrow> h < length st"
  shows "pieces (lo @ [a]) (st @ [r]) (infl @ [length st]) q
    = add_mset (r_idx r, a, r_end r) (pieces lo st infl q)"
proof -
  have "piece_of (st @ [r]) (lo @ [a]) h = piece_of st lo h" if "h \<in> set infl" for h
    using assms(2) [OF that] assms(1) by (simp add: piece_of_def nth_append)
  then have "image_mset (piece_of (st @ [r]) (lo @ [a])) (mset infl) = image_mset (piece_of st lo) (mset infl)"
    by (auto intro!: image_mset_cong)
  moreover have "piece_of (st @ [r]) (lo @ [a]) (length st) = (r_idx r, a, r_end r)"
    by (simp add: piece_of_def nth_append assms(1))
  ultimately show ?thesis by (simp add: pieces_def)
qed

lemma others_update: "others lo (st[h := r]) infl q h = others lo st infl q h"
  unfolding others_def by (rule pieces_cong) (auto simp: piece_of_def)

lemma pieces_update:
  assumes "distinct infl" "h \<in> set infl" "h < length st"
  shows "pieces lo (st[h := r]) infl q = add_mset (r_idx r, lo ! h, r_end r) (others lo st infl q h)"
  using pieces_handle [OF assms(1,2)] assms(3) by (simp add: others_update piece_of_def)

lemma pieces_same:
  assumes "r_idx r = r_idx (st ! h)" "r_end r = r_end (st ! h)"
  shows "pieces lo (st[h := r]) infl q = pieces lo st infl q"
  using assms
  by (intro pieces_cong) (cases "h < length st"; auto simp: piece_of_def nth_list_update list_update_beyond)

lemma handles_ok_update:
  assumes "handles_ok lo st infl" "h < length st"
    and "h \<in> set infl \<Longrightarrow> lo ! h \<le> r_pos r \<and> r_pos r \<le> r_end r"
    and "\<And>sp. r_split r = Some sp \<Longrightarrow> rs_block sp \<noteq> 0 \<and> rs_minimum sp \<noteq> 0"
  shows "handles_ok lo (st[h := r]) infl"
  using assms unfolding handles_ok_def
  by (auto simp: nth_list_update dest!: set_update_subset_insert [THEN subsetD])

lemma handles_ok_new:
  assumes "handles_ok lo st infl" "a \<le> r_pos r" "r_pos r \<le> r_end r"
    and "\<And>sp. r_split r = Some sp \<Longrightarrow> rs_block sp \<noteq> 0 \<and> rs_minimum sp \<noteq> 0"
  shows "handles_ok (lo @ [a]) (st @ [r]) (infl @ [length st])"
  using assms unfolding handles_ok_def by (auto simp: nth_append)

lemma handles_ok_drop: "handles_ok lo st infl \<Longrightarrow> handles_ok lo st (filter P infl)"
  by (simp add: handles_ok_def)

text \<open>A piece that is not empty is in no other place, so the range queue can take it.\<close>

lemma cover_fresh:
  assumes "\<forall>idx b. cover (add_mset (i, a, e) M) idx b \<le> 1" "a < e" "rq_items q \<subseteq># M"
  shows "(i, a, e) \<notin># rq_items q"
proof
  assume "(i, a, e) \<in># rq_items q"
  then have "(i, a, e) \<in># M" using assms(3) by (rule mset_subset_eqD [rotated])
  then obtain N where "M = add_mset (i, a, e) N" by (metis insert_DiffM)
  with assms(1) [rule_format, of i a] assms(2) show False by simp
qed

lemma rq_push_piece:
  assumes "rq_inv q" "\<forall>idx b. cover (add_mset (i, a, e) M) idx b \<le> 1" "a < e" "rq_items q \<subseteq># M"
  shows "\<exists>q'. rq_push q (i, a, e) = Some q' \<and> rq_inv q' \<and> rq_items q' = add_mset (i, a, e) (rq_items q)"
  using cover_fresh [OF assms(2-4)] assms(1,3)
  by (intro rq.push_ok) (simp_all add: rq_accepts_def rq_items_def finite_rq_ranges)

lemma items_pieces: "rq_items q \<subseteq># pieces lo st infl q"
  by (simp add: pieces_def)

lemma items_others: "rq_items q \<subseteq># others lo st infl q h"
  by (simp add: others_def items_pieces)

lemma counts_ok_Some:
  assumes "counts_ok (add_mset p M) out"
  shows "out (fst p) = Some (Suc (owed M (fst p)))"
  using assms by (simp add: counts_ok_def)

lemma counts_ok_dec:
  assumes "counts_ok (add_mset p M) out"
  shows "counts_ok M (out(fst p := (if owed M (fst p) = 0 then None else Some (owed M (fst p)))))"
  using assms by (auto simp: counts_ok_def)

lemma counts_ok_inc:
  assumes "counts_ok M out"
  shows "counts_ok (add_mset p M) (out(fst p \<mapsto> (case out (fst p) of None \<Rightarrow> 0 | Some n \<Rightarrow> n) + 1))"
  using assms by (auto simp: counts_ok_def split: if_splits)

subsection \<open>The operations\<close>

text \<open>
  Each operation on ranges, run from a state with sound accounting, returns, keeps the
  accounting sound, and changes the pieces as stated.
\<close>

abbreviation sched_ranges_ok :: "nat list \<Rightarrow> sched \<Rightarrow> bool" where
  "sched_ranges_ok lo s \<equiv> ranges_ok lo (range_store s) (inflight s) (ranges s) (outstanding s)"

abbreviation sched_pieces :: "nat list \<Rightarrow> sched \<Rightarrow> piece multiset" where
  "sched_pieces lo s \<equiv> pieces lo (range_store s) (inflight s) (ranges s)"

text \<open>A range taken from the queue becomes a handle: the same piece.\<close>

lemma claim_queued_ok:
  assumes ok: "sched_ranges_ok lo s" and q: "rq_inv q" "rq_items (ranges s) = add_mset (i, a, e) (rq_items q)"
    and run: "claim_range i a e (s\<lparr>ranges := q\<rparr>) = (h, s')"
  shows "sched_ranges_ok (lo @ [a]) s'" "sched_pieces (lo @ [a]) s' = sched_pieces lo s"
    "s' = s\<lparr>ranges := q, range_store := range_store s @ [\<lparr>r_idx = i, r_pos = a, r_end = e, r_split = None\<rparr>],
            inflight := inflight s @ [length (range_store s)]\<rparr>"
    "h = length (range_store s)" "h \<in> set (inflight s')"
proof -
  note D = ranges_okD [OF ok] and H = handles_okD [OF ranges_okD(3) [OF ok]]
  let ?r = "\<lparr>r_idx = i, r_pos = a, r_end = e, r_split = None\<rparr>"
  show s': "s' = s\<lparr>ranges := q, range_store := range_store s @ [?r],
      inflight := inflight s @ [length (range_store s)]\<rparr>" and "h = length (range_store s)"
    and "h \<in> set (inflight s')"
    using run by (auto simp: claim_range_def)
  have pcs: "pieces (lo @ [a]) (range_store s @ [?r]) (inflight s @ [length (range_store s)]) q
      = sched_pieces lo s"
    using pieces_new [of lo "range_store s" "inflight s" a ?r q] H(1,3) q(2) by (simp add: pieces_def)
  then show "sched_pieces (lo @ [a]) s' = sched_pieces lo s" by (simp add: s')
  have "a < e" using D(2) q(2) by auto
  then have "handles_ok (lo @ [a]) (range_store s @ [?r]) (inflight s @ [length (range_store s)])"
    by (intro handles_ok_new D(3)) simp_all
  then show "sched_ranges_ok (lo @ [a]) s'"
    using D q pcs by (auto simp: ranges_ok_def s')
qed

text \<open>
  Stealing cuts one piece in two and hands out the upper part: \<open>stolen lo s h m s'\<close> says that
  \<open>s'\<close> is \<open>s\<close> with the range of handle \<open>h\<close> cut at \<open>m\<close>.
\<close>

definition stolen :: "nat list \<Rightarrow> sched \<Rightarrow> nat \<Rightarrow> nat \<Rightarrow> sched \<Rightarrow> bool" where
  "stolen lo s h m s' \<longleftrightarrow>
     sched_ranges_ok (lo @ [m]) s' \<and> h \<in> set (inflight s) \<and>
     r_pos (range_store s ! h) < m \<and> m < r_end (range_store s ! h) \<and>
     (case r_split (range_store s ! h) of None \<Rightarrow> block s | Some p \<Rightarrow> rs_block p) dvd m \<and>
     cover (sched_pieces (lo @ [m]) s') = cover (sched_pieces lo s) \<and>
     range_store s' = (range_store s)[h := (range_store s ! h)\<lparr>r_end := m\<rparr>]
       @ [(range_store s ! h)\<lparr>r_pos := m\<rparr>] \<and>
     (\<forall>i. outstanding s' i = None \<longleftrightarrow> outstanding s i = None) \<and>
     s' = s\<lparr>range_store := range_store s', inflight := inflight s @ [length (range_store s)],
            outstanding := outstanding s'\<rparr>"

lemma steal_split_ok:
  assumes ok: "sched_ranges_ok lo s" and h: "h \<in> set (inflight s)" and blk: "block s \<noteq> 0"
  shows "\<exists>v s'. steal_split h s = Some (v, s') \<and>
    (case v of
       None \<Rightarrow> s' = s
     | Some h' \<Rightarrow> h' = length (range_store s) \<and> (\<exists>m. stolen lo s h m s'))"
proof -
  note D = ranges_okD [OF ok] and H = handles_okD [OF ranges_okD(3) [OF ok]]
  let ?st = "range_store s"
  define r where "r = ?st ! h"
  have hl: "h < length ?st" by (rule H(3) [OF h])
  define blk' where "blk' = (case r_split r of None \<Rightarrow> block s | Some p \<Rightarrow> rs_block p)"
  have blk': "blk' \<noteq> 0" using H(6) [of r] hl blk by (auto simp: blk'_def r_def split: option.splits)
  define m where "m = div_ceil (r_pos r + (r_end r - r_pos r) div 2) blk' * blk'"
  have pos: "r_pos r \<le> r_end r" using H(5) [OF h] by (simp add: r_def)
  show ?thesis
  proof (cases "m \<ge> r_end r \<or> m \<le> r_pos r")
    case True
    then have "steal_split h s = Some (None, s)"
      using hl pos blk' by (auto simp: steal_split_def vec_get_def usub_le Let_def
          simp flip: r_def blk'_def m_def)
    then show ?thesis by simp
  next
    case False
    define out where "out = (outstanding s)(r_idx r \<mapsto>
      (case outstanding s (r_idx r) of None \<Rightarrow> 0 | Some n \<Rightarrow> n) + 1)"
    define st' where "st' = ?st[h := r\<lparr>r_end := m\<rparr>] @ [r\<lparr>r_pos := m\<rparr>]"
    define s' where "s' = s\<lparr>range_store := st', inflight := inflight s @ [length ?st], outstanding := out\<rparr>"
    have run: "steal_split h s = Some (Some (length ?st), s')"
      using hl pos blk' False
      by (auto simp: steal_split_def vec_get_def usub_le Let_def claim_range_def nth_append s'_def st'_def out_def
          simp flip: r_def blk'_def m_def)
    have ps: "sched_pieces (lo @ [m]) s' =
        add_mset (r_idx r, m, r_end r) (add_mset (r_idx r, lo ! h, m) (others lo ?st (inflight s) (ranges s) h))"
      using pieces_new [of lo "?st[h := r\<lparr>r_end := m\<rparr>]" "inflight s" m "r\<lparr>r_pos := m\<rparr>" "ranges s"] H(1,3)
        pieces_update [OF H(2) h hl, of lo "r\<lparr>r_end := m\<rparr>"]
      by (simp add: s'_def st'_def)
    have old: "sched_pieces lo s = add_mset (r_idx r, lo ! h, r_end r) (others lo ?st (inflight s) (ranges s) h)"
      using pieces_handle [OF H(2) h] by (simp add: piece_of_def r_def)
    have cov: "cover (sched_pieces (lo @ [m]) s') = cover (sched_pieces lo s)"
      unfolding ps old using H(4) [OF h] False
      by (subst add_mset_commute, intro cover_cut) (auto simp: r_def)
    have lo_h: "lo ! h \<le> r_pos r" using H(4) [OF h] by (simp add: r_def)
    have "handles_ok lo (?st[h := r\<lparr>r_end := m\<rparr>]) (inflight s)"
      using lo_h False H(6) [of r] hl by (intro handles_ok_update D(3)) (auto simp: r_def)
    then have "handles_ok (lo @ [m]) st' (inflight s @ [length ?st])"
      using handles_ok_new [of lo "?st[h := r\<lparr>r_end := m\<rparr>]" "inflight s" m "r\<lparr>r_pos := m\<rparr>"]
        False H(6) [of r] hl by (auto simp: st'_def r_def)
    moreover have "counts_ok (sched_pieces (lo @ [m]) s') out"
      using D(5) unfolding ps old counts_ok_def out_def by (auto split: if_splits)
    ultimately have "sched_ranges_ok (lo @ [m]) s'"
      using D cov by (auto simp: ranges_ok_def s'_def)
    moreover have "blk' dvd m" by (simp add: m_def)
    moreover have "outstanding s (r_idx r) \<noteq> None" using counts_ok_Some [OF D(5) [unfolded old]] by simp
    ultimately have "stolen lo s h m s'"
      using cov False h by (auto simp: stolen_def s'_def st'_def r_def blk'_def out_def)
    with run show ?thesis by auto
  qed
qed

text \<open>\<open>steal\<close> picks the in-flight range with most left, if any has enough to cut.\<close>

definition victim_ok :: "sched \<Rightarrow> nat \<Rightarrow> bool" where
  "victim_ok s h \<longleftrightarrow> 2 * split_minimum s (range_store s ! h) \<le> remaining (range_store s ! h)"

lemma best_victim_ok:
  assumes "\<And>h. h \<in> set hs \<Longrightarrow> h < length (range_store s)"
    and "\<And>b v. best = Some (b, v) \<Longrightarrow> v \<in> X \<and> victim_ok s v \<and> b = remaining (range_store s ! v)"
    and "\<And>h. h \<in> X \<Longrightarrow> victim_ok s h \<Longrightarrow> \<exists>b v. best = Some (b, v) \<and> remaining (range_store s ! h) \<le> b"
  shows "\<exists>best'. best_victim s hs best = Some best' \<and>
    (\<forall>b v. best' = Some (b, v) \<longrightarrow> v \<in> X \<union> set hs \<and> victim_ok s v \<and> b = remaining (range_store s ! v)) \<and>
    (\<forall>h\<in>X \<union> set hs. victim_ok s h \<longrightarrow> (\<exists>b v. best' = Some (b, v) \<and> remaining (range_store s ! h) \<le> b))"
  using assms
proof (induction hs arbitrary: best X)
  case Nil
  then show ?case by auto
next
  case (Cons h hs)
  let ?r = "range_store s ! h"
  define best1 where "best1 = (if remaining ?r \<ge> 2 * split_minimum s ?r \<and>
      (case best of None \<Rightarrow> True | Some (b, _) \<Rightarrow> remaining ?r > b) then Some (remaining ?r, h) else best)"
  have step: "best_victim s (h # hs) best = best_victim s hs best1"
    using Cons.prems(1) [of h] by (simp add: vec_get_def best1_def Let_def)
  have "\<exists>best'. best_victim s hs best1 = Some best' \<and>
    (\<forall>b v. best' = Some (b, v) \<longrightarrow> v \<in> insert h X \<union> set hs \<and> victim_ok s v \<and> b = remaining (range_store s ! v)) \<and>
    (\<forall>x\<in>insert h X \<union> set hs. victim_ok s x \<longrightarrow> (\<exists>b v. best' = Some (b, v) \<and> remaining (range_store s ! x) \<le> b))"
  proof (rule Cons.IH)
    show "h' \<in> set hs \<Longrightarrow> h' < length (range_store s)" for h' using Cons.prems(1) by simp
    show "v \<in> insert h X \<and> victim_ok s v \<and> b = remaining (range_store s ! v)" if "best1 = Some (b, v)" for b v
      using that Cons.prems(2) [of b v] by (auto simp: best1_def victim_ok_def split: if_splits)
    show "\<exists>b v. best1 = Some (b, v) \<and> remaining (range_store s ! x) \<le> b"
      if x: "x \<in> insert h X" "victim_ok s x" for x
    proof (cases "x = h")
      case True
      then show ?thesis using x by (auto simp: best1_def victim_ok_def not_less split: option.splits)
    next
      case False
      then obtain b v where "best = Some (b, v)" "remaining (range_store s ! x) \<le> b"
        using Cons.prems(3) [of x] x by auto
      then show ?thesis by (auto simp: best1_def)
    qed
  qed
  then show ?case unfolding step by (simp add: Un_commute)
qed

lemma best_victim_inflight:
  assumes "\<And>h. h \<in> set (inflight s) \<Longrightarrow> h < length (range_store s)"
  shows "\<exists>best. best_victim s (inflight s) None = Some best \<and>
    (case best of
       None \<Rightarrow> \<forall>h\<in>set (inflight s). \<not> victim_ok s h
     | Some (b, v) \<Rightarrow> v \<in> set (inflight s) \<and> victim_ok s v \<and>
         (\<forall>h\<in>set (inflight s). victim_ok s h \<longrightarrow> remaining (range_store s ! h) \<le> remaining (range_store s ! v)))"
  using best_victim_ok [of "inflight s" s None "{}"] assms by (fastforce split: option.splits)

lemma steal_ok:
  assumes ok: "sched_ranges_ok lo s" and blk: "block s \<noteq> 0"
  shows "\<exists>v s'. steal s = Some (v, s') \<and>
    (case v of
       None \<Rightarrow> s' = s
     | Some h' \<Rightarrow> h' = length (range_store s) \<and> (\<exists>m h. stolen lo s h m s' \<and> victim_ok s h \<and>
         (\<forall>x\<in>set (inflight s). victim_ok s x \<longrightarrow> remaining (range_store s ! x) \<le> remaining (range_store s ! h))))"
proof -
  note H = handles_okD [OF ranges_okD(3) [OF ok]]
  obtain best where best: "best_victim s (inflight s) None = Some best"
    "case best of
       None \<Rightarrow> \<forall>h\<in>set (inflight s). \<not> victim_ok s h
     | Some (b, v) \<Rightarrow> v \<in> set (inflight s) \<and> victim_ok s v \<and>
         (\<forall>h\<in>set (inflight s). victim_ok s h \<longrightarrow> remaining (range_store s ! h) \<le> remaining (range_store s ! v))"
    using best_victim_inflight [of s] H(3) by blast
  show ?thesis
  proof (cases best)
    case None
    with best show ?thesis by (simp add: steal_def)
  next
    case (Some bv)
    then obtain b h where bv: "best = Some (b, h)" by (cases bv) auto
    from bv best have h: "h \<in> set (inflight s)" "victim_ok s h"
      "\<forall>x\<in>set (inflight s). victim_ok s x \<longrightarrow> remaining (range_store s ! x) \<le> remaining (range_store s ! h)"
      by auto
    from steal_split_ok [OF ok h(1) blk] obtain v s' where
      v: "steal_split h s = Some (v, s')"
        "case v of None \<Rightarrow> s' = s | Some h' \<Rightarrow> h' = length (range_store s) \<and> (\<exists>m. stolen lo s h m s')"
      by blast
    have "steal s = Some (v, s')" using v(1) best bv by (simp add: steal_def)
    with v(2) h show ?thesis by (cases v) auto
  qed
qed

text \<open>Moving the position of a range forward changes no piece.\<close>

lemma claim_window_ok:
  assumes ok: "sched_ranges_ok lo s" and h: "h \<in> set (inflight s)"
  shows "\<exists>w st. claim_window h window s = Some (w, s\<lparr>range_store := st\<rparr>) \<and>
    sched_ranges_ok lo (s\<lparr>range_store := st\<rparr>) \<and>
    sched_pieces lo (s\<lparr>range_store := st\<rparr>) = sched_pieces lo s \<and>
    r_pos (range_store s ! h) \<le> r_pos (st ! h) \<and> r_end (st ! h) = r_end (range_store s ! h) \<and>
    (\<forall>x. x \<noteq> h \<longrightarrow> st ! x = range_store s ! x) \<and>
    (case w of
       None \<Rightarrow> r_pos (st ! h) = r_pos (range_store s ! h)
     | Some (a, b) \<Rightarrow> a = r_pos (range_store s ! h) \<and> b = r_pos (st ! h) \<and> a < b \<and> b - a \<le> window)"
proof -
  note D = ranges_okD [OF ok] and H = handles_okD [OF ranges_okD(3) [OF ok]]
  let ?r = "range_store s ! h"
  define r where "r = ?r\<lparr>r_pos := min (r_end ?r) (r_pos ?r + window)\<rparr>"
  define st where "st = (range_store s)[h := r]"
  have hl: "h < length (range_store s)" by (rule H(3) [OF h])
  have ps: "pieces lo st (inflight s) (ranges s) = sched_pieces lo s"
    unfolding st_def by (rule pieces_same) (simp_all add: r_def)
  have "handles_ok lo st (inflight s)"
    unfolding st_def using H(4,5) [OF h] H(6) [of ?r] hl by (intro handles_ok_update D(3)) (auto simp: r_def)
  then have "sched_ranges_ok lo (s\<lparr>range_store := st\<rparr>)"
    using D ps by (auto simp: ranges_ok_def)
  moreover have "claim_window h window s =
      Some (if r_pos ?r < r_pos r then Some (r_pos ?r, r_pos r) else None, s\<lparr>range_store := st\<rparr>)"
    using hl by (simp add: claim_window_def vec_get_def Let_def st_def r_def)
  ultimately show ?thesis
    using ps hl H(5) [OF h]
    by (intro exI [of _ "if r_pos ?r < r_pos r then Some (r_pos ?r, r_pos r) else None"] exI [of _ st])
      (auto simp: st_def r_def)
qed

lemma update_range_split_ok:
  assumes ok: "sched_ranges_ok lo s" and h: "h \<in> set (inflight s)"
    and sp: "rs_block sp \<noteq> 0" "rs_minimum sp \<noteq> 0"
  shows "\<exists>st sg. update_range_split h sp s = Some (s\<lparr>range_store := st, signals := sg\<rparr>) \<and>
    sched_ranges_ok lo (s\<lparr>range_store := st, signals := sg\<rparr>) \<and>
    sched_pieces lo (s\<lparr>range_store := st, signals := sg\<rparr>) = sched_pieces lo s"
proof -
  note D = ranges_okD [OF ok] and H = handles_okD [OF ranges_okD(3) [OF ok]]
  let ?r = "range_store s ! h"
  have hl: "h < length (range_store s)" by (rule H(3) [OF h])
  show ?thesis
  proof (cases "r_split ?r = Some sp")
    case True
    then have "update_range_split h sp s = Some (s\<lparr>range_store := range_store s, signals := signals s\<rparr>)"
      using hl by (simp add: update_range_split_def vec_get_def)
    with ok show ?thesis by (intro exI [of _ "range_store s"] exI [of _ "signals s"]) simp
  next
    case False
    define st where "st = (range_store s)[h := ?r\<lparr>r_split := Some sp\<rparr>]"
    have ps: "pieces lo st (inflight s) (ranges s) = sched_pieces lo s"
      unfolding st_def by (rule pieces_same) simp_all
    have "handles_ok lo st (inflight s)"
      unfolding st_def using H(4,5) [OF h] hl sp by (intro handles_ok_update D(3)) auto
    then have "ranges_ok lo st (inflight s) (ranges s) (outstanding s)"
      using D ps by (auto simp: ranges_ok_def)
    with ps hl False show ?thesis
      by (intro exI [of _ st] exI [of _ "TuneOne # NotifyAll # signals s"])
        (auto simp: update_range_split_def vec_get_def notify_def st_def)
  qed
qed

lemma release_rest_ok:
  assumes ok: "sched_ranges_ok lo s" and h: "h \<in> set (inflight s)"
  shows "\<exists>s'. release_rest h s = Some s' \<and> sched_ranges_ok lo s' \<and>
    cover (sched_pieces lo s') = cover (sched_pieces lo s) \<and>
    r_pos (range_store s' ! h) = r_end (range_store s' ! h) \<and>
    s' = s\<lparr>range_store := range_store s', ranges := ranges s', outstanding := outstanding s', signals := signals s'\<rparr>"
proof -
  note D = ranges_okD [OF ok] and H = handles_okD [OF ranges_okD(3) [OF ok]]
  define r where "r = range_store s ! h"
  have hl: "h < length (range_store s)" by (rule H(3) [OF h])
  have pos: "lo ! h \<le> r_pos r" "r_pos r \<le> r_end r" using H(4,5) [OF h] by (simp_all add: r_def)
  show ?thesis
  proof (cases "r_end r \<le> r_pos r")
    case True
    then have "release_rest h s = Some s" using hl by (simp add: release_rest_def vec_get_def flip: r_def)
    with ok True pos show ?thesis by (auto simp: r_def)
  next
    case False
    let ?o = "others lo (range_store s) (inflight s) (ranges s) h"
    have old: "sched_pieces lo s = add_mset (r_idx r, lo ! h, r_end r) ?o"
      using pieces_handle [OF H(2) h] by (simp add: piece_of_def r_def)
    define st where "st = (range_store s)[h := r\<lparr>r_end := r_pos r\<rparr>]"
    define M where "M = add_mset (r_idx r, lo ! h, r_pos r) ?o"
    have M: "pieces lo st (inflight s) (ranges s) = M"
      using pieces_update [OF H(2) h hl] by (simp add: st_def M_def)
    have cut: "cover (add_mset (r_idx r, r_pos r, r_end r) M) = cover (sched_pieces lo s)"
      unfolding M_def old using pos by (subst add_mset_commute, intro cover_cut)
    then have "\<forall>idx b. cover (add_mset (r_idx r, r_pos r, r_end r) M) idx b \<le> 1" using D(4) by simp
    moreover have "rq_items (ranges s) \<subseteq># M" unfolding M [symmetric] by (rule items_pieces)
    ultimately obtain q where q: "rq_push (ranges s) (r_idx r, r_pos r, r_end r) = Some q" "rq_inv q"
        "rq_items q = add_mset (r_idx r, r_pos r, r_end r) (rq_items (ranges s))"
      using rq_push_piece [OF D(1)] False by (metis not_le)
    define out where "out = (outstanding s)(r_idx r \<mapsto>
      (case outstanding s (r_idx r) of None \<Rightarrow> 0 | Some n \<Rightarrow> n) + 1)"
    define s' where "s' = s\<lparr>range_store := st, outstanding := out, ranges := q, signals := NotifyAll # signals s\<rparr>"
    have run: "release_rest h s = Some s'"
      using hl False q(1) by (simp add: release_rest_def vec_get_def notify_def s'_def st_def out_def Let_def flip: r_def)
    have ps: "sched_pieces lo s' = add_mset (r_idx r, r_pos r, r_end r) M"
      using M q(3) by (simp add: pieces_def s'_def)
    have "handles_ok lo st (inflight s)"
      unfolding st_def using pos H(6) [of r] hl by (intro handles_ok_update D(3)) (auto simp: r_def)
    moreover have "counts_ok (add_mset (r_idx r, r_pos r, r_end r) M) out"
      using D(5) unfolding old M_def counts_ok_def out_def by (auto split: if_splits)
    ultimately have "sched_ranges_ok lo s'"
      using D(2,4) q cut ps False by (auto simp: ranges_ok_def s'_def)
    moreover have "r_pos (range_store s' ! h) = r_end (range_store s' ! h)"
      using hl by (simp add: s'_def st_def)
    ultimately show ?thesis using run ps cut by (auto simp: s'_def)
  qed
qed

text \<open>A handle retired: its piece is gone, or back in the queue unchanged.\<close>

lemma requeue_piece_ok:
  assumes ok: "sched_ranges_ok lo s" and h: "h \<in> set (inflight s)"
    and r: "r = range_store s ! h" and a: "a = lo ! h" "a < r_end r"
  shows "\<exists>q. rq_push (ranges s) (r_idx r, a, r_end r) = Some q \<and>
    sched_ranges_ok lo (drop_inflight h (s\<lparr>ranges := q\<rparr>)) \<and>
    sched_pieces lo (drop_inflight h (s\<lparr>ranges := q\<rparr>)) = sched_pieces lo s"
proof -
  note D = ranges_okD [OF ok] and H = handles_okD [OF ranges_okD(3) [OF ok]]
  let ?o = "others lo (range_store s) (inflight s) (ranges s) h"
  have old: "sched_pieces lo s = add_mset (r_idx r, a, r_end r) ?o"
    using pieces_handle [OF H(2) h] by (simp add: piece_of_def r a)
  have "\<forall>idx b. cover (add_mset (r_idx r, a, r_end r) ?o) idx b \<le> 1" using D(4) old by simp
  then obtain q where q: "rq_push (ranges s) (r_idx r, a, r_end r) = Some q" "rq_inv q"
      "rq_items q = add_mset (r_idx r, a, r_end r) (rq_items (ranges s))"
    using rq_push_piece [OF D(1) _ a(2) items_others] by blast
  then have ps: "sched_pieces lo (drop_inflight h (s\<lparr>ranges := q\<rparr>)) = sched_pieces lo s"
    unfolding old by (simp add: drop_inflight_def pieces_def others_def)
  then have "sched_ranges_ok lo (drop_inflight h (s\<lparr>ranges := q\<rparr>))"
    using D q a(2) handles_ok_drop [OF D(3)] by (auto simp: ranges_ok_def drop_inflight_def)
  with q ps show ?thesis by blast
qed

lemma retire_piece_ok:
  assumes ok: "sched_ranges_ok lo s" and h: "h \<in> set (inflight s)" and r: "r = range_store s ! h"
    and o: "o' = others lo (range_store s) (inflight s) (ranges s) h"
  shows "outstanding s (r_idx r) = Some (Suc (owed o' (r_idx r)))"
    "sched_ranges_ok lo ((drop_inflight h s)\<lparr>outstanding := (outstanding s)(r_idx r :=
       (if owed o' (r_idx r) = 0 then None else Some (owed o' (r_idx r))))\<rparr>)"
    "sched_pieces lo (drop_inflight h s) = o'"
    "sched_pieces lo s = add_mset (r_idx r, lo ! h, r_end r) o'"
proof -
  note D = ranges_okD [OF ok] and H = handles_okD [OF ranges_okD(3) [OF ok]]
  show old: "sched_pieces lo s = add_mset (r_idx r, lo ! h, r_end r) o'"
    using pieces_handle [OF H(2) h] by (simp add: piece_of_def r o)
  show "outstanding s (r_idx r) = Some (Suc (owed o' (r_idx r)))"
    using counts_ok_Some [OF D(5) [unfolded old]] by simp
  show ps: "sched_pieces lo (drop_inflight h s) = o'"
    by (simp add: o drop_inflight_def others_def)
  have "cover o' idx b \<le> 1" for idx b using D(4) [of idx b] unfolding old by (simp split: if_splits)
  then show "sched_ranges_ok lo ((drop_inflight h s)\<lparr>outstanding := (outstanding s)(r_idx r :=
       (if owed o' (r_idx r) = 0 then None else Some (owed o' (r_idx r))))\<rparr>)"
    using D(1,2,3) ps counts_ok_dec [OF D(5) [unfolded old]] handles_ok_drop [OF D(3)]
    by (auto simp: ranges_ok_def drop_inflight_def)
qed

lemma range_done_ok:
  assumes ok: "sched_ranges_ok lo s" and h: "h \<in> set (inflight s)" and r: "r = range_store s ! h"
  shows "\<exists>d s'. range_done h s = Some (d, s') \<and> sched_ranges_ok lo s' \<and>
    sched_pieces lo s = add_mset (r_idx r, lo ! h, r_end r) (sched_pieces lo s') \<and>
    (d \<longleftrightarrow> owed (sched_pieces lo s') (r_idx r) = 0 \<and> \<not> abort s \<and> r_idx r \<notin> failed s) \<and>
    s' = s\<lparr>inflight := inflight s', outstanding := outstanding s', signals := signals s'\<rparr>"
proof -
  define o' where "o' = others lo (range_store s) (inflight s) (ranges s) h"
  note R = retire_piece_ok [OF ok h r o'_def]
  define out where "out = (outstanding s)(r_idx r := (if owed o' (r_idx r) = 0 then None else Some (owed o' (r_idx r))))"
  define s' where "s' = s\<lparr>inflight := filter (\<lambda>x. x \<noteq> h) (inflight s), outstanding := out,
    signals := NotifyAll # signals s\<rparr>"
  have hl: "h < length (range_store s)" by (rule handles_okD(3) [OF ranges_okD(3) [OF ok] h])
  have "range_done h s = Some (owed o' (r_idx r) = 0 \<and> \<not> abort s \<and> r_idx r \<notin> failed s, s')"
    using hl R(1) by (simp add: range_done_def drop_inflight_def vec_get_def notify_def usub_le
        Let_def s'_def out_def flip: r)
  moreover have "sched_ranges_ok lo s'" "sched_pieces lo s' = o'"
    using R(2,3) by (simp_all add: s'_def drop_inflight_def out_def)
  ultimately show ?thesis using R(4) by (auto simp: s'_def)
qed

text \<open>
  A retry from the beginning of the claim keeps every piece; when nothing of the claim is left,
  it retires the piece and, for the last one, queues the file's publication.
\<close>

lemma retry_range_ok:
  assumes ok: "sched_ranges_ok lo s" and h: "h \<in> set (inflight s)" and r: "r = range_store s ! h"
  shows "\<exists>s'. retry_range h (lo ! h) s = Some s' \<and> sched_ranges_ok lo s' \<and>
    (if lo ! h < r_end r then sched_pieces lo s' = sched_pieces lo s \<and> finishes s' = finishes s
     else sched_pieces lo s = add_mset (r_idx r, lo ! h, r_end r) (sched_pieces lo s') \<and>
       finishes s' = finishes s @ (if owed (sched_pieces lo s') (r_idx r) = 0 then [(r_idx r, False)] else [])) \<and>
    s' = s\<lparr>inflight := inflight s', outstanding := outstanding s', signals := signals s',
           ranges := ranges s', finishes := finishes s'\<rparr>"
proof (cases "lo ! h < r_end r")
  case True
  from requeue_piece_ok [OF ok h r refl True] obtain q where
    q: "rq_push (ranges s) (r_idx r, lo ! h, r_end r) = Some q"
    "sched_ranges_ok lo (drop_inflight h (s\<lparr>ranges := q\<rparr>))"
    "sched_pieces lo (drop_inflight h (s\<lparr>ranges := q\<rparr>)) = sched_pieces lo s" by blast
  have hl: "h < length (range_store s)" by (rule handles_okD(3) [OF ranges_okD(3) [OF ok] h])
  have "retry_range h (lo ! h) s = Some (notify NotifyAll (drop_inflight h (s\<lparr>ranges := q\<rparr>)))"
    using hl True q(1) by (simp add: retry_range_def drop_inflight_def vec_get_def notify_def Let_def flip: r)
  with True q(2,3) show ?thesis by (simp add: notify_def drop_inflight_def)
next
  case False
  define o' where "o' = others lo (range_store s) (inflight s) (ranges s) h"
  note R = retire_piece_ok [OF ok h r o'_def]
  define fin where "fin = finishes s @ (if owed o' (r_idx r) = 0 then [(r_idx r, False)] else [])"
  define out where "out = (outstanding s)(r_idx r := (if owed o' (r_idx r) = 0 then None else Some (owed o' (r_idx r))))"
  define s' where "s' = s\<lparr>inflight := filter (\<lambda>x. x \<noteq> h) (inflight s), outstanding := out,
    signals := NotifyAll # signals s, finishes := fin\<rparr>"
  have hl: "h < length (range_store s)" by (rule handles_okD(3) [OF ranges_okD(3) [OF ok] h])
  have "retry_range h (lo ! h) s = Some s'"
    using hl R(1) False by (simp add: retry_range_def drop_inflight_def vec_get_def notify_def usub_le
        Let_def s'_def out_def fin_def flip: r)
  moreover have "sched_ranges_ok lo s'" "sched_pieces lo s' = o'"
    using R(2,3) by (simp_all add: s'_def drop_inflight_def out_def)
  ultimately show ?thesis using R(4) False by (auto simp: s'_def fin_def)
qed

lemma return_range_ok:
  assumes ok: "sched_ranges_ok lo s" and h: "h \<in> set (inflight s)" and r: "r = range_store s ! h"
    and fresh: "r_pos r = lo ! h" "r_pos r < r_end r"
  shows "\<exists>s'. return_unstarted (ItemRange h) s = Some s' \<and> sched_ranges_ok lo s' \<and>
    sched_pieces lo s' = sched_pieces lo s \<and>
    s' = s\<lparr>inflight := inflight s', ranges := ranges s', signals := signals s'\<rparr>"
proof -
  from requeue_piece_ok [OF ok h r fresh] obtain q where
    q: "rq_push (ranges s) (r_idx r, r_pos r, r_end r) = Some q"
    "sched_ranges_ok lo (drop_inflight h (s\<lparr>ranges := q\<rparr>))"
    "sched_pieces lo (drop_inflight h (s\<lparr>ranges := q\<rparr>)) = sched_pieces lo s" by blast
  have hl: "h < length (range_store s)" by (rule handles_okD(3) [OF ranges_okD(3) [OF ok] h])
  have "return_unstarted (ItemRange h) s = Some (notify NotifyAll (drop_inflight h (s\<lparr>ranges := q\<rparr>)))"
    using hl q(1) by (simp add: return_unstarted_def drop_inflight_def vec_get_def notify_def Let_def flip: r)
  with q(2,3) show ?thesis by (simp add: notify_def drop_inflight_def)
qed

lemma range_work_ok:
  assumes ok: "sched_ranges_ok lo s"
  shows "\<exists>w s'. range_work idx max_size s = Some (w, s') \<and>
    (w = Cancelled \<longleftrightarrow> abort s \<or> idx \<in> failed s) \<and>
    (case w of
       Ready (Some h) \<Rightarrow> \<exists>a. sched_ranges_ok (lo @ [a]) s' \<and> sched_pieces (lo @ [a]) s' = sched_pieces lo s \<and>
         h = length (range_store s) \<and> h \<in> set (inflight s') \<and>
         (\<exists>e. range_store s' = range_store s @ [\<lparr>r_idx = idx, r_pos = a, r_end = e, r_split = None\<rparr>]) \<and>
         waiting_workers s < rq_len (ranges s) \<and>
         s' = s\<lparr>ranges := ranges s', range_store := range_store s', inflight := inflight s'\<rparr>
     | _ \<Rightarrow> s' = s)"
proof (cases "abort s \<or> idx \<in> failed s")
  case True
  then show ?thesis by (simp add: range_work_def)
next
  case alive: False
  show ?thesis
  proof (cases "\<exists>n. max_size = Some n \<and> n \<noteq> 0 \<and> waiting_workers s < rq_len (ranges s)")
    case False
    then have "range_work idx max_size s = Some (Ready None, s)"
      using alive by (auto simp: range_work_def not_less split: option.splits)
    with alive show ?thesis by simp
  next
    case True
    then obtain n where n: "max_size = Some n" "n \<noteq> 0" "waiting_workers s < rq_len (ranges s)" by blast
    obtain r q where rq: "rq_take_short (ranges s) idx n = Some (r, q)" "rq_inv q"
      and res: "case r of
         None \<Rightarrow> q = ranges s \<and> (\<forall>(i, off, end')\<in>rq_ranges (ranges s). i = idx \<longrightarrow> n < end' - off)
       | Some (i, off, end') \<Rightarrow> i = idx \<and> (i, off, end') \<in> rq_ranges (ranges s) \<and> end' - off \<le> n \<and>
           rq_ranges q = rq_ranges (ranges s) - {(i, off, end')} \<and>
           (\<forall>(j, o', e')\<in>rq_ranges (ranges s). j = idx \<longrightarrow> (end' - off, off) \<le> (e' - o', o'))"
      using rq_take_short_ok [OF ranges_okD(1) [OF ok], of idx n] by blast
    show ?thesis
    proof (cases r)
      case None
      with rq res n alive show ?thesis by (simp add: range_work_def)
    next
      case (Some rg)
      obtain off e where rg: "r = Some (idx, off, e)" using Some res by (cases rg) auto
      have items: "rq_items (ranges s) = add_mset (idx, off, e) (rq_items q)"
        using res rg finite_rq_ranges [OF ranges_okD(1) [OF ok]]
        by (simp add: rq_items_def mset_set.remove)
      obtain h s' where run: "claim_range idx off e (s\<lparr>ranges := q\<rparr>) = (h, s')" by fastforce
      note C = claim_queued_ok [OF ok rq(2) items run]
      have "range_work idx max_size s = Some (Ready (Some h), s')"
        using alive n rq(1) rg run by (simp add: range_work_def)
      then show ?thesis using alive n(3) C by (auto simp: nth_append)
    qed
  qed
qed

end
