(* ===== verification/Sched_Split.thy ===== *)
theory Sched_Split
  imports Sched_Ranges
begin

section \<open>Registering the ranges of a probed file\<close>

text \<open>
  \<open>Sched::ranges_ready\<close> and the initial division of one whole-file range among the workers
  reserved for it: the parts are consecutive, cover the range, start at block boundaries and
  are no shorter than the split floor.
\<close>

subsection \<open>The initial division\<close>

fun chain :: "nat \<Rightarrow> (nat \<times> nat) list \<Rightarrow> nat \<Rightarrow> bool" where
  "chain a [] e \<longleftrightarrow> a = e"
| "chain a ((x, y) # rs) e \<longleftrightarrow> x = a \<and> a < y \<and> chain y rs e"

definition file_pieces :: "nat \<Rightarrow> (nat \<times> nat) list \<Rightarrow> piece multiset" where
  "file_pieces idx rs = mset (map (Pair idx) rs)"

definition part_start :: "nat \<Rightarrow> nat \<Rightarrow> nat \<Rightarrow> nat" where
  "part_start blocks parts k = k * (blocks div parts) + min k (blocks mod parts)"

lemma chain_le: "chain a rs e \<Longrightarrow> a \<le> e"
proof (induction rs arbitrary: a)
  case (Cons r rs)
  then show ?case by (cases r) fastforce
qed simp

lemma chain_nonempty: "chain a rs e \<Longrightarrow> (x, y) \<in> set rs \<Longrightarrow> a \<le> x \<and> x < y \<and> y \<le> e"
proof (induction rs arbitrary: a)
  case (Cons r rs)
  then show ?case by (cases r) (fastforce dest: chain_le)
qed simp

lemma file_pieces_simps [simp]:
  "file_pieces idx [] = {#}" "file_pieces idx ((a, e) # rs) = add_mset (idx, a, e) (file_pieces idx rs)"
  by (simp_all add: file_pieces_def)

lemma owed_file_pieces [simp]: "owed (file_pieces idx rs) i = (if i = idx then length rs else 0)"
  by (induction rs) (auto simp: file_pieces_def)

lemma cover_chain: "chain a rs e \<Longrightarrow> cover (file_pieces idx rs) i b = (if i = idx \<and> a \<le> b \<and> b < e then 1 else 0)"
proof (induction rs arbitrary: a)
  case (Cons r rs)
  then obtain x y where r: "r = (x, y)" "x = a" "a < y" "chain y rs e" by (cases r) auto
  with Cons.IH [of y] chain_le [OF r(4)] show ?case by auto
qed auto

lemma part_start_Suc:
  "part_start blocks parts (Suc k) =
     part_start blocks parts k + (blocks div parts + (if k < blocks mod parts then 1 else 0))"
  by (simp add: part_start_def)

lemma part_start_all: "0 < parts \<Longrightarrow> part_start blocks parts parts = blocks"
  by (simp add: part_start_def min_def) (metis leD mod_less_divisor mult_div_mod_eq)

lemma split_parts_ok:
  assumes "k < parts" "0 < blk" "0 < blocks div parts" "start + blocks * blk \<le> end'"
    "off = start + part_start blocks parts k * blk"
  shows "chain off (split_parts blk blocks parts end' off [k..<parts]) end' \<and>
    length (split_parts blk blocks parts end' off [k..<parts]) = parts - k \<and>
    (\<forall>(x, y)\<in>set (split_parts blk blocks parts end' off [k..<parts]).
       x mod blk = start mod blk \<and> blocks div parts * blk \<le> y - x)"
  using assms(1,5)
proof (induction "parts - k" arbitrary: k off)
  case (Suc n)
  define n' where "n' = blocks div parts + (if k < blocks mod parts then 1 else 0)"
  have up: "[k..<parts] = k # [Suc k..<parts]" using Suc.prems by (simp add: upt_conv_Cons)
  have next_off: "off + n' * blk = start + part_start blocks parts (Suc k) * blk"
    by (simp add: Suc.prems(2) part_start_Suc n'_def algebra_simps)
  have n': "blocks div parts \<le> n'" "0 < n'" using assms(3) by (simp_all add: n'_def)
  consider "Suc k = parts" | "Suc k < parts" using Suc.prems by linarith
  then show ?case
  proof cases
    case 1
    then have eq: "split_parts blk blocks parts end' off [k..<parts] = [(off, end')]"
      by (simp add: up Let_def)
    have "off + n' * blk = start + blocks * blk"
      unfolding next_off 1 using part_start_all [of parts blocks] Suc.prems by simp
    then have "off + n' * blk \<le> end'" using assms(4) by simp
    moreover have "blocks div parts * blk \<le> n' * blk" using n'(1) by simp
    moreover have "0 < n' * blk" using n'(2) assms(2) by simp
    ultimately have "off < end'" "blocks div parts * blk \<le> end' - off" by linarith+
    moreover have "parts - k = Suc 0" using 1 by linarith
    ultimately show ?thesis unfolding eq using Suc.prems(2) by simp
  next
    case 2
    then have n: "n = parts - Suc k" using Suc.hyps(2) by simp
    note IH = Suc.hyps(1) [OF n 2 next_off]
    have eq: "split_parts blk blocks parts end' off [k..<parts] =
        (off, off + n' * blk) # split_parts blk blocks parts end' (off + n' * blk) [Suc k..<parts]"
      using 2 by (simp add: up Let_def n'_def)
    have "off < off + n' * blk" using n'(2) assms(2) by simp
    moreover have "off mod blk = start mod blk" by (simp add: Suc.prems(2))
    ultimately show ?thesis unfolding eq using n'(1) 2 IH by auto
  qed
qed simp

text \<open>
  What the division promises of its result \<open>rs\<close>: the same bytes, no empty range, and when it
  divides the range, parts that start on block boundaries and reach the floor.
\<close>

lemma initial_split_ok:
  assumes blk: "0 < block s" "2 * block s \<le> min_split s"
    and valid: "\<forall>(a, e)\<in>set ranges'. a < e"
  shows "\<exists>rs. initial_split s n ranges' = Some rs \<and> (\<forall>(a, e)\<in>set rs. a < e) \<and>
    cover (file_pieces idx rs) = cover (file_pieces idx ranges') \<and> (rs = [] \<longleftrightarrow> ranges' = []) \<and>
    (rs = ranges' \<or> (\<exists>a e. ranges' = [(a, e)] \<and> chain a rs e \<and> length rs \<le> n \<and>
      (\<forall>(x, y)\<in>set rs. block s dvd x \<and> min_split s \<le> y - x)))"
proof (cases "n > 1 \<and> fq_is_empty (files s) \<and> length ranges' = 1 \<and> block s dvd fst (ranges' ! 0)")
  case False
  then have "initial_split s n ranges' = Some ranges'"
    by (auto simp: initial_split_def split: prod.splits)
  with valid show ?thesis by auto
next
  case True
  then obtain a e where ae: "ranges' = [(a, e)]" by (cases ranges') auto
  with True valid have ae': "a < e" "block s dvd a" by auto
  define blocks where "blocks = (e - a) div block s"
  define c where "c = div_ceil (min_split s) (block s)"
  define parts where "parts = max (min n (blocks div c)) 1"
  have c: "0 < c" "min_split s \<le> c * block s"
    using div_ceil_bounds(1) [OF blk(1), of "min_split s"] blk by (auto simp: c_def intro: Suc_leI gr0I)
  have run: "initial_split s n ranges' =
      Some (if parts > 1 then split_parts (block s) blocks parts e a [0..<parts] else ranges')"
    using True ae ae' blk c(1)
    by (simp add: initial_split_def usub_le Let_def blocks_def parts_def c_def)
  show ?thesis
  proof (cases "parts > 1")
    case False
    with run valid show ?thesis by auto
  next
    case big: True
    then have le: "parts \<le> blocks div c" "parts \<le> n" by (auto simp: parts_def)
    then have "c * parts \<le> c * (blocks div c)" by simp
    also have "\<dots> \<le> blocks" by simp
    finally have "c * parts \<le> blocks" .
    then have cp: "c \<le> blocks div parts" using big by (simp add: less_eq_div_iff_mult_less_eq)
    have "blocks * block s \<le> e - a" by (simp add: blocks_def)
    then have "a + blocks * block s \<le> e" using ae'(1) by linarith
    from split_parts_ok [of 0 parts "block s" blocks a e a] \<open>a + blocks * block s \<le> e\<close> big blk(1) c(1) cp
    have sp: "chain a (split_parts (block s) blocks parts e a [0..<parts]) e"
        "length (split_parts (block s) blocks parts e a [0..<parts]) = parts"
        "\<forall>(x, y)\<in>set (split_parts (block s) blocks parts e a [0..<parts]).
           x mod block s = a mod block s \<and> blocks div parts * block s \<le> y - x"
      by (simp_all add: part_start_def)
    define rs where "rs = split_parts (block s) blocks parts e a [0..<parts]"
    have "min_split s \<le> blocks div parts * block s"
      using c(2) cp by (meson le_trans mult_le_mono1)
    then have parts_ok: "\<forall>(x, y)\<in>set rs. block s dvd x \<and> min_split s \<le> y - x"
      using sp(3) ae'(2) by (fastforce simp: rs_def dvd_eq_mod_eq_0)
    have "cover (file_pieces idx rs) = cover (file_pieces idx ranges')"
      using cover_chain [OF sp(1)] ae by (intro ext) (simp add: rs_def)
    moreover have "\<forall>(x, y)\<in>set rs. x < y" using chain_nonempty [OF sp(1)] by (auto simp: rs_def)
    moreover have "rs \<noteq> []" using sp(2) big by (auto simp: rs_def)
    ultimately show ?thesis
      using run big ae sp(1,2) parts_ok le(2) by (intro exI [of _ rs]) (simp add: rs_def)
  qed
qed

subsection \<open>Registration\<close>

lemma rq_extend_items:
  assumes inv: "rq_inv q" and free: "\<And>p. p \<in># rq_items q \<Longrightarrow> fst p \<noteq> idx"
    and rs: "\<forall>(a, e)\<in>set rs. a < e" "\<forall>i b. cover (file_pieces idx rs) i b \<le> 1"
  shows "\<exists>q'. rq_extend q idx rs = Some q' \<and> rq_inv q' \<and> rq_items q' = rq_items q + file_pieces idx rs"
proof -
  have notin: "(idx, r) \<notin> rq_ranges q" for r
    using free [of "(idx, r)"] finite_rq_ranges [OF inv] by (auto simp: rq_items_def)
  have dist: "distinct rs"
    using rs
  proof (induction rs)
    case (Cons r rs)
    obtain a e where r: "r = (a, e)" by fastforce
    have le: "cover (file_pieces idx rs) i b \<le> 1" for i b
      using Cons.prems(2) [rule_format, of i b] r by (simp split: if_splits)
    have "r \<notin> set rs"
    proof
      assume "r \<in> set rs"
      then obtain M where "file_pieces idx rs = add_mset (idx, a, e) M"
        unfolding file_pieces_def r by (metis (no_types, lifting) image_eqI insert_DiffM set_map set_mset_mset)
      with Cons.prems(1) Cons.prems(2) [rule_format, of idx a] r show False by simp
    qed
    with Cons.IH Cons.prems(1) le show ?case by simp
  qed simp
  then have "fresh_for q idx rs" using rs(1) notin by (auto simp: fresh_for_def)
  from rq_extend_ok [OF inv this] obtain q' where q': "rq_extend q idx rs = Some q'" "rq_inv q'"
      "rq_ranges q' = rq_ranges q \<union> (\<lambda>(off, end'). (idx, off, end')) ` set rs" by blast
  have im: "(\<lambda>(off, end'). (idx, off, end')) ` set rs = set (map (Pair idx) rs)" by auto
  have "rq_items q' = mset_set (rq_ranges q) + mset_set (set (map (Pair idx) rs))"
    unfolding rq_items_def q'(3) im using notin finite_rq_ranges [OF inv]
    by (intro mset_set_Union) auto
  also have "mset_set (set (map (Pair idx) rs)) = file_pieces idx rs"
    unfolding file_pieces_def using dist by (intro mset_set_set) (simp add: distinct_map inj_on_def)
  finally show ?thesis using q' by (simp add: rq_items_def)
qed

text \<open>
  The ranges a worker may register for a file: none empty, no two overlapping.
\<close>

definition valid_ranges :: "(nat \<times> nat) list \<Rightarrow> bool" where
  "valid_ranges rs \<longleftrightarrow> (\<forall>(a, e)\<in>set rs. a < e) \<and> sorted_wrt (\<lambda>r t. snd r \<le> fst t \<or> snd t \<le> fst r) rs"

lemma valid_ranges_cover:
  assumes "valid_ranges rs"
  shows "cover (file_pieces idx rs) i b \<le> 1"
  using assms
proof (induction rs)
  case (Cons r rs)
  obtain a e where r: "r = (a, e)" by fastforce
  have IH: "cover (file_pieces idx rs) i b \<le> 1" using Cons by (simp add: valid_ranges_def)
  show ?case
  proof (cases "i = idx \<and> a \<le> b \<and> b < e")
    case True
    have "\<not> (x \<le> b \<and> b < y)" if "(x, y) \<in> set rs" for x y
      using Cons.prems that True by (fastforce simp: valid_ranges_def r)
    then have "cover (file_pieces idx rs) i b = 0"
      by (auto simp: cover_def file_pieces_def filter_empty_mset)
    with r show ?thesis by simp
  next
    case False
    with IH r show ?thesis by auto
  qed
qed simp

lemma cover_file_other: "i \<noteq> idx \<Longrightarrow> cover (file_pieces idx rs) i b = 0"
  by (induction rs) auto

lemma owed_0: "owed M idx = 0 \<Longrightarrow> p \<in># M \<Longrightarrow> fst p \<noteq> idx"
  by (auto simp: owed_def filter_mset_eq_conv filter_empty_mset)

lemma cover_owed_0: "owed M idx = 0 \<Longrightarrow> cover M idx b = 0"
  by (auto simp: cover_def filter_empty_mset dest: owed_0)

lemma ranges_ready_ok:
  assumes ok: "sched_ranges_ok lo s" and none: "outstanding s idx = None" and p: "0 < probing s"
    and blk: "0 < block s" "2 * block s \<le> min_split s" and valid: "valid_ranges ranges'"
  shows "\<exists>first s' lo'. ranges_ready idx ranges' s = Some (first, s') \<and> sched_ranges_ok lo' s' \<and>
    cover (sched_pieces lo' s') = cover (sched_pieces lo s + file_pieces idx ranges') \<and>
    lo' = lo @ map r_pos (drop (length lo) (range_store s')) \<and>
    (first = None \<longleftrightarrow> ranges' = []) \<and> (\<forall>h. first = Some h \<longrightarrow> h \<in> set (inflight s')) \<and>
    (\<forall>i. outstanding s' i \<noteq> None \<longleftrightarrow> outstanding s i \<noteq> None \<or> (i = idx \<and> ranges' \<noteq> [])) \<and>
    s' = s\<lparr>probing := probing s - 1, initial_range_workers := 0, outstanding := outstanding s',
           range_store := range_store s', inflight := inflight s', ranges := ranges s', signals := signals s'\<rparr>"
proof -
  note D = ranges_okD [OF ok] and H = handles_okD [OF ranges_okD(3) [OF ok]]
  let ?s1 = "s\<lparr>probing := probing s - 1, initial_range_workers := 0\<rparr>"
  obtain rs where rs: "initial_split ?s1 (initial_range_workers s) ranges' = Some rs"
      "\<forall>(a, e)\<in>set rs. a < e" "cover (file_pieces idx rs) = cover (file_pieces idx ranges')"
      "rs = [] \<longleftrightarrow> ranges' = []"
    using initial_split_ok [of ?s1 ranges' "initial_range_workers s" idx] blk valid
    by (auto simp: valid_ranges_def)
  have one: "\<forall>i b. cover (file_pieces idx rs) i b \<le> 1"
    using valid_ranges_cover [OF valid] rs(3) by simp
  have free: "owed (sched_pieces lo s) idx = 0" using D(5) none by (auto simp: counts_ok_def split: if_splits)
  have cov1: "cover (sched_pieces lo s + file_pieces idx rs) i b \<le> 1" for i b
    using one D(4) [of i b] cover_owed_0 [OF free] cover_file_other [of i idx rs]
    by (cases "i = idx") (auto simp: cover_owed_0 [OF free])
  have cov: "cover (sched_pieces lo s + file_pieces idx rs) = cover (sched_pieces lo s + file_pieces idx ranges')"
    by (intro ext) (simp add: rs(3))
  have freeq: "fst x \<noteq> idx" if "x \<in># rq_items (ranges s)" for x
    using owed_0 [OF free mset_subset_eqD [OF items_pieces that]] .
  show ?thesis
  proof (cases rs)
    case Nil
    then have "ranges_ready idx ranges' s = Some (None, ?s1\<lparr>signals := NotifyAll # signals s\<rparr>)"
      using p rs(1) by (simp add: ranges_ready_def usub_le rq_extend_def notify_def Let_def)
    then show ?thesis
      using Nil ok rs(4) H(1) by (intro exI [of _ None] exI [of _ "?s1\<lparr>signals := NotifyAll # signals s\<rparr>"]
          exI [of _ lo]) auto
  next
    case (Cons r rest)
    obtain a e where r: "r = (a, e)" by fastforce
    let ?r = "\<lparr>r_idx = idx, r_pos = a, r_end = e, r_split = None\<rparr>"
    have tail1: "\<forall>i b. cover (file_pieces idx rest) i b \<le> 1"
    proof (intro allI)
      fix i b show "cover (file_pieces idx rest) i b \<le> 1"
        using one [rule_format, of i b] by (simp add: Cons r split: if_splits)
    qed
    obtain q where q: "rq_extend (ranges s) idx rest = Some q" "rq_inv q"
        "rq_items q = rq_items (ranges s) + file_pieces idx rest"
      using rq_extend_items [OF D(1) freeq _ tail1] rs(2) Cons by auto
    define s' where "s' = ?s1\<lparr>outstanding := (outstanding s)(idx \<mapsto> length rs),
      range_store := range_store s @ [?r], inflight := inflight s @ [length (range_store s)],
      ranges := q, signals := NotifyAll # signals s\<rparr>"
    have run: "ranges_ready idx ranges' s = Some (Some (length (range_store s)), s')"
      using p rs(1) q(1) by (simp add: ranges_ready_def usub_le claim_range_def notify_def Let_def Cons r s'_def)
    have ps: "sched_pieces (lo @ [a]) s' = sched_pieces lo s + file_pieces idx rs"
      using pieces_new [of lo "range_store s" "inflight s" a ?r q] H(1,3) q(3)
      by (simp add: s'_def Cons r pieces_def)
    have "a < e" using rs(2) Cons r by auto
    then have "handles_ok (lo @ [a]) (range_store s @ [?r]) (inflight s @ [length (range_store s)])"
      by (intro handles_ok_new D(3)) simp_all
    moreover have "counts_ok (sched_pieces lo s + file_pieces idx rs) ((outstanding s)(idx \<mapsto> length rs))"
      using D(5) free Cons by (auto simp: counts_ok_def)
    moreover have "(i, x, y) \<in># rq_items q \<Longrightarrow> x < y" for i x y
      using D(2) q(3) rs(2) Cons by (auto simp: file_pieces_def)
    ultimately have "sched_ranges_ok (lo @ [a]) s'"
      using q(2) cov1 ps by (auto simp: ranges_ok_def s'_def)
    then show ?thesis
      using run ps cov rs(4) Cons H(1)
      by (intro exI [of _ "Some (length (range_store s))"] exI [of _ s'] exI [of _ "lo @ [a]"])
        (auto simp: s'_def)
  qed
qed

end
