(* ===== verification/Sched_Inv.thy ===== *)
theory Sched_Inv
  imports Sched_Split
begin

section \<open>The scheduler's invariant\<close>

text \<open>
  What holds between two operations of the scheduler while its workers keep to their contract.
  The contract speaks of what the workers hold, which the scheduler counts but does not list:
  \<open>probes\<close>, the files handed out and not given back, and \<open>spent\<close>, the probes still counted
  although their file is already queued again (a small-file batch queues a file before it
  retires the batch's probes). Both are carried beside the state, with the offsets \<open>lo\<close>.
\<close>

record client =
  lo :: "nat list"
  probes :: "nat multiset"
  spent :: nat

definition queued :: "file_queue \<Rightarrow> nat multiset" where
  "queued q = image_mset item_index (fq_items q)"

definition batch_unread :: "fast_batch \<Rightarrow> nat multiset" where
  "batch_unread b = mset (map (\<lambda>i. snd (fb_files b ! i)) (fb_pending b))"

definition shared :: "fast_batch list \<Rightarrow> nat list \<Rightarrow> nat multiset" where
  "shared bs hs = sum_list (map (\<lambda>h. batch_unread (bs ! h)) hs)"

definition files_ok :: "file_queue \<Rightarrow> arena \<Rightarrow> jobs \<Rightarrow> bool" where
  "files_ok q ar j \<longleftrightarrow> fq_inv q \<and> jobs_inv ar j \<and> length (group_of q) = jobs_len j \<and> jobs_len j \<le> 2 ^ 64"

definition probes_ok ::
  "nat multiset \<Rightarrow> nat \<Rightarrow> nat \<Rightarrow> nat \<Rightarrow> fast_batch list \<Rightarrow> nat list \<Rightarrow> nat \<Rightarrow> bool" where
  "probes_ok P k p fp bs hs n \<longleftrightarrow>
     p = size P + k \<and> fp \<le> p \<and> (\<forall>i\<in>#P. i < n) \<and> shared bs hs \<subseteq># P \<and> size (shared bs hs) \<le> fp \<and>
     distinct hs \<and> (\<forall>h\<in>set hs. h < length bs) \<and> (\<forall>b\<in>set bs. fb_inv b)"

text \<open>A file is in one place at a time: queued, held by a worker, or with ranges outstanding.\<close>

definition tokens_ok :: "nat multiset \<Rightarrow> (nat \<rightharpoonup> nat) \<Rightarrow> nat \<Rightarrow> bool" where
  "tokens_ok held out n \<longleftrightarrow>
     (\<forall>i. count held i + (if out i = None then 0 else 1) \<le> (if i < n then 1 else 0))"

definition sched_inv :: "client \<Rightarrow> sched \<Rightarrow> bool" where
  "sched_inv c s \<longleftrightarrow>
     files_ok (files s) (job_arena s) (job_table s) \<and>
     ranges_ok (lo c) (range_store s) (inflight s) (ranges s) (outstanding s) \<and>
     probes_ok (probes c) (spent c) (probing s) (fast_probing s) (batch_store s) (fast_groups s)
       (jobs_len (job_table s)) \<and>
     tokens_ok (queued (files s) + probes c) (outstanding s) (jobs_len (job_table s)) \<and>
     0 < block s \<and> 2 * block s \<le> min_split s"

lemma sched_invD:
  assumes "sched_inv c s"
  shows "files_ok (files s) (job_arena s) (job_table s)"
    "ranges_ok (lo c) (range_store s) (inflight s) (ranges s) (outstanding s)"
    "probes_ok (probes c) (spent c) (probing s) (fast_probing s) (batch_store s) (fast_groups s)
       (jobs_len (job_table s))"
    "tokens_ok (queued (files s) + probes c) (outstanding s) (jobs_len (job_table s))"
    "0 < block s" "2 * block s \<le> min_split s"
  using assms unfolding sched_inv_def by blast+

lemma probes_okD:
  assumes "probes_ok P k p fp bs hs n"
  shows "p = size P + k" "fp \<le> p" "i \<in># P \<Longrightarrow> i < n" "shared bs hs \<subseteq># P" "size (shared bs hs) \<le> fp"
    "distinct hs" "h \<in> set hs \<Longrightarrow> h < length bs" "b \<in> set bs \<Longrightarrow> fb_inv b"
  using assms unfolding probes_ok_def by blast+

lemma files_okD:
  assumes "files_ok q ar j"
  shows "fq_inv q" "jobs_inv ar j" "length (group_of q) = jobs_len j" "jobs_len j \<le> 2 ^ 64"
  using assms unfolding files_ok_def by blast+

lemma tokens_okD:
  assumes "tokens_ok held out n"
  shows "i \<in># held \<Longrightarrow> out i = None" "count held i \<le> 1" "out i \<noteq> None \<Longrightarrow> i \<notin># held"
    "i \<in># held \<Longrightarrow> i < n" "out i \<noteq> None \<Longrightarrow> i < n"
proof -
  have t: "count held i + (if out i = None then 0 else 1) \<le> (if i < n then 1 else 0)" for i
    using assms by (simp add: tokens_ok_def)
  show "i \<in># held \<Longrightarrow> out i = None" using t [of i] by (cases "out i") (auto simp: count_eq_zero_iff split: if_splits)
  show "count held i \<le> 1" using t [of i] by (simp split: if_splits)
  show "out i \<noteq> None \<Longrightarrow> i \<notin># held" using t [of i] by (auto simp: not_in_iff split: if_splits)
  show "i \<in># held \<Longrightarrow> i < n" using t [of i] by (auto simp: count_eq_zero_iff split: if_splits)
  show "out i \<noteq> None \<Longrightarrow> i < n" using t [of i] by (auto split: if_splits)
qed

lemma tokens_ok_add:
  assumes "tokens_ok held out n" "n \<le> m" "i < m" "i \<notin># held" "out i = None"
  shows "tokens_ok (add_mset i held) out m"
proof -
  have "count (add_mset i held) x + (if out x = None then 0 else 1) \<le> (if x < m then 1 else 0)" for x
    using assms(1) [unfolded tokens_ok_def, rule_format, of x] assms(2-5)
    by (cases "x = i") (auto simp: not_in_iff split: if_splits)
  then show ?thesis by (simp add: tokens_ok_def)
qed

lemma tokens_ok_mono:
  assumes "tokens_ok held out n" "held' \<subseteq># held" "\<And>i. out i = None \<Longrightarrow> out' i = None"
  shows "tokens_ok held' out' n"
proof -
  have "count held' x + (if out' x = None then 0 else 1) \<le> (if x < n then 1 else 0)" for x
    using assms(1) [unfolded tokens_ok_def, rule_format, of x] mset_subset_eq_count [OF assms(2), of x] assms(3)
    by (auto split: if_splits)
  then show ?thesis by (simp add: tokens_ok_def)
qed

lemma sched_new_inv:
  assumes "0 < block'"
  shows "sched_inv \<lparr>lo = [], probes = {#}, spent = 0\<rparr> (sched_new block' min_split')"
proof -
  have "ranges_ok [] [] [] rq_default Map.empty"
    by (simp add: ranges_ok_def handles_ok_def counts_ok_def pieces_def rq.invar_empty rq.items_empty)
  then show ?thesis
    using assms
    by (simp add: sched_inv_def sched_new_def files_ok_def probes_ok_def tokens_ok_def shared_def queued_def
        jobs_default_def jobs_len_def fq_default_def flip: fq_default_def jobs_default_def)
      (simp add: fq_default_def jobs_len_def jobs_default_def fq_items_def)
qed

subsection \<open>Queueing files\<close>

lemma queued_index:
  assumes "files_ok q ar j" "i \<in># queued q"
  shows "i < jobs_len j"
proof -
  obtain it where it: "it \<in># fq_items q" "i = item_index it" using assms(2) by (auto simp: queued_def)
  have shape: "fq_shape q" using files_okD(1) [OF assms(1)] by (simp add: fq_inv_def)
  obtain g where "g < length (groups q)" "it \<in> set (groups q ! g)" using it(1) by (auto simp: fq_items_mem)
  from fq_shapeD(3) [OF shape this] it(2) files_okD(3) [OF assms(1)] show ?thesis by simp
qed

lemma queue_file_ok:
  assumes ok: "files_ok (files s) (job_arena s) (job_table s)" and idx: "idx < jobs_len (job_table s)"
  shows "\<exists>q. queue_file size' idx s = Some (s\<lparr>files := q\<rparr>) \<and>
    files_ok q (job_arena s) (job_table s) \<and> queued q = add_mset idx (queued (files s))"
proof -
  note F = files_okD [OF ok]
  have i: "item_index (file_item_of size' idx) = idx" using idx F(4) by simp
  then have "fq_accepts (files s) (file_item_of size' idx)" using idx F(3) by (simp add: fq_accepts_def)
  with fq_push_ok [OF F(1), of "file_item_of size' idx"] obtain q where
    "fq_push (files s) (file_item_of size' idx) = Some q" "fq_inv q"
    "fq_items q = add_mset (file_item_of size' idx) (fq_items (files s))" "group_of q = group_of (files s)"
    by (auto simp: fq_accepts_def)
  with F i show ?thesis by (intro exI [of _ q]) (simp add: queue_file_def files_ok_def queued_def)
qed

lemma queue_files_ok:
  assumes "files_ok (files s) (job_arena s) (job_table s)" "\<forall>f\<in>set fs. snd f < jobs_len (job_table s)"
  shows "\<exists>q. queue_files fs s = Some (s\<lparr>files := q\<rparr>) \<and>
    files_ok q (job_arena s) (job_table s) \<and> queued q = queued (files s) + mset (map snd fs)"
  using assms
proof (induction fs arbitrary: s)
  case Nil
  then show ?case by (intro exI [of _ "files s"]) simp
next
  case (Cons f fs)
  obtain n i where f: "f = (n, i)" by fastforce
  from queue_file_ok [OF Cons.prems(1), of i n] Cons.prems(2) f obtain q where
    q: "queue_file n i s = Some (s\<lparr>files := q\<rparr>)" "files_ok q (job_arena s) (job_table s)"
      "queued q = add_mset i (queued (files s))" by auto
  from Cons.IH [of "s\<lparr>files := q\<rparr>"] q(2) Cons.prems(2) obtain q' where
    "queue_files fs (s\<lparr>files := q\<rparr>) = Some (s\<lparr>files := q'\<rparr>)" "files_ok q' (job_arena s) (job_table s)"
    "queued q' = queued q + mset (map snd fs)" by auto
  with q f show ?case by (intro exI [of _ q']) simp
qed

lemma job_size_ok:
  assumes "files_ok q (job_arena s) (job_table s)" "idx < jobs_len (job_table s)"
  shows "\<exists>n. job_size s idx = Some n"
  using jobs_index_list [OF files_okD(2) [OF assms(1)] assms(2)] by (simp add: job_size_def)

lemma length_group_of_register:
  "length (group_of (fq_register q idx d)) = max (length (group_of q)) (idx + 1)"
  by (auto simp: fq_register_def Let_def split: option.splits)

lemma push_file_ok:
  assumes ok: "files_ok (files s) (job_arena s) (job_table s)" and room: "jobs_len (job_table s) < 2 ^ 64"
  shows "\<exists>s'. push_file data d s = Some (jobs_len (job_table s), s') \<and>
    files_ok (files s') (job_arena s') (job_table s') \<and>
    jobs_list (job_arena s') (job_table s') = jobs_list (job_arena s) (job_table s) @ [data] \<and>
    queued (files s') = add_mset (jobs_len (job_table s)) (queued (files s)) \<and> file_work_anticipated s' \<and>
    s' = s\<lparr>files := files s', job_arena := job_arena s', job_table := job_table s',
           file_work_anticipated := True, signals := signals s'\<rparr>"
proof -
  note F = files_okD [OF ok]
  let ?idx = "jobs_len (job_table s)"
  obtain ar j where push: "jobs_push (job_arena s) (job_table s) data d = Some (ar, j)" "jobs_inv ar j"
      "jobs_list ar j = jobs_list (job_arena s) (job_table s) @ [data]"
    using jobs_push_ok [OF F(2), of data d] by blast
  have len: "jobs_len j = ?idx + 1" using arg_cong [OF push(3), of length] by simp
  have idx: "jobs_index ar j ?idx = Some data"
    using jobs_index_list [OF push(2), of ?idx] push(3) len by (simp add: nth_append)
  then obtain sn where sn: "current j ?idx = Some sn" "snapshot_borrow ar sn = Some data"
    by (auto simp: jobs_index_def bind_eq_Some_conv)
  let ?q = "fq_register (files s) ?idx (dst_path data)"
  have other: "item_index it \<noteq> ?idx" if "it \<in># fq_items (files s)" for it
    using queued_index [OF ok, of "item_index it"] that by (auto simp: queued_def)
  have reg: "fq_inv ?q" "fq_items ?q = fq_items (files s)"
    using fq_register_ok [OF F(1), of ?idx] other by simp_all
  let ?s1 = "s\<lparr>job_arena := ar, job_table := j, files := ?q\<rparr>"
  have "files_ok ?q ar j"
    using reg(1) push(2) len F(3) room by (simp add: files_ok_def length_group_of_register)
  then obtain q where q: "queue_file (e_size (job_entry data)) ?idx ?s1 = Some (?s1\<lparr>files := q\<rparr>)"
      "files_ok q ar j" "queued q = add_mset ?idx (queued ?q)"
    using queue_file_ok [of ?s1 ?idx] len by auto
  let ?s2 = "?s1\<lparr>files := q\<rparr>"
  let ?s3 = "?s2\<lparr>file_work_anticipated := True\<rparr>"
  let ?s4 = "if \<not> file_work_anticipated s then notify NotifyAll ?s3
    else if scan_done s \<or> work_released s then notify NotifyOne ?s3 else ?s3"
  have "push_file data d s = Some (?idx, ?s4)"
    using push(1) len sn q(1) by (simp add: push_file_def usub_le Let_def)
  moreover have "queued ?q = queued (files s)" by (simp add: queued_def reg(2))
  ultimately show ?thesis
    using q(2,3) push(3) by (intro exI [of _ ?s4]) (auto simp: notify_def)
qed

subsection \<open>Shared batches\<close>

lemma sum_list_map_update:
  fixes f :: "'a \<Rightarrow> 'b::comm_monoid_add"
  assumes "distinct hs" "h \<in> set hs" "h < length bs"
  shows "sum_list (map (\<lambda>x. f (bs[h := b] ! x)) hs) + f (bs ! h) = sum_list (map (\<lambda>x. f (bs ! x)) hs) + f b"
  using assms
proof (induction hs)
  case (Cons x hs)
  show ?case
  proof (cases "x = h")
    case True
    then have "\<And>y. y \<in> set hs \<Longrightarrow> bs[h := b] ! y = bs ! y"
      using Cons.prems(1) by (auto intro!: nth_list_update_neq)
    then have "sum_list (map (\<lambda>x. f (bs[h := b] ! x)) hs) = sum_list (map (\<lambda>x. f (bs ! x)) hs)"
      by (simp cong: map_cong)
    with True Cons.prems(3) show ?thesis by (simp add: ac_simps)
  next
    case False
    with Cons show ?thesis by (simp add: add.assoc)
  qed
qed simp

lemma shared_update:
  assumes "distinct hs" "h \<in> set hs" "h < length bs"
  shows "shared (bs[h := b]) hs + batch_unread (bs ! h) = shared bs hs + batch_unread b"
  unfolding shared_def by (rule sum_list_map_update [OF assms])

lemma shared_cong: "(\<And>h. h \<in> set hs \<Longrightarrow> bs' ! h = bs ! h) \<Longrightarrow> shared bs' hs = shared bs hs"
  unfolding shared_def by (metis (mono_tags, lifting) map_cong)

lemma slice_indices:
  assumes "a \<le> b" "b \<le> length fs"
  shows "map snd (take (b - a) (drop a fs)) = map (\<lambda>i. snd (fs ! i)) [a..<b]"
  using assms by (intro nth_equalityI) (simp_all add: nth_append)

lemma steal_group_ok:
  assumes inv: "fb_inv b" and ne: "fb_groups b \<noteq> []"
    and g: "g = last (fb_groups b)"
    and b': "b' = b\<lparr>fb_groups := butlast (fb_groups b),
      fb_owned := take (fg_start g) (fb_owned b) @ replicate (fg_end g - fg_start g) False
        @ drop (fg_end g) (fb_owned b)\<rparr>"
  shows "fg_start g < fg_end g" "fg_end g \<le> length (fb_files b)" "length (fb_owned b) = length (fb_files b)"
    "fb_inv b'" "fb_pending b = fb_pending b' @ [fg_start g..<fg_end g]"
proof -
  have split: "fb_groups b = butlast (fb_groups b) @ [g]" using ne g by simp
  have "group_ok (fb_files b) g" using inv ne g by (simp add: fb_inv_def)
  then show bounds: "fg_start g < fg_end g" "fg_end g \<le> length (fb_files b)" by (simp_all add: group_ok_def)
  show len: "length (fb_owned b) = length (fb_files b)" using inv by (simp add: fb_inv_def)
  have before: "\<forall>x\<in>set (butlast (fb_groups b)). fg_end x \<le> fg_start g"
    using inv unfolding fb_inv_def by (subst (asm) split) (auto simp: sorted_wrt_append)
  have sub: "x \<in> set (butlast (fb_groups b)) \<Longrightarrow> x \<in> set (fb_groups b)" for x by (rule in_set_butlastD)
  have own: "fb_owned b' ! i = fb_owned b ! i" if "i < fg_start g" for i
    using that bounds len by (simp add: b' nth_append)
  have "sorted_wrt (\<lambda>g h. fg_end g \<le> fg_start h) (butlast (fb_groups b))"
    using inv unfolding fb_inv_def by (subst (asm) split) (auto simp: sorted_wrt_append)
  then show "fb_inv b'"
    using inv before own sub bounds len by (fastforce simp: fb_inv_def b')
  have "fb_pending b = concat (map (\<lambda>g. [fg_start g..<fg_end g]) (butlast (fb_groups b) @ [g]))"
    using split by (simp add: fb_pending_def)
  then show "fb_pending b = fb_pending b' @ [fg_start g..<fg_end g]"
    by (simp add: fb_pending_def b')
qed

text \<open>
  Stealing a group from a small-file batch: the first of its files becomes an ordinary probe of
  the thief, the others go back to the queue.
\<close>

definition fast_stolen :: "client \<Rightarrow> sched \<Rightarrow> nat \<Rightarrow> sched \<Rightarrow> bool" where
  "fast_stolen c s i s' \<longleftrightarrow> (\<exists>sibs. queued (files s') = queued (files s) + sibs \<and>
     shared (batch_store s) (fast_groups s) = shared (batch_store s') (fast_groups s') + add_mset i sibs \<and>
     sched_inv (c\<lparr>probes := probes c - sibs\<rparr>) s' \<and> sibs \<subseteq># probes c \<and> fast_probing s' < probing s' \<and>
     s' = s\<lparr>batch_store := batch_store s', fast_probing := fast_probing s', probing := probing s',
            files := files s', signals := signals s'\<rparr>)"

lemma steal_fast_from_ok:
  assumes inv: "sched_inv c s" and hs: "set hs \<subseteq> set (fast_groups s)"
  shows "\<exists>f s'. steal_fast_from hs s = Some (f, s') \<and>
    (case f of
       None \<Rightarrow> s' = s \<and> (\<forall>h\<in>set hs. fb_groups (batch_store s ! h) = [])
     | Some i \<Rightarrow> fast_stolen c s i s')"
  using hs
proof (induction hs)
  case (Cons h hs)
  note I = sched_invD [OF inv]
  note P = probes_okD [OF I(3)]
  let ?b = "batch_store s ! h"
  have hm: "h \<in> set (fast_groups s)" using Cons.prems by simp
  have h: "h < length (batch_store s)" using P(7) [OF hm] .
  show ?case
  proof (cases "fb_groups ?b = []")
    case True
    obtain f s' where IH: "steal_fast_from hs s = Some (f, s')"
        "case f of
           None \<Rightarrow> s' = s \<and> (\<forall>h\<in>set hs. fb_groups (batch_store s ! h) = [])
         | Some i \<Rightarrow> fast_stolen c s i s'"
      using Cons by auto
    with True h show ?thesis by (intro exI [of _ f] exI [of _ s']) (auto simp: vec_get_def split: option.splits)
  next
    case False
    define g where "g = last (fb_groups ?b)"
    define b' where "b' = ?b\<lparr>fb_groups := butlast (fb_groups ?b),
      fb_owned := take (fg_start g) (fb_owned ?b) @ replicate (fg_end g - fg_start g) False
        @ drop (fg_end g) (fb_owned ?b)\<rparr>"
    have binv: "fb_inv ?b" using P(8) h by simp
    note G = steal_group_ok [OF binv False g_def b'_def]
    define fs where "fs = take (fg_end g - fg_start g) (drop (fg_start g) (fb_files ?b))"
    have len: "length fs = fg_end g - fg_start g" using G(1,2) by (simp add: fs_def)
    then obtain f rest where fs: "fs = f # rest" using G(1) by (cases fs) auto
    obtain sz i where f: "f = (sz, i)" by fastforce
    define sibs where "sibs = mset (map snd rest)"
    have "mset (map snd fs) = mset (map (\<lambda>i. snd (fb_files ?b ! i)) [fg_start g..<fg_end g])"
      using slice_indices [of "fg_start g" "fg_end g" "fb_files ?b"] G(1,2) by (simp add: fs_def)
    then have unread: "batch_unread ?b = batch_unread b' + add_mset i sibs"
      unfolding batch_unread_def G(5) by (simp add: fs f sibs_def b'_def)
    define bs' where "bs' = (batch_store s)[h := b']"
    have sh: "shared (batch_store s) (fast_groups s) = shared bs' (fast_groups s) + add_mset i sibs"
      using shared_update [OF P(6) hm h, of b'] unread by (simp add: bs'_def ac_simps)
    have sub: "add_mset i sibs \<subseteq># probes c"
      using P(4) sh by (metis subset_mset.order_trans mset_subset_eq_add_right)
    then have sub': "sibs \<subseteq># probes c" using subset_mset.order_trans [OF _ sub, of sibs] by simp
    have size_le: "length fs \<le> fast_probing s" "length fs = Suc (size sibs)"
      using P(5) sh by (simp_all add: fs sibs_def)
    let ?s1 = "s\<lparr>batch_store := bs', fast_probing := fast_probing s - length fs,
      probing := probing s - size sibs\<rparr>"
    have "\<forall>x\<in>set rest. snd x < jobs_len (job_table s)"
      using P(3) mset_subset_eqD [OF sub'] by (auto simp: sibs_def)
    then obtain q where q: "queue_files rest ?s1 = Some (?s1\<lparr>files := q\<rparr>)"
        "files_ok q (job_arena s) (job_table s)" "queued q = queued (files s) + sibs"
      using queue_files_ok [of ?s1 rest] I(1) by (auto simp: sibs_def)
    let ?s' = "notify NotifyAll (?s1\<lparr>files := q\<rparr>)"
    have glen: "fg_end g - fg_start g = Suc (size sibs)" "fg_end g - Suc (fg_start g) = size sibs"
      using len size_le(2) by simp_all
    have run: "steal_fast_from (h # hs) s = Some (Some i, ?s')"
      using h False G(1-3) q(1) size_le P(2)
      by (simp add: vec_get_def group_slice_def usub_le Let_def fs f flip: g_def fs_def b'_def)
        (simp add: fs bs'_def glen usub_le)
    have "shared bs' (fast_groups s) + sibs \<subseteq># probes c"
      using subset_mset.order_trans [OF _ P(4), of "shared bs' (fast_groups s) + sibs"] sh by simp
    then have "shared bs' (fast_groups s) \<subseteq># probes c - sibs"
      using sub' by (simp add: subset_mset.le_diff_conv2)
    moreover have "size (probes c) = size (probes c - sibs) + size sibs"
      using sub' by (metis size_union subset_mset.diff_add)
    moreover have "fb_inv b" if "b \<in> set bs'" for b
      using that P(8) G(4) set_update_subset_insert [of "batch_store s" h b'] by (auto simp: bs'_def)
    moreover have "size (shared bs' (fast_groups s)) \<le> fast_probing s - length fs"
      using P(5) sh size_le by simp
    ultimately have "probes_ok (probes c - sibs) (spent c) (probing s - size sibs) (fast_probing s - length fs)
        bs' (fast_groups s) (jobs_len (job_table s))"
      using P size_le in_diffD [of _ "probes c" sibs] by (auto simp: probes_ok_def bs'_def)
    moreover have "queued q + (probes c - sibs) = queued (files s) + probes c"
      using q(3) sub' by (metis add.assoc add.commute subset_mset.add_diff_inverse)
    ultimately have "sched_inv (c\<lparr>probes := probes c - sibs\<rparr>) ?s'"
      using I q(2) by (simp add: sched_inv_def notify_def)
    then have "fast_stolen c s i ?s'"
      unfolding fast_stolen_def using q(3) sub' sh size_le P(1,2) P(5) sub'
      by (intro exI [of _ sibs]) (auto simp: notify_def dest: size_mset_mono)
    with run show ?thesis by auto
  qed
qed simp

end
