(* ===== verification/Sched_Steps.thy ===== *)
theory Sched_Steps
  imports Sched_Inv
begin

section \<open>Runs of the scheduler\<close>

text \<open>
  The operations of the scheduler as steps, what a worker must respect to take each one, and
  the states that are reached. Every step from a reached state returns (no assertion fails, no
  counter goes below zero, no range is queued twice) and keeps the invariant.
\<close>

subsection \<open>What workers hold after a step\<close>

definition after :: "client \<Rightarrow> sched \<Rightarrow> sched \<Rightarrow> client" where
  "after c s s' = c\<lparr>lo := lo c @ map r_pos (drop (length (lo c)) (range_store s')),
     probes := probes c + queued (files s) - queued (files s')\<rparr>"

lemma after_same:
  assumes "sched_inv c s" "length (range_store s') = length (range_store s)"
    "queued (files s') = queued (files s)"
  shows "after c s s' = c"
proof -
  have "length (lo c) = length (range_store s)"
    using handles_okD(1) [OF ranges_okD(3) [OF sched_invD(2) [OF assms(1)]]] .
  with assms(2,3) show ?thesis by (simp add: after_def)
qed

lemma after_files:
  assumes "sched_inv c s" "range_store s' = range_store s"
  shows "after c s s' = c\<lparr>probes := probes c + queued (files s) - queued (files s')\<rparr>"
proof -
  have "length (lo c) = length (range_store s)"
    using handles_okD(1) [OF ranges_okD(3) [OF sched_invD(2) [OF assms(1)]]] .
  with assms(2) show ?thesis by (simp add: after_def)
qed

lemma after_claim:
  assumes "sched_inv c s" "range_store s' = st @ [r]" "length st = length (range_store s)"
    "queued (files s') = queued (files s)"
  shows "after c s s' = c\<lparr>lo := lo c @ [r_pos r]\<rparr>"
proof -
  have "length (lo c) = length (range_store s)"
    using handles_okD(1) [OF ranges_okD(3) [OF sched_invD(2) [OF assms(1)]]] .
  with assms show ?thesis by (simp add: after_def)
qed

subsection \<open>Handing out work\<close>

definition idle :: "sched \<Rightarrow> bool" where
  "idle s \<longleftrightarrow> rq_items (ranges s) = {#} \<and> finishes s = [] \<and> queued (files s) = {#} \<and>
     (\<forall>h\<in>set (fast_groups s). fb_groups (batch_store s ! h) = [])"

definition handed :: "client \<Rightarrow> sched \<Rightarrow> item option \<Rightarrow> sched \<Rightarrow> bool" where
  "handed c s it s' \<longleftrightarrow> (case it of
     None \<Rightarrow> s' = s \<and> idle s
   | Some (ItemFile i) \<Rightarrow> i \<in># probes (after c s s') - shared (batch_store s') (fast_groups s') \<and>
       fast_probing s' < probing s' \<and> finishes s' = finishes s \<and> finishing s' = finishing s
   | Some (ItemRange h) \<Rightarrow> h \<in> set (inflight s') \<and> h \<notin> set (inflight s) \<and>
       r_pos (range_store s' ! h) = lo (after c s s') ! h \<and>
       r_pos (range_store s' ! h) < r_end (range_store s' ! h) \<and>
       finishes s' = finishes s \<and> finishing s' = finishing s
   | Some (ItemFinish i m) \<Rightarrow> finishes s = finishes s' @ [(i, m)] \<and> finishing s' = finishing s + 1
   | Some ItemExit \<Rightarrow> False)"

lemma sched_inv_ranges:
  assumes "sched_inv c s" "ranges_ok lo' (range_store s') (inflight s') (ranges s') (outstanding s')"
    "\<And>i. (outstanding s' i = None) = (outstanding s i = None)"
    "files s' = files s" "job_arena s' = job_arena s" "job_table s' = job_table s" "probing s' = probing s"
    "fast_probing s' = fast_probing s" "batch_store s' = batch_store s" "fast_groups s' = fast_groups s"
    "block s' = block s" "min_split s' = min_split s"
  shows "sched_inv (c\<lparr>lo := lo'\<rparr>) s'"
  using assms by (simp add: sched_inv_def tokens_ok_def)

lemma outstanding_iff:
  assumes "ranges_ok lo' st infl q out"
  shows "out i = None \<longleftrightarrow> owed (pieces lo' st infl q) i = 0"
  using ranges_okD(5) [OF assms] by (simp add: counts_ok_def)

lemma take_range_ok:
  assumes inv: "sched_inv c s" and pop: "rq_pop (ranges s) = Some (Some (i, a, e), q)"
  shows "\<exists>h s'. take_work s = Some (Some (ItemRange h), s') \<and> sched_inv (after c s s') s' \<and>
    cover (sched_pieces (lo (after c s s')) s') = cover (sched_pieces (lo c) s) \<and>
    handed c s (Some (ItemRange h)) s'"
proof -
  note I = sched_invD [OF inv] and R = ranges_okD [OF sched_invD(2) [OF inv]]
  note H = handles_okD [OF R(3)]
  have q: "rq_inv q" "rq_items (ranges s) = add_mset (i, a, e) (rq_items q)"
    using rq.pop_SomeD(1,2) [OF R(1) pop] .
  obtain h s' where run: "claim_range i a e (s\<lparr>ranges := q\<rparr>) = (h, s')" by fastforce
  note C = claim_queued_ok [OF I(2) q run]
  have aft: "after c s s' = c\<lparr>lo := lo c @ [a]\<rparr>"
    by (rule after_claim [OF inv, of _ "range_store s" "\<lparr>r_idx = i, r_pos = a, r_end = e, r_split = None\<rparr>",
        simplified]) (simp_all add: C(3))
  have "sched_inv (after c s s') s'"
    unfolding aft using C(1) by (rule sched_inv_ranges [OF inv]) (simp_all add: C(3))
  moreover have "cover (sched_pieces (lo (after c s s')) s') = cover (sched_pieces (lo c) s)"
    using C(2) by (simp add: aft)
  moreover have "h \<notin> set (inflight s)" using H(3) C(4) by blast
  then have "handed c s (Some (ItemRange h)) s'"
    unfolding handed_def aft using C(5) R(2) [of i a e] q(2) H(1) by (simp add: C(3,4) nth_append)
  moreover have "take_work s = Some (Some (ItemRange h), s')"
    using pop run by (simp add: take_work_def)
  ultimately show ?thesis by blast
qed

lemma take_file_ok:
  assumes inv: "sched_inv c s" and pop: "fq_pop (files s) = Some (Some it, q)"
    and s': "s' = s\<lparr>files := q, probing := probing s + 1\<rparr>"
  shows "sched_inv (after c s s') s'" "cover (sched_pieces (lo (after c s s')) s') = cover (sched_pieces (lo c) s)"
    "handed c s (Some (ItemFile (item_index it))) s'"
proof -
  note I = sched_invD [OF inv]
  note F = files_okD [OF I(1)] and P = probes_okD [OF I(3)]
  let ?i = "item_index it"
  have q: "fq_inv q" "fq_items (files s) = add_mset it (fq_items q)"
    using fq.pop_SomeD(1,2) [OF F(1) pop] .
  then have qd: "queued (files s) = add_mset ?i (queued q)" by (simp add: queued_def)
  have grp: "group_of q = group_of (files s)"
    using fq_pop_some [OF F(1)] pop q(2) by fastforce
  have aft: "after c s s' = c\<lparr>probes := add_mset ?i (probes c)\<rparr>"
    using after_files [OF inv, of s'] qd by (simp add: s')
  have "?i < jobs_len (job_table s)" using queued_index [OF I(1)] qd by simp
  then have "probes_ok (add_mset ?i (probes c)) (spent c) (probing s + 1) (fast_probing s) (batch_store s)
      (fast_groups s) (jobs_len (job_table s))"
    using P by (auto simp: probes_ok_def intro: subset_mset.order_trans)
  moreover have "files_ok q (job_arena s) (job_table s)" using F q(1) grp by (simp add: files_ok_def)
  ultimately show "sched_inv (after c s s') s'"
    unfolding aft using I qd by (simp add: sched_inv_def s' ac_simps)
  show "cover (sched_pieces (lo (after c s s')) s') = cover (sched_pieces (lo c) s)"
    unfolding aft by (simp add: s')
  have "count (probes c) ?i = 0"
    using tokens_okD(2) [OF I(4), of ?i] qd by (simp add: count_eq_zero_iff [symmetric])
  then have "?i \<notin># shared (batch_store s) (fast_groups s)"
    using mset_subset_eqD [OF P(4)] by (metis count_eq_zero_iff)
  then have "?i \<in># add_mset ?i (probes c) - shared (batch_store s) (fast_groups s)"
    by (simp add: in_diff_count count_eq_zero_iff [symmetric])
  with P(2) show "handed c s (Some (ItemFile (item_index it))) s'"
    unfolding handed_def aft by (simp add: s')
qed

lemma take_steal_ok:
  assumes inv: "sched_inv c s" and run: "steal s = Some (Some h, s')"
  shows "sched_inv (after c s s') s'" "cover (sched_pieces (lo (after c s s')) s') = cover (sched_pieces (lo c) s)"
    "handed c s (Some (ItemRange h)) s'"
proof -
  note I = sched_invD [OF inv] and R = ranges_okD [OF sched_invD(2) [OF inv]]
  note H = handles_okD [OF R(3)]
  obtain m v where h: "h = length (range_store s)" and S: "stolen (lo c) s v m s'"
    using steal_ok [OF I(2)] I(5) run by fastforce
  let ?r = "range_store s ! v"
  have S': "sched_ranges_ok (lo c @ [m]) s'" "m < r_end ?r"
      "range_store s' = (range_store s)[v := ?r\<lparr>r_end := m\<rparr>] @ [?r\<lparr>r_pos := m\<rparr>]"
      "\<And>i. (outstanding s' i = None) = (outstanding s i = None)"
      "cover (sched_pieces (lo c @ [m]) s') = cover (sched_pieces (lo c) s)"
    using S unfolding stolen_def by blast+
  have s': "s' = s\<lparr>range_store := range_store s', inflight := inflight s @ [length (range_store s)],
            outstanding := outstanding s'\<rparr>"
    using S unfolding stolen_def by blast
  have fields: "files s' = files s" "job_arena s' = job_arena s" "job_table s' = job_table s"
      "probing s' = probing s" "fast_probing s' = fast_probing s" "batch_store s' = batch_store s"
      "fast_groups s' = fast_groups s" "block s' = block s" "min_split s' = min_split s"
      "finishes s' = finishes s" "finishing s' = finishing s" "inflight s' = inflight s @ [length (range_store s)]"
    by (subst s', simp)+
  have aft: "after c s s' = c\<lparr>lo := lo c @ [m]\<rparr>"
    using after_claim [OF inv S'(3)] fields(1) by simp
  show "sched_inv (after c s s') s'"
    unfolding aft by (rule sched_inv_ranges [OF inv S'(1,4) fields(1-9)])
  show "cover (sched_pieces (lo (after c s s')) s') = cover (sched_pieces (lo c) s)"
    unfolding aft using S'(5) by simp
  have "h \<notin> set (inflight s)" using H(3) h by blast
  then show "handed c s (Some (ItemRange h)) s'"
    unfolding handed_def aft using S'(2,3) fields h H(1) by (simp add: nth_append)
qed

lemma take_fast_ok:
  assumes inv: "sched_inv c s" and st: "fast_stolen c s i s'"
  shows "sched_inv (after c s s') s'" "cover (sched_pieces (lo (after c s s')) s') = cover (sched_pieces (lo c) s)"
    "handed c s (Some (ItemFile i)) s'"
proof -
  note I = sched_invD [OF inv]
  note P = probes_okD [OF I(3)]
  obtain sibs where S: "queued (files s') = queued (files s) + sibs"
      "shared (batch_store s) (fast_groups s) = shared (batch_store s') (fast_groups s') + add_mset i sibs"
      "sched_inv (c\<lparr>probes := probes c - sibs\<rparr>) s'" "sibs \<subseteq># probes c" "fast_probing s' < probing s'"
      "s' = s\<lparr>batch_store := batch_store s', fast_probing := fast_probing s', probing := probing s',
            files := files s', signals := signals s'\<rparr>"
    using st unfolding fast_stolen_def by blast
  have fields: "range_store s' = range_store s" "inflight s' = inflight s" "ranges s' = ranges s"
      "finishes s' = finishes s" "finishing s' = finishing s"
    by (subst S(6), simp)+
  have aft: "after c s s' = c\<lparr>probes := probes c - sibs\<rparr>"
    using after_files [OF inv fields(1)] S(1) by simp
  show "sched_inv (after c s s') s'" unfolding aft by (rule S(3))
  show "cover (sched_pieces (lo (after c s s')) s') = cover (sched_pieces (lo c) s)"
    unfolding aft by (simp add: fields)
  let ?sh = "shared (batch_store s') (fast_groups s')"
  have "count (?sh + add_mset i sibs) i \<le> count (probes c) i"
    using P(4) S(2) by (metis mset_subset_eq_count)
  then have "i \<in># probes c - sibs - ?sh"
    by (simp add: in_diff_count)
  with S(5) fields show "handed c s (Some (ItemFile i)) s'"
    unfolding handed_def aft by simp
qed

lemma take_work_ok:
  assumes inv: "sched_inv c s"
  shows "\<exists>it s'. take_work s = Some (it, s') \<and> sched_inv (after c s s') s' \<and>
    cover (sched_pieces (lo (after c s s')) s') = cover (sched_pieces (lo c) s) \<and> handed c s it s'"
proof -
  note I = sched_invD [OF inv] and R = ranges_okD [OF sched_invD(2) [OF inv]]
  note F = files_okD [OF I(1)]
  obtain rg q where rg: "rq_pop (ranges s) = Some (rg, q)" using rq.pop_total [OF R(1)] by blast
  show ?thesis
  proof (cases rg)
    case (Some r)
    with rg take_range_ok [OF inv] show ?thesis by (cases r) blast
  next
    case norange: None
    note rq0 = rq.pop_NoneD [OF R(1) rg [unfolded norange]]
    show ?thesis
    proof (cases "finishes s = []")
      case False
      obtain i m where im: "last (finishes s) = (i, m)" by fastforce
      let ?s' = "s\<lparr>finishes := butlast (finishes s), finishing := finishing s + 1\<rparr>"
      have aft: "after c s ?s' = c" by (rule after_same [OF inv]) simp_all
      have "take_work s = Some (Some (ItemFinish i m), ?s')"
        using rg norange False im by (simp add: take_work_def)
      moreover have "sched_inv (after c s ?s') ?s'" unfolding aft using inv by (simp add: sched_inv_def)
      moreover have "handed c s (Some (ItemFinish i m)) ?s'"
        using False im by (simp add: handed_def) (metis append_butlast_last_id)
      moreover have "cover (sched_pieces (lo (after c s ?s')) ?s') = cover (sched_pieces (lo c) s)"
        unfolding aft by simp
      ultimately show ?thesis by blast
    next
      case nofin: True
      obtain f fq where f: "fq_pop (files s) = Some (f, fq)" using fq.pop_total [OF F(1)] by blast
      show ?thesis
      proof (cases f)
        case (Some it)
        let ?s' = "s\<lparr>files := fq, probing := probing s + 1\<rparr>"
        have "take_work s = Some (Some (ItemFile (item_index it)), ?s')"
          using rg norange nofin f Some by (simp add: take_work_def)
        with take_file_ok [OF inv f [unfolded Some] refl] show ?thesis by blast
      next
        case nofile: None
        note fq0 = fq.pop_NoneD [OF F(1) f [unfolded nofile]]
        obtain h s1 where h: "steal s = Some (h, s1)" using steal_ok [OF I(2)] I(5) by blast
        show ?thesis
        proof (cases h)
          case (Some h')
          have "take_work s = Some (Some (ItemRange h'), s1)"
            using rg norange nofin f nofile h Some by (simp add: take_work_def)
          with take_steal_ok [OF inv h [unfolded Some]] show ?thesis by blast
        next
          case nosteal: None
          then have s1: "s1 = s" using steal_ok [OF I(2)] I(5) h by fastforce
          obtain g s2 where g: "steal_fast_group s = Some (g, s2)"
              "case g of None \<Rightarrow> s2 = s \<and> (\<forall>h\<in>set (fast_groups s). fb_groups (batch_store s ! h) = [])
               | Some i \<Rightarrow> fast_stolen c s i s2"
            using steal_fast_from_ok [OF inv, of "fast_groups s"] by (auto simp: steal_fast_group_def)
          have run: "take_work s = Some (map_option ItemFile g, s2)"
            using rg norange nofin f nofile h nosteal s1 g(1) by (simp add: take_work_def)
          show ?thesis
          proof (cases g)
            case None
            have "after c s s = c" by (rule after_same [OF inv]) simp_all
            moreover have "idle s"
              using g(2) None rq0 fq0 nofin by (simp add: idle_def queued_def)
            ultimately show ?thesis
              using run g(2) None inv by (auto simp: handed_def)
          next
            case (Some i)
            with g(2) take_fast_ok [OF inv, of i s2] run show ?thesis by auto
          qed
        qed
      qed
    qed
  qed
qed

text \<open>When the scheduler says it is finished, nothing is owed, queued or held.\<close>

lemma finished_empty:
  assumes inv: "sched_inv c s" and fin: "finished s"
  shows "sched_pieces (lo c) s = {#}" "probes c = {#}" "queued (files s) = {#}" "outstanding s = Map.empty"
    "idle s"
proof -
  note I = sched_invD [OF inv] and R = ranges_okD [OF sched_invD(2) [OF inv]]
  note P = probes_okD [OF I(3)] and F = files_okD [OF I(1)]
  have rq: "rq_items (ranges s) = {#}"
    using fin rq_is_empty_iff [OF R(1)] rq_items_empty [OF R(1)] by (simp add: finished_def)
  then show ps: "sched_pieces (lo c) s = {#}" using fin by (simp add: finished_def pieces_def)
  show pr: "probes c = {#}" using P(1) fin by (simp add: finished_def)
  show fq: "queued (files s) = {#}"
    using fin fq_is_empty_iff [OF F(1)] by (simp add: finished_def queued_def)
  show "outstanding s = Map.empty"
    using outstanding_iff [OF I(2)] ps by (intro ext) simp
  have "fb_groups (batch_store s ! h) = []" if h: "h \<in> set (fast_groups s)" for h
  proof (rule ccontr)
    assume ne: "fb_groups (batch_store s ! h) \<noteq> []"
    have "shared (batch_store s) (fast_groups s) = {#}" using P(4) pr by simp
    then have "batch_unread (batch_store s ! h) = {#}"
      using h by (auto simp: shared_def dest!: split_list)
    moreover have "fb_inv (batch_store s ! h)" using P(7,8) h by simp
    ultimately show False
      using steal_group_ok(1,5) [OF _ ne refl refl] by (simp add: batch_unread_def mset_set_empty_iff)
  qed
  then show "idle s" using rq fq fin by (simp add: idle_def finished_def)
qed

lemma take_work_finished:
  assumes inv: "sched_inv c s" and fin: "finished s"
  shows "take_work s = Some (None, s)"
proof -
  note R = ranges_okD [OF sched_invD(2) [OF inv]] and F = files_okD [OF sched_invD(1) [OF inv]]
  note E = finished_empty [OF inv fin]
  have "rq_pop (ranges s) = Some (None, ranges s)" using rq.pop_none [OF R(1)] E(5) by (simp add: idle_def)
  moreover have "fq_pop (files s) = Some (None, files s)" using fq.pop_none [OF F(1)] E(3) by (simp add: queued_def)
  moreover have "steal s = Some (None, s)" using fin by (simp add: steal_def finished_def)
  moreover have "steal_fast_from hs s = Some (None, s)" if "set hs \<subseteq> set (fast_groups s)" for hs
    using that E(5) probes_okD(7) [OF sched_invD(3) [OF inv]]
    by (induction hs) (auto simp: vec_get_def idle_def)
  ultimately show ?thesis using fin by (simp add: take_work_def steal_fast_group_def finished_def)
qed

lemma sched_next_ok:
  assumes inv: "sched_inv c s"
  shows "\<exists>it s'. sched_next s = Some (it, s') \<and> sched_inv (after c s s') s' \<and>
    cover (sched_pieces (lo (after c s s')) s') = cover (sched_pieces (lo c) s) \<and>
    (it = Some ItemExit \<longleftrightarrow> abort s \<or> finished s) \<and>
    (it = None \<longrightarrow> (scan_done s \<or> work_released s \<longrightarrow> idle s) \<and> s' = s\<lparr>waiting_workers := waiting_workers s + 1\<rparr>) \<and>
    (it \<noteq> None \<and> it \<noteq> Some ItemExit \<longrightarrow> handed c s it s')"
proof (cases "abort s")
  case True
  let ?s' = "notify TuneOne s"
  have "after c s ?s' = c" by (rule after_same [OF inv]) (simp_all add: notify_def)
  with True inv show ?thesis by (auto simp: sched_next_def sched_inv_def notify_def)
next
  case live: False
  show ?thesis
  proof (cases "finished s")
    case True
    let ?s' = "notify TuneOne s"
    have "after c s ?s' = c" by (rule after_same [OF inv]) (simp_all add: notify_def)
    moreover have "sched_next s = Some (Some ItemExit, ?s')"
      using live True take_work_finished [OF inv True] by (simp add: sched_next_def)
    ultimately show ?thesis using True inv by (auto simp: sched_inv_def notify_def)
  next
    case unfin: False
    let ?w = "s\<lparr>waiting_workers := waiting_workers s + 1\<rparr>"
    have wait: "after c s ?w = c" by (rule after_same [OF inv]) simp_all
    have winv: "sched_inv c ?w" using inv by (simp add: sched_inv_def)
    show ?thesis
    proof (cases "scan_done s \<or> work_released s")
      case False
      then have "sched_next s = Some (None, ?w)" using live unfin by (simp add: sched_next_def)
      with wait winv live unfin False show ?thesis by auto
    next
      case True
      obtain it s' where T: "take_work s = Some (it, s')" "sched_inv (after c s s') s'"
          "cover (sched_pieces (lo (after c s s')) s') = cover (sched_pieces (lo c) s)" "handed c s it s'"
        using take_work_ok [OF inv] by blast
      show ?thesis
      proof (cases it)
        case None
        with T(4) have "s' = s" "idle s" by (simp_all add: handed_def)
        with T(1) None live unfin True have "sched_next s = Some (None, ?w)" by (simp add: sched_next_def)
        with wait winv live unfin \<open>idle s\<close> show ?thesis by auto
      next
        case (Some i)
        with T(4) have "i \<noteq> ItemExit" by (auto simp: handed_def)
        moreover have "sched_next s = Some (it, s')" using T(1) Some live True by (simp add: sched_next_def)
        ultimately show ?thesis using T live unfin Some by blast
      qed
    qed
  qed
qed

subsection \<open>Steps and the workers' contract\<close>

datatype op =
    PushFile file_job_data "entry option"
  | AnticipateFileWork
  | ReleasePreflightedWork
  | ScanDone
  | Abort
  | RequestWorkerCount nat
  | ArmDirectFallback nat
  | ReserveInitialRanges nat
  | RequestDirectFallback
  | TakeWorkerCountRequest
  | HoldAtReceiver nat
  | ReceiverPublished nat
  | TakeReceiverHold nat
  | FailFile nat
  | Next
  | NextWoken
  | TakeSmallNear nat nat nat nat
  | Requeue nat
  | RequeueProbed nat
  | BeginFastBatch nat nat
  | MarkFast nat
  | ShareFastGroups "(nat \<times> nat) list" "(nat \<times> nat) list"
  | ClaimFast nat nat nat
  | FinishFastGroups nat
  | CompleteFastBatch nat "nat multiset"
  | RangesReady nat "(nat \<times> nat) list"
  | RangeWork nat "nat option"
  | TakeShortRange nat nat
  | ClaimWindow nat nat
  | UpdateRangeSplit nat range_split
  | ReleaseRest nat
  | RangeDone nat
  | RetryRange nat
  | ReturnFile nat
  | ReturnRange nat
  | ReturnFinish nat bool
  | FinishDone
  | RequeueFinish nat bool
  | ClearFinishedWork

text \<open>
  \<open>RetryRange\<close> passes the offset where the claim began, which the worker remembers. The
  second argument of \<open>CompleteFastBatch\<close> is the bag of files of the batch the worker still
  held; the others of the \<open>n\<close> were queued again before.
\<close>

definition exec :: "client \<Rightarrow> op \<Rightarrow> sched \<Rightarrow> sched option" where
  "exec c op s = (case op of
     PushFile data d \<Rightarrow> map_option snd (push_file data d s)
   | AnticipateFileWork \<Rightarrow> Some (anticipate_file_work s)
   | ReleasePreflightedWork \<Rightarrow> Some (release_preflighted_work s)
   | ScanDone \<Rightarrow> Some (sched_scan_done s)
   | Abort \<Rightarrow> Some (sched_abort s)
   | RequestWorkerCount n \<Rightarrow> Some (request_worker_count n s)
   | ArmDirectFallback n \<Rightarrow> Some (arm_direct_fallback n s)
   | ReserveInitialRanges n \<Rightarrow> Some (reserve_initial_ranges n s)
   | RequestDirectFallback \<Rightarrow> Some (request_direct_fallback s)
   | TakeWorkerCountRequest \<Rightarrow> Some (snd (take_worker_count_request s))
   | HoldAtReceiver i \<Rightarrow> Some (hold_at_receiver i s)
   | ReceiverPublished i \<Rightarrow> Some (receiver_published i s)
   | TakeReceiverHold i \<Rightarrow> Some (snd (take_receiver_hold i s))
   | FailFile i \<Rightarrow> Some (snd (fail_file i s))
   | Next \<Rightarrow> map_option snd (sched_next s)
   | NextWoken \<Rightarrow> map_option snd (sched_next_woken s)
   | TakeSmallNear f ms mn mb \<Rightarrow> map_option snd (take_small_near f ms mn mb s)
   | Requeue i \<Rightarrow> requeue i s
   | RequeueProbed i \<Rightarrow> requeue_probed i s
   | BeginFastBatch a m \<Rightarrow> map_option snd (begin_fast_batch a m s)
   | MarkFast n \<Rightarrow> mark_fast n s
   | ShareFastGroups fs gs \<Rightarrow> map_option snd (share_fast_groups fs gs s)
   | ClaimFast h mf mb \<Rightarrow> map_option snd (claim_fast h mf mb s)
   | FinishFastGroups h \<Rightarrow> map_option snd (finish_fast_groups h s)
   | CompleteFastBatch n D \<Rightarrow> complete_fast_batch n s
   | RangesReady i rs \<Rightarrow> map_option snd (ranges_ready i rs s)
   | RangeWork i m \<Rightarrow> map_option snd (range_work i m s)
   | TakeShortRange i m \<Rightarrow> map_option snd (take_short_range i m s)
   | ClaimWindow h w \<Rightarrow> map_option snd (claim_window h w s)
   | UpdateRangeSplit h sp \<Rightarrow> update_range_split h sp s
   | ReleaseRest h \<Rightarrow> release_rest h s
   | RangeDone h \<Rightarrow> map_option snd (range_done h s)
   | RetryRange h \<Rightarrow> retry_range h (lo c ! h) s
   | ReturnFile i \<Rightarrow> return_unstarted (ItemFile i) s
   | ReturnRange h \<Rightarrow> return_unstarted (ItemRange h) s
   | ReturnFinish i m \<Rightarrow> return_unstarted (ItemFinish i m) s
   | FinishDone \<Rightarrow> finish_done s
   | RequeueFinish i m \<Rightarrow> Some (requeue_finish i m s)
   | ClearFinishedWork \<Rightarrow> Some (clear_finished_work s))"

abbreviation unread :: "sched \<Rightarrow> nat multiset" where
  "unread s \<equiv> shared (batch_store s) (fast_groups s)"

text \<open>An ordinary probe of a file: held by a worker, not in the unread part of a batch.\<close>

definition holds_probe :: "client \<Rightarrow> sched \<Rightarrow> nat \<Rightarrow> bool" where
  "holds_probe c s i \<longleftrightarrow> i \<in># probes c - unread s \<and> fast_probing s < probing s"

definition groups_valid :: "(nat \<times> nat) list \<Rightarrow> (nat \<times> nat) list \<Rightarrow> bool" where
  "groups_valid fs gs \<longleftrightarrow> (\<forall>(a, b)\<in>set gs. a < b \<and> b \<le> length fs) \<and>
     sorted_wrt (\<lambda>g h. snd g \<le> fst h) gs \<and> sum_list (map fst fs) \<le> u64_max"

definition group_files :: "(nat \<times> nat) list \<Rightarrow> (nat \<times> nat) list \<Rightarrow> nat multiset" where
  "group_files fs gs = mset (concat (map (\<lambda>(a, b). map (\<lambda>i. snd (fs ! i)) [a..<b]) gs))"

definition allowed :: "client \<Rightarrow> sched \<Rightarrow> op \<Rightarrow> bool" where
  "allowed c s op = (case op of
     PushFile data d \<Rightarrow> jobs_len (job_table s) < 2 ^ 64
   | NextWoken \<Rightarrow> 0 < waiting_workers s
   | TakeSmallNear f ms mn mb \<Rightarrow> f < jobs_len (job_table s)
   | Requeue i \<Rightarrow> i < jobs_len (job_table s) \<and> i \<notin># queued (files s) \<and> outstanding s i = None \<and>
       i \<notin># unread s
   | RequeueProbed i \<Rightarrow> holds_probe c s i
   | BeginFastBatch a m \<Rightarrow> fast_probing s < probing s \<and> 0 < m
   | MarkFast n \<Rightarrow> fast_probing s + n \<le> probing s
   | ShareFastGroups fs gs \<Rightarrow> gs \<noteq> [] \<and> groups_valid fs (tl gs) \<and>
       unread s + group_files fs (tl gs) \<subseteq># probes c \<and>
       size (unread s + group_files fs (tl gs)) \<le> fast_probing s
   | ClaimFast h mf mb \<Rightarrow> h < length (batch_store s)
   | FinishFastGroups h \<Rightarrow> h < length (batch_store s)
   | CompleteFastBatch n D \<Rightarrow> 0 < n \<and> 0 < fast_batches s \<and> n + size (unread s) \<le> fast_probing s \<and>
       D \<subseteq># probes c - unread s \<and> size D \<le> n \<and> n - size D \<le> spent c
   | RangesReady i rs \<Rightarrow> holds_probe c s i \<and> valid_ranges rs
   | ClaimWindow h w \<Rightarrow> h \<in> set (inflight s)
   | UpdateRangeSplit h sp \<Rightarrow> h \<in> set (inflight s) \<and> rs_block sp \<noteq> 0 \<and> rs_minimum sp \<noteq> 0
   | ReleaseRest h \<Rightarrow> h \<in> set (inflight s)
   | RangeDone h \<Rightarrow> h \<in> set (inflight s)
   | RetryRange h \<Rightarrow> h \<in> set (inflight s)
   | ReturnFile i \<Rightarrow> holds_probe c s i
   | ReturnRange h \<Rightarrow> h \<in> set (inflight s) \<and> r_pos (range_store s ! h) = lo c ! h \<and>
       r_pos (range_store s ! h) < r_end (range_store s ! h)
   | ReturnFinish i m \<Rightarrow> 0 < finishing s
   | FinishDone \<Rightarrow> 0 < finishing s
   | ClearFinishedWork \<Rightarrow> finished s
   | _ \<Rightarrow> True)"

definition held_after :: "client \<Rightarrow> op \<Rightarrow> sched \<Rightarrow> sched \<Rightarrow> client" where
  "held_after c op s s' = (case op of
     RangesReady i rs \<Rightarrow> (after c s s')\<lparr>probes := probes c - {#i#}\<rparr>
   | CompleteFastBatch n D \<Rightarrow> c\<lparr>probes := probes c - D, spent := spent c - (n - size D)\<rparr>
   | Requeue i \<Rightarrow> (after c s s')\<lparr>spent := spent c + (if i \<in># probes c then 1 else 0)\<rparr>
   | _ \<Rightarrow> after c s s')"

end
