(* ===== verification/Sched_Run.thy ===== *)
theory Sched_Run
  imports Sched_Steps
begin

section \<open>Every step keeps the invariant\<close>

text \<open>
  One lemma for each step of \<open>Sched_Steps\<close>: from a state with the invariant, a step its worker
  may take returns and leaves a state with the invariant. Then the reached states, and what
  holds in all of them.
\<close>

lemma frame_ok:
  assumes "sched_inv c s"
    and "files s' = files s" "job_arena s' = job_arena s" "job_table s' = job_table s"
    "range_store s' = range_store s" "inflight s' = inflight s" "ranges s' = ranges s"
    "outstanding s' = outstanding s" "probing s' = probing s" "fast_probing s' = fast_probing s"
    "batch_store s' = batch_store s" "fast_groups s' = fast_groups s" "block s' = block s"
    "min_split s' = min_split s"
  shows "sched_inv (after c s s') s'"
proof -
  have "after c s s' = c" by (rule after_same [OF assms(1)]) (simp_all add: assms)
  then show ?thesis using assms by (simp add: sched_inv_def)
qed

lemma push_file_step:
  assumes inv: "sched_inv c s" and room: "jobs_len (job_table s) < 2 ^ 64"
    and run: "push_file data d s = Some (idx, s')"
  shows "sched_inv (after c s s') s'"
proof -
  note I = sched_invD [OF inv] and P = probes_okD [OF sched_invD(3) [OF inv]]
  let ?n = "jobs_len (job_table s)"
  obtain s1 where "push_file data d s = Some (?n, s1)" and F: "files_ok (files s1) (job_arena s1) (job_table s1)"
      "jobs_list (job_arena s1) (job_table s1) = jobs_list (job_arena s) (job_table s) @ [data]"
      "queued (files s1) = add_mset ?n (queued (files s))"
    and s1: "s1 = s\<lparr>files := files s1, job_arena := job_arena s1, job_table := job_table s1,
           file_work_anticipated := True, signals := signals s1\<rparr>"
    using push_file_ok [OF I(1) room, of data d] by blast
  with run have s': "s' = s1" by simp
  have len: "jobs_len (job_table s1) = ?n + 1" using arg_cong [OF F(2), of length] by simp
  have fields: "range_store s1 = range_store s" "inflight s1 = inflight s" "ranges s1 = ranges s"
      "outstanding s1 = outstanding s" "probing s1 = probing s" "fast_probing s1 = fast_probing s"
      "batch_store s1 = batch_store s" "fast_groups s1 = fast_groups s" "block s1 = block s" "min_split s1 = min_split s"
    by (subst s1, simp)+
  have fresh: "?n \<notin># probes c" "?n \<notin># queued (files s)"
    using P(3) queued_index [OF I(1)] by blast+
  have aft: "after c s s1 = c"
    using after_files [OF inv fields(1)] F(3) fresh(1) by (simp add: diff_single_trivial)
  have "outstanding s ?n = None" using tokens_okD(5) [OF I(4), of ?n] by blast
  then have "tokens_ok (queued (files s1) + probes c) (outstanding s) (jobs_len (job_table s1))"
    using tokens_ok_add [OF I(4), of "?n + 1" ?n] fresh by (simp add: F(3) len)
  moreover have "probes_ok (probes c) (spent c) (probing s) (fast_probing s) (batch_store s) (fast_groups s)
      (jobs_len (job_table s1))"
    using I(3) len by (auto simp: probes_ok_def)
  ultimately show ?thesis
    unfolding s' aft using I F(1) by (simp add: sched_inv_def fields)
qed

subsection \<open>Files and probes\<close>

lemma take_small_step:
  assumes inv: "sched_inv c s" and f: "f < jobs_len (job_table s)"
  shows "\<exists>out s'. take_small_near f ms mn mb s = Some (out, s') \<and> sched_inv (after c s s') s' \<and>
    probes (after c s s') = probes c + mset out"
proof -
  note I = sched_invD [OF inv]
  note F = files_okD [OF I(1)] and P = probes_okD [OF I(3)]
  obtain out q taken where q: "fq_take_batch (files s) (Some f) ms mn mb = Some (out, q)" "fq_inv q"
      "fq_items (files s) = mset taken + fq_items q" "out = map item_index taken" "group_of q = group_of (files s)"
    using fq_take_batch_ok [OF F(1), of "Some f" ms mn mb] f F(3) by auto
  have qd: "queued (files s) = mset out + queued q" using q(3,4) by (simp add: queued_def)
  let ?s' = "s\<lparr>files := q, probing := probing s + length out\<rparr>"
  have aft: "after c s ?s' = c\<lparr>probes := probes c + mset out\<rparr>"
    using after_files [OF inv, of ?s'] qd by (simp add: ac_simps)
  have "i < jobs_len (job_table s)" if "i \<in># mset out" for i
    using that queued_index [OF I(1), of i] qd by simp
  then have "probes_ok (probes c + mset out) (spent c) (probing s + length out) (fast_probing s) (batch_store s)
      (fast_groups s) (jobs_len (job_table s))"
    using P subset_mset.order_trans [OF P(4), of "probes c + mset out"] by (auto simp: probes_ok_def)
  moreover have "files_ok q (job_arena s) (job_table s)" using F q(2,5) by (simp add: files_ok_def)
  ultimately have "sched_inv (after c s ?s') ?s'"
    unfolding aft using I qd by (simp add: sched_inv_def ac_simps)
  moreover have "take_small_near f ms mn mb s = Some (out, ?s')"
    using q(1) by (simp add: take_small_near_def take_small_group_def)
  ultimately show ?thesis using aft by (metis client.select_convs(2) client.surjective client.update_convs(2))
qed

lemma probe_count:
  assumes "sched_inv c s" "i \<in># probes c"
  shows "i \<notin># queued (files s)" "outstanding s i = None" "i < jobs_len (job_table s)"
    "probes c = add_mset i (probes c - {#i#})" "i \<notin># probes c - {#i#}"
proof -
  note T = tokens_okD [OF sched_invD(4) [OF assms(1)]]
  show "outstanding s i = None" "i < jobs_len (job_table s)" using T(1,4) [of i] assms(2) by simp_all
  obtain N where N: "probes c = add_mset i N" using assms(2) by (metis mset_add)
  then show "i \<notin># queued (files s)" "i \<notin># probes c - {#i#}" using T(2) [of i] by (simp_all add: not_in_iff)
  show "probes c = add_mset i (probes c - {#i#})" using assms(2) by simp
qed

lemma holds_probeD:
  assumes "sched_inv c s" "holds_probe c s i"
  shows "i \<in># probes c" "unread s \<subseteq># probes c - {#i#}" "fast_probing s < probing s" "0 < probing s"
proof -
  note P = probes_okD [OF sched_invD(3) [OF assms(1)]]
  have i: "i \<in># probes c - unread s" using assms(2) by (simp add: holds_probe_def)
  then show mem: "i \<in># probes c" by (rule in_diffD)
  show "fast_probing s < probing s" "0 < probing s" using assms(2) by (simp_all add: holds_probe_def)
  have "count (unread s) x \<le> count (probes c - {#i#}) x" for x
    using i mset_subset_eq_count [OF P(4), of x] by (cases "x = i") (auto simp: in_diff_count)
  then show "unread s \<subseteq># probes c - {#i#}" by (rule mset_subset_eqI)
qed

text \<open>A worker gives a file back: its probe ends as the file is queued.\<close>

lemma give_back_ok:
  assumes inv: "sched_inv c s" and i: "holds_probe c s i"
  shows "\<exists>q. queue_file n i (s\<lparr>probing := probing s - 1\<rparr>) = Some (s\<lparr>probing := probing s - 1, files := q\<rparr>) \<and>
    sched_inv (after c s (notify sg (s\<lparr>probing := probing s - 1, files := q\<rparr>)))
      (notify sg (s\<lparr>probing := probing s - 1, files := q\<rparr>))"
proof -
  note I = sched_invD [OF inv]
  note P = probes_okD [OF I(3)] and H = holds_probeD [OF inv i]
  note C = probe_count [OF inv H(1)]
  let ?s1 = "s\<lparr>probing := probing s - 1\<rparr>"
  obtain q where q: "queue_file n i ?s1 = Some (?s1\<lparr>files := q\<rparr>)" "files_ok q (job_arena s) (job_table s)"
      "queued q = add_mset i (queued (files s))"
    using queue_file_ok [of ?s1 i n] I(1) C(3) by auto
  let ?s' = "notify sg (?s1\<lparr>files := q\<rparr>)"
  have aft: "after c s ?s' = c\<lparr>probes := probes c - {#i#}\<rparr>"
    using after_files [OF inv, of ?s'] q(3) by (simp add: notify_def)
  have "size (probes c) = Suc (size (probes c - {#i#}))" using C(4) by (metis size_add_mset)
  moreover have "x \<in># probes c - {#i#} \<Longrightarrow> x < jobs_len (job_table s)" for x
    using P(3) in_diffD by fastforce
  ultimately have "probes_ok (probes c - {#i#}) (spent c) (probing s - 1) (fast_probing s) (batch_store s)
      (fast_groups s) (jobs_len (job_table s))"
    using P H by (auto simp: probes_ok_def)
  moreover have "queued q + (probes c - {#i#}) = queued (files s) + probes c"
    using q(3) C(4) by (metis union_mset_add_mset_left union_mset_add_mset_right)
  ultimately have "sched_inv (after c s ?s') ?s'"
    unfolding aft using I q(2) by (simp add: sched_inv_def notify_def)
  with q(1) show ?thesis by auto
qed

lemma requeue_probed_step:
  assumes inv: "sched_inv c s" and i: "holds_probe c s i"
  shows "\<exists>s'. requeue_probed i s = Some s' \<and> sched_inv (after c s s') s'"
    "\<exists>s'. return_unstarted (ItemFile i) s = Some s' \<and> sched_inv (after c s s') s'"
proof -
  note H = holds_probeD [OF inv i]
  obtain n where n: "job_size s i = Some n"
    using job_size_ok [OF sched_invD(1) [OF inv] probe_count(3) [OF inv H(1)]] by blast
  obtain q where "queue_file n i (s\<lparr>probing := probing s - 1\<rparr>) = Some (s\<lparr>probing := probing s - 1, files := q\<rparr>)"
    "sched_inv (after c s (notify NotifyAll (s\<lparr>probing := probing s - 1, files := q\<rparr>)))
      (notify NotifyAll (s\<lparr>probing := probing s - 1, files := q\<rparr>))"
    using give_back_ok [OF inv i] by blast
  with n H(4) show "\<exists>s'. requeue_probed i s = Some s' \<and> sched_inv (after c s s') s'"
    "\<exists>s'. return_unstarted (ItemFile i) s = Some s' \<and> sched_inv (after c s s') s'"
    by (auto simp: requeue_probed_def return_unstarted_def usub_le)
qed

text \<open>
  \<open>requeue\<close> of a file whose probe stays counted until its batch completes, or of a file that
  is in no worker's hands any more.
\<close>

lemma requeue_step:
  assumes inv: "sched_inv c s" and al: "allowed c s (Requeue i)"
  shows "\<exists>s'. requeue i s = Some s' \<and> sched_inv (held_after c (Requeue i) s s') s'"
proof -
  note I = sched_invD [OF inv]
  note P = probes_okD [OF I(3)]
  have i: "i < jobs_len (job_table s)" "i \<notin># queued (files s)" "outstanding s i = None" "i \<notin># unread s"
    using al by (simp_all add: allowed_def)
  obtain n where n: "job_size s i = Some n" using job_size_ok [OF I(1) i(1)] by blast
  obtain q where q: "queue_file n i s = Some (s\<lparr>files := q\<rparr>)" "files_ok q (job_arena s) (job_table s)"
      "queued q = add_mset i (queued (files s))"
    using queue_file_ok [OF I(1) i(1)] by blast
  let ?s' = "notify NotifyOne (s\<lparr>files := q\<rparr>)"
  let ?k = "spent c + (if i \<in># probes c then 1 else 0)"
  have aft: "held_after c (Requeue i) s ?s' = c\<lparr>probes := probes c - {#i#}, spent := ?k\<rparr>"
    using after_files [OF inv, of ?s'] q(3) by (simp add: held_after_def notify_def)
  have "count (unread s) x \<le> count (probes c - {#i#}) x" for x
    using i(4) mset_subset_eq_count [OF P(4), of x] by (cases "x = i") (auto simp: not_in_iff)
  then have sub: "unread s \<subseteq># probes c - {#i#}" by (rule mset_subset_eqI)
  have "size (probes c) + spent c = size (probes c - {#i#}) + ?k"
  proof (cases "i \<in># probes c")
    case True
    then obtain N where "probes c = add_mset i N" by (metis mset_add)
    then show ?thesis by simp
  next
    case False
    then show ?thesis by (simp add: diff_single_trivial)
  qed
  moreover have "x \<in># probes c - {#i#} \<Longrightarrow> x < jobs_len (job_table s)" for x
    using P(3) in_diffD by fastforce
  ultimately have "probes_ok (probes c - {#i#}) ?k (probing s) (fast_probing s) (batch_store s)
      (fast_groups s) (jobs_len (job_table s))"
    using P sub by (simp add: probes_ok_def)
  moreover have "tokens_ok (queued q + (probes c - {#i#})) (outstanding s) (jobs_len (job_table s))"
  proof (cases "i \<in># probes c")
    case True
    then obtain N where "probes c = add_mset i N" by (metis mset_add)
    then show ?thesis using I(4) q(3) by simp
  next
    case False
    then show ?thesis using tokens_ok_add [OF I(4) _ i(1) _ i(3)] i(2) q(3) by (simp add: diff_single_trivial)
  qed
  ultimately have "sched_inv (held_after c (Requeue i) s ?s') ?s'"
    unfolding aft using I q(2) by (simp add: sched_inv_def notify_def)
  moreover have "requeue i s = Some ?s'" using n q(1) by (simp add: requeue_def)
  ultimately show ?thesis by blast
qed

subsection \<open>Small-file batches\<close>

lemma begin_fast_step:
  assumes inv: "sched_inv c s" and al: "fast_probing s < probing s" "0 < m"
  shows "\<exists>t s'. begin_fast_batch a m s = Some (t, s') \<and> sched_inv (after c s s') s' \<and> 1 \<le> t \<and> t \<le> m"
proof -
  note P = probes_okD [OF sched_invD(3) [OF inv]]
  let ?s' = "s\<lparr>fast_probing := fast_probing s + 1, fast_batches := fast_batches s + 1\<rparr>"
  have "after c s ?s' = c" by (rule after_same [OF inv]) simp_all
  moreover have "sched_inv c ?s'"
    using inv al(1) by (auto simp: sched_inv_def probes_ok_def)
  ultimately show ?thesis using al by (auto simp: begin_fast_batch_def bind_ensure_True Let_def)
qed

lemma mark_fast_step:
  assumes inv: "sched_inv c s" and al: "fast_probing s + n \<le> probing s"
  shows "\<exists>s'. mark_fast n s = Some s' \<and> sched_inv (after c s s') s'"
proof -
  let ?s' = "s\<lparr>fast_probing := fast_probing s + n\<rparr>"
  have "after c s ?s' = c" by (rule after_same [OF inv]) simp_all
  moreover have "sched_inv c ?s'"
    using inv al by (auto simp: sched_inv_def probes_ok_def)
  ultimately show ?thesis using al by (auto simp: mark_fast_def)
qed

lemma complete_fast_step:
  assumes inv: "sched_inv c s" and al: "allowed c s (CompleteFastBatch n D)"
  shows "\<exists>s'. complete_fast_batch n s = Some s' \<and> sched_inv (held_after c (CompleteFastBatch n D) s s') s'"
proof -
  note I = sched_invD [OF inv]
  note P = probes_okD [OF I(3)]
  have al': "0 < n" "0 < fast_batches s" "n + size (unread s) \<le> fast_probing s" "D \<subseteq># probes c - unread s"
      "size D \<le> n" "n - size D \<le> spent c"
    using al by (simp_all add: allowed_def)
  have sub: "D \<subseteq># probes c" using al'(4) by (meson diff_subset_eq_self subset_mset.order_trans)
  let ?s' = "notify NotifyAll (s\<lparr>probing := probing s - n, fast_probing := fast_probing s - n,
    fast_batches := fast_batches s - 1\<rparr>)"
  let ?c = "c\<lparr>probes := probes c - D, spent := spent c - (n - size D)\<rparr>"
  have "unread s + D \<subseteq># probes c"
    using al'(4) P(4) by (metis subset_mset.add_le_cancel_left subset_mset.add_diff_inverse)
  then have "unread s \<subseteq># probes c - D" using sub by (simp add: subset_mset.le_diff_conv2)
  moreover have "size (probes c) = size (probes c - D) + size D"
    using sub by (metis size_union subset_mset.diff_add)
  moreover have "x \<in># probes c - D \<Longrightarrow> x < jobs_len (job_table s)" for x using P(3) in_diffD by fastforce
  ultimately have "probes_ok (probes c - D) (spent c - (n - size D)) (probing s - n) (fast_probing s - n)
      (batch_store s) (fast_groups s) (jobs_len (job_table s))"
    using P al' by (auto simp: probes_ok_def)
  moreover have "tokens_ok (queued (files s) + (probes c - D)) (outstanding s) (jobs_len (job_table s))"
    by (rule tokens_ok_mono [OF I(4)]) simp_all
  ultimately have "sched_inv ?c ?s'" using I by (simp add: sched_inv_def notify_def)
  moreover have "complete_fast_batch n s = Some ?s'"
    using al'(1-3) P(2) by (simp add: complete_fast_batch_def usub_le bind_ensure_True)
  ultimately show ?thesis by (simp add: held_after_def)
qed

lemma make_groups_ok:
  assumes "\<forall>(a, b)\<in>set gs. a < b \<and> b \<le> length fs"
  shows "make_groups fs gs = Some (map (\<lambda>(a, b). \<lparr>fg_start = a, fg_end = b, fg_bytes = span_bytes fs a b\<rparr>) gs)"
  using assms
proof (induction gs)
  case (Cons g gs)
  obtain a b where g: "g = (a, b)" by fastforce
  with Cons show ?case by (auto simp: group_slice_def span_bytes_def)
qed simp

lemma share_fast_step:
  assumes inv: "sched_inv c s" and al: "allowed c s (ShareFastGroups fs gs)"
  shows "\<exists>r s'. share_fast_groups fs gs s = Some (r, s') \<and> sched_inv (after c s s') s'"
proof -
  note I = sched_invD [OF inv]
  note P = probes_okD [OF I(3)]
  obtain first rest where gs: "gs = first # rest" using al by (cases gs) (auto simp: allowed_def)
  have al': "groups_valid fs rest" "unread s + group_files fs rest \<subseteq># probes c"
      "size (unread s + group_files fs rest) \<le> fast_probing s"
    using al gs by (simp_all add: allowed_def)
  have valid: "\<forall>(a, b)\<in>set rest. a < b \<and> b \<le> length fs" using al'(1) by (simp add: groups_valid_def)
  define grps where "grps = map (\<lambda>(a, b). \<lparr>fg_start = a, fg_end = b, fg_bytes = span_bytes fs a b\<rparr>) rest"
  define b where "b = \<lparr>fb_files = fs, fb_groups = grps, fb_owned = replicate (length fs) True\<rparr>"
  have sorted: "sorted_wrt (\<lambda>g h. fg_end g \<le> fg_start h) grps"
    using al'(1) by (simp add: grps_def sorted_wrt_map groups_valid_def case_prod_beta)
  have binv: "fb_inv b"
    using valid sorted al'(1) by (auto simp: fb_inv_def b_def group_ok_def grps_def groups_valid_def)
  have pend: "batch_unread b = group_files fs rest"
    by (simp add: batch_unread_def fb_pending_def b_def grps_def group_files_def map_concat comp_def case_prod_unfold)
  let ?bs = "batch_store s @ [b]"
  let ?h = "length (batch_store s)"
  define s1 where "s1 = s\<lparr>batch_store := ?bs\<rparr>"
  define s' where "s' = (if rest \<noteq> [] then notify NotifyAll (s1\<lparr>fast_groups := fast_groups s1 @ [?h]\<rparr>) else s1)"
  have run: "share_fast_groups fs gs s = Some ((first, ?h), s')"
    using make_groups_ok [OF valid] gs by (simp add: share_fast_groups_def s'_def s1_def b_def grps_def Let_def)
  have old: "shared ?bs (fast_groups s) = unread s"
    using P(7) by (intro shared_cong) (simp add: nth_append)
  have fresh: "?h \<notin> set (fast_groups s)" using P(7) by blast
  have new: "shared ?bs (fast_groups s @ [?h]) = unread s + group_files fs rest"
    using old pend by (simp add: shared_def)
  have store: "\<forall>x\<in>set ?bs. fb_inv x" using P(8) binv by auto
  have sub: "unread s + group_files fs rest \<subseteq># probes c \<Longrightarrow> unread s \<subseteq># probes c" by (rule P(4))
  have "probes_ok (probes c) (spent c) (probing s) (fast_probing s) ?bs
      (if rest \<noteq> [] then fast_groups s @ [?h] else fast_groups s) (jobs_len (job_table s))"
    using P al'(2,3) new old store fresh by (auto simp: probes_ok_def nth_append less_Suc_eq)
  moreover have "after c s s' = c"
    by (rule after_same [OF inv]) (simp_all add: s'_def s1_def notify_def)
  ultimately have "sched_inv (after c s s') s'"
    using I by (auto simp: sched_inv_def s'_def s1_def notify_def split: if_splits)
  with run show ?thesis by blast
qed

lemma claim_fast_step:
  assumes inv: "sched_inv c s" and h: "h < length (batch_store s)"
  shows "\<exists>r s'. claim_fast h mf mb s = Some (r, s') \<and> sched_inv (after c s s') s'"
proof -
  note I = sched_invD [OF inv]
  note P = probes_okD [OF I(3)]
  let ?b = "batch_store s ! h"
  have binv: "fb_inv ?b" using P(8) h by simp
  obtain r b' pre where b': "fb_claim ?b mf mb = Some (r, b')" "fb_inv b'" "fb_pending ?b = pre @ fb_pending b'"
      "fb_files b' = fb_files ?b"
  proof (cases "fb_groups ?b")
    case Nil
    with binv that [of None ?b "[]"] show thesis by (simp add: fb_claim_def)
  next
    case (Cons g rest)
    from fb_claim_ok [OF binv this, of mf mb] that show thesis by blast
  qed
  let ?bs = "(batch_store s)[h := b']"
  let ?s' = "s\<lparr>batch_store := ?bs\<rparr>"
  have aft: "after c s ?s' = c" by (rule after_same [OF inv]) simp_all
  have un: "batch_unread ?b = mset (map (\<lambda>i. snd (fb_files ?b ! i)) pre) + batch_unread b'"
    by (simp add: batch_unread_def b'(3,4))
  have sh: "shared ?bs (fast_groups s) \<subseteq># unread s"
  proof (cases "h \<in> set (fast_groups s)")
    case True
    have "shared ?bs (fast_groups s) + batch_unread ?b = unread s + batch_unread b'"
      by (rule shared_update [OF P(6) True h])
    then have "unread s = shared ?bs (fast_groups s) + mset (map (\<lambda>i. snd (fb_files ?b ! i)) pre)"
      unfolding un by (simp add: ac_simps)
    then show ?thesis by simp
  next
    case False
    then have "shared ?bs (fast_groups s) = unread s"
      by (intro shared_cong) (metis nth_list_update_neq)
    then show ?thesis by simp
  qed
  have store: "\<forall>x\<in>set ?bs. fb_inv x"
    using P(8) b'(2) set_update_subset_insert [of "batch_store s" h b'] by blast
  have "size (shared ?bs (fast_groups s)) \<le> fast_probing s"
    using size_mset_mono [OF sh] P(5) by simp
  moreover have "shared ?bs (fast_groups s) \<subseteq># probes c"
    using sh P(4) by (rule subset_mset.order_trans)
  ultimately have "probes_ok (probes c) (spent c) (probing s) (fast_probing s) ?bs (fast_groups s)
      (jobs_len (job_table s))"
    using P store by (simp add: probes_ok_def)
  then have "sched_inv (after c s ?s') ?s'" unfolding aft using I by (simp add: sched_inv_def)
  moreover have "claim_fast h mf mb s = Some (r, ?s')" using h b'(1) by (simp add: claim_fast_def vec_get_def)
  ultimately show ?thesis by blast
qed

lemma finish_fast_step:
  assumes inv: "sched_inv c s" and h: "h < length (batch_store s)"
  shows "\<exists>r s'. finish_fast_groups h s = Some (r, s') \<and> sched_inv (after c s s') s'"
proof -
  note I = sched_invD [OF inv]
  note P = probes_okD [OF I(3)]
  let ?hs = "filter (\<lambda>x. x \<noteq> h) (fast_groups s)"
  let ?s' = "s\<lparr>fast_groups := ?hs\<rparr>"
  have aft: "after c s ?s' = c" by (rule after_same [OF inv]) simp_all
  have "shared bs (filter Q hs) \<subseteq># shared bs hs" for Q bs hs
    by (induction hs) (auto simp: shared_def intro: subset_mset.add_increasing)
  then have sh: "shared (batch_store s) ?hs \<subseteq># unread s" .
  have "probes_ok (probes c) (spent c) (probing s) (fast_probing s) (batch_store s) ?hs (jobs_len (job_table s))"
    using P sh size_mset_mono [OF sh] subset_mset.order_trans [OF sh P(4)] by (auto simp: probes_ok_def)
  then have "sched_inv (after c s ?s') ?s'" unfolding aft using I by (simp add: sched_inv_def)
  moreover have "finish_fast_groups h s = Some (fb_owned (batch_store s ! h), ?s')"
    using h by (simp add: finish_fast_groups_def vec_get_def)
  ultimately show ?thesis by blast
qed

subsection \<open>Ranges\<close>

text \<open>Steps that change only the ranges and their accounting.\<close>

lemma ranges_step:
  assumes inv: "sched_inv c s" and ok: "sched_ranges_ok lo' s'"
    and lo': "lo' = lo c @ map r_pos (drop (length (lo c)) (range_store s'))"
    and out: "\<And>i. outstanding s i = None \<Longrightarrow> outstanding s' i = None"
    and fields: "files s' = files s" "job_arena s' = job_arena s" "job_table s' = job_table s"
      "probing s' = probing s" "fast_probing s' = fast_probing s" "batch_store s' = batch_store s"
      "fast_groups s' = fast_groups s" "block s' = block s" "min_split s' = min_split s"
  shows "sched_inv (after c s s') s'"
proof -
  have "after c s s' = c\<lparr>lo := lo'\<rparr>" by (simp add: after_def lo' fields)
  moreover have "tokens_ok (queued (files s) + probes c) (outstanding s') (jobs_len (job_table s))"
    by (rule tokens_ok_mono [OF sched_invD(4) [OF inv] _ out]) simp_all
  ultimately show ?thesis using sched_invD [OF inv] ok by (simp add: sched_inv_def fields)
qed

lemma lo_same:
  assumes "sched_inv c s" "length (range_store s') = length (range_store s)"
  shows "lo c = lo c @ map r_pos (drop (length (lo c)) (range_store s'))"
  using handles_okD(1) [OF ranges_okD(3) [OF sched_invD(2) [OF assms(1)]]] assms(2) by simp

lemma ranges_ready_step:
  assumes inv: "sched_inv c s" and al: "allowed c s (RangesReady i rs)"
  shows "\<exists>f s'. ranges_ready i rs s = Some (f, s') \<and> sched_inv (held_after c (RangesReady i rs) s s') s' \<and>
    cover (sched_pieces (lo (after c s s')) s') = cover (sched_pieces (lo c) s + file_pieces i rs)"
proof -
  note I = sched_invD [OF inv]
  note P = probes_okD [OF I(3)]
  have al': "holds_probe c s i" "valid_ranges rs" using al by (simp_all add: allowed_def)
  note H = holds_probeD [OF inv al'(1)]
  note C = probe_count [OF inv H(1)]
  obtain f s' lo' where R: "ranges_ready i rs s = Some (f, s')" "sched_ranges_ok lo' s'"
      "cover (sched_pieces lo' s') = cover (sched_pieces (lo c) s + file_pieces i rs)"
      "lo' = lo c @ map r_pos (drop (length (lo c)) (range_store s'))"
      "\<forall>x. outstanding s' x \<noteq> None \<longleftrightarrow> outstanding s x \<noteq> None \<or> (x = i \<and> rs \<noteq> [])"
    and s': "s' = s\<lparr>probing := probing s - 1, initial_range_workers := 0, outstanding := outstanding s',
           range_store := range_store s', inflight := inflight s', ranges := ranges s', signals := signals s'\<rparr>"
    using ranges_ready_ok [OF I(2) C(2) H(4) I(5,6) al'(2)] by blast
  have fields: "files s' = files s" "job_arena s' = job_arena s" "job_table s' = job_table s"
      "probing s' = probing s - 1" "fast_probing s' = fast_probing s" "batch_store s' = batch_store s"
      "fast_groups s' = fast_groups s" "block s' = block s" "min_split s' = min_split s"
    by (subst s', simp)+
  obtain N where N: "probes c = add_mset i N" "i \<notin># N" using C(4,5) by blast
  have "probes_ok N (spent c) (probing s - 1) (fast_probing s) (batch_store s) (fast_groups s)
      (jobs_len (job_table s))"
    using P H N(1) by (auto simp: probes_ok_def)
  moreover have "count (queued (files s) + N) x + (if outstanding s' x = None then 0 else 1)
      \<le> (if x < jobs_len (job_table s) then 1 else 0)" for x
    using I(4) [unfolded tokens_ok_def, rule_format, of x] R(5) [rule_format, of x] C(1,3) N
    by (cases "x = i") (auto simp: not_in_iff split: if_splits)
  then have "tokens_ok (queued (files s) + N) (outstanding s') (jobs_len (job_table s))"
    by (simp add: tokens_ok_def)
  moreover have lo: "lo (after c s s') = lo'" by (simp add: after_def R(4))
  moreover have "held_after c (RangesReady i rs) s s' = c\<lparr>lo := lo', probes := N\<rparr>"
    by (simp add: held_after_def after_def R(4) N(1))
  ultimately have "sched_inv (held_after c (RangesReady i rs) s s') s'"
    using I R(2) by (simp add: sched_inv_def fields)
  with R(1,3) lo show ?thesis by auto
qed

lemma owed_mono: "M \<subseteq># N \<Longrightarrow> owed M i \<le> owed N i"
  unfolding owed_def by (intro size_mset_mono multiset_filter_mono)

lemma retired_out:
  assumes "sched_ranges_ok lo' s" "sched_ranges_ok lo' s'"
    "sched_pieces lo' s = add_mset p (sched_pieces lo' s')" "outstanding s i = None"
  shows "outstanding s' i = None"
  using assms(4) outstanding_iff [OF assms(1), of i] outstanding_iff [OF assms(2), of i]
  by (simp add: assms(3) split: if_splits)

lemma same_out:
  assumes "sched_ranges_ok lo1 s" "sched_ranges_ok lo2 s'" "sched_pieces lo2 s' = sched_pieces lo1 s"
    "outstanding s i = None"
  shows "outstanding s' i = None"
  using assms(4) outstanding_iff [OF assms(1), of i] outstanding_iff [OF assms(2), of i] by (simp add: assms(3))

lemma range_done_step:
  assumes inv: "sched_inv c s" and h: "h \<in> set (inflight s)"
  shows "\<exists>d s'. range_done h s = Some (d, s') \<and> sched_inv (after c s s') s'"
proof -
  obtain d s' where R: "range_done h s = Some (d, s')" "sched_ranges_ok (lo c) s'"
      "sched_pieces (lo c) s = add_mset (r_idx (range_store s ! h), lo c ! h, r_end (range_store s ! h)) (sched_pieces (lo c) s')"
    and s': "s' = s\<lparr>inflight := inflight s', outstanding := outstanding s', signals := signals s'\<rparr>"
    using range_done_ok [OF sched_invD(2) [OF inv] h refl] by blast
  have st: "range_store s' = range_store s" by (subst s') simp
  have "sched_inv (after c s s') s'"
    by (rule ranges_step [OF inv R(2) lo_same [OF inv] retired_out [OF sched_invD(2) [OF inv] R(2,3)]])
      (simp_all add: st, (subst s', simp)+)
  with R(1) show ?thesis by blast
qed

lemma retry_range_step:
  assumes inv: "sched_inv c s" and h: "h \<in> set (inflight s)"
  shows "\<exists>s'. retry_range h (lo c ! h) s = Some s' \<and> sched_inv (after c s s') s'"
proof -
  let ?r = "range_store s ! h"
  obtain s' where R: "retry_range h (lo c ! h) s = Some s'" "sched_ranges_ok (lo c) s'"
      "if lo c ! h < r_end ?r then sched_pieces (lo c) s' = sched_pieces (lo c) s \<and> finishes s' = finishes s
       else sched_pieces (lo c) s = add_mset (r_idx ?r, lo c ! h, r_end ?r) (sched_pieces (lo c) s') \<and>
         finishes s' = finishes s @ (if owed (sched_pieces (lo c) s') (r_idx ?r) = 0 then [(r_idx ?r, False)] else [])"
    and s': "s' = s\<lparr>inflight := inflight s', outstanding := outstanding s', signals := signals s',
           ranges := ranges s', finishes := finishes s'\<rparr>"
    using retry_range_ok [OF sched_invD(2) [OF inv] h refl] by blast
  have st: "range_store s' = range_store s" by (subst s') simp
  have out: "outstanding s' i = None" if "outstanding s i = None" for i
    using R(3) retired_out [OF sched_invD(2) [OF inv] R(2) _ that] same_out [OF sched_invD(2) [OF inv] R(2) _ that]
    by (auto split: if_splits)
  have "sched_inv (after c s s') s'"
    by (rule ranges_step [OF inv R(2) lo_same [OF inv] out]) (simp_all add: st, (subst s', simp)+)
  with R(1) show ?thesis by blast
qed

lemma return_range_step:
  assumes inv: "sched_inv c s" and al: "allowed c s (ReturnRange h)"
  shows "\<exists>s'. return_unstarted (ItemRange h) s = Some s' \<and> sched_inv (after c s s') s'"
proof -
  have h: "h \<in> set (inflight s)" "r_pos (range_store s ! h) = lo c ! h"
      "r_pos (range_store s ! h) < r_end (range_store s ! h)"
    using al by (simp_all add: allowed_def)
  obtain s' where R: "return_unstarted (ItemRange h) s = Some s'" "sched_ranges_ok (lo c) s'"
      "sched_pieces (lo c) s' = sched_pieces (lo c) s"
    and s': "s' = s\<lparr>inflight := inflight s', ranges := ranges s', signals := signals s'\<rparr>"
    using return_range_ok [OF sched_invD(2) [OF inv] h(1) refl h(2,3)] by blast
  have st: "range_store s' = range_store s" "outstanding s' = outstanding s" by (subst s', simp)+
  have "sched_inv (after c s s') s'"
    by (rule ranges_step [OF inv R(2) lo_same [OF inv]]) (simp_all add: st, (subst s', simp)+)
  with R(1) show ?thesis by blast
qed

lemma release_rest_step:
  assumes inv: "sched_inv c s" and h: "h \<in> set (inflight s)"
  shows "\<exists>s'. release_rest h s = Some s' \<and> sched_inv (after c s s') s'"
proof -
  note I = sched_invD [OF inv]
  note H = handles_okD [OF ranges_okD(3) [OF I(2)]]
  obtain s' where R: "release_rest h s = Some s'" "sched_ranges_ok (lo c) s'"
    and s': "s' = s\<lparr>range_store := range_store s', ranges := ranges s', outstanding := outstanding s', signals := signals s'\<rparr>"
    using release_rest_ok [OF I(2) h] by blast
  have len: "length (range_store s') = length (range_store s)"
    using handles_okD(1) [OF ranges_okD(3) [OF R(2)]] H(1) by simp
  have "outstanding s (r_idx (range_store s ! h)) \<noteq> None"
    using outstanding_iff [OF I(2)] pieces_handle [OF H(2) h, of "lo c" "range_store s" "ranges s"]
    by (simp add: piece_of_def)
  then have "outstanding s' i = None" if "outstanding s i = None" for i
    using R(1) that by (auto simp: release_rest_def notify_def bind_eq_Some_conv Let_def split: if_splits)
  then have "sched_inv (after c s s') s'"
    by (intro ranges_step [OF inv R(2) lo_same [OF inv len]]) ((subst s', simp)+ | assumption)+
  with R(1) show ?thesis by blast
qed

lemma claim_window_step:
  assumes inv: "sched_inv c s" and h: "h \<in> set (inflight s)"
  shows "\<exists>w s'. claim_window h n s = Some (w, s') \<and> sched_inv (after c s s') s'"
proof -
  obtain w st where R: "claim_window h n s = Some (w, s\<lparr>range_store := st\<rparr>)"
      "sched_ranges_ok (lo c) (s\<lparr>range_store := st\<rparr>)"
    using claim_window_ok [OF sched_invD(2) [OF inv] h] by blast
  then have len: "length st = length (range_store s)"
    using handles_okD(1) [OF ranges_okD(3) [OF R(2)]] handles_okD(1) [OF ranges_okD(3) [OF sched_invD(2) [OF inv]]]
    by simp
  have "sched_inv (after c s (s\<lparr>range_store := st\<rparr>)) (s\<lparr>range_store := st\<rparr>)"
    by (rule ranges_step [OF inv R(2) lo_same [OF inv]]) (simp_all add: len)
  with R(1) show ?thesis by blast
qed

lemma update_split_step:
  assumes inv: "sched_inv c s" and al: "allowed c s (UpdateRangeSplit h sp)"
  shows "\<exists>s'. update_range_split h sp s = Some s' \<and> sched_inv (after c s s') s'"
proof -
  have h: "h \<in> set (inflight s)" "rs_block sp \<noteq> 0" "rs_minimum sp \<noteq> 0"
    using al by (simp_all add: allowed_def)
  obtain st sg where R: "update_range_split h sp s = Some (s\<lparr>range_store := st, signals := sg\<rparr>)"
      "sched_ranges_ok (lo c) (s\<lparr>range_store := st, signals := sg\<rparr>)"
    using update_range_split_ok [OF sched_invD(2) [OF inv] h] by blast
  then have len: "length st = length (range_store s)"
    using handles_okD(1) [OF ranges_okD(3) [OF R(2)]] handles_okD(1) [OF ranges_okD(3) [OF sched_invD(2) [OF inv]]]
    by simp
  have "sched_inv (after c s (s\<lparr>range_store := st, signals := sg\<rparr>)) (s\<lparr>range_store := st, signals := sg\<rparr>)"
    by (rule ranges_step [OF inv R(2) lo_same [OF inv]]) (simp_all add: len)
  with R(1) show ?thesis by blast
qed

lemma range_work_step:
  assumes inv: "sched_inv c s"
  shows "\<exists>w s'. range_work i m s = Some (w, s') \<and> sched_inv (after c s s') s' \<and>
    cover (sched_pieces (lo (after c s s')) s') = cover (sched_pieces (lo c) s)"
proof -
  note I = sched_invD [OF inv]
  have same: "after c s s = c" by (rule after_same [OF inv]) simp_all
  obtain w s' where R: "range_work i m s = Some (w, s')"
    and W: "case w of
       Ready (Some h) \<Rightarrow> \<exists>a. sched_ranges_ok (lo c @ [a]) s' \<and> sched_pieces (lo c @ [a]) s' = sched_pieces (lo c) s \<and>
         h = length (range_store s) \<and> h \<in> set (inflight s') \<and>
         (\<exists>e. range_store s' = range_store s @ [\<lparr>r_idx = i, r_pos = a, r_end = e, r_split = None\<rparr>]) \<and>
         waiting_workers s < rq_len (ranges s) \<and>
         s' = s\<lparr>ranges := ranges s', range_store := range_store s', inflight := inflight s'\<rparr>
     | _ \<Rightarrow> s' = s"
    using range_work_ok [OF I(2)] by blast
  show ?thesis
  proof (cases "\<exists>h. w = Ready (Some h)")
    case False
    then have "s' = s" using W by (auto split: range_claim.splits option.splits)
    with R same inv show ?thesis by auto
  next
    case True
    then obtain a e where h: "sched_ranges_ok (lo c @ [a]) s'" "sched_pieces (lo c @ [a]) s' = sched_pieces (lo c) s"
        "range_store s' = range_store s @ [\<lparr>r_idx = i, r_pos = a, r_end = e, r_split = None\<rparr>]"
      and s': "s' = s\<lparr>ranges := ranges s', range_store := range_store s', inflight := inflight s'\<rparr>"
      using W by auto
    have fl: "files s' = files s" "outstanding s' = outstanding s" by (subst s', simp)+
    have aft: "after c s s' = c\<lparr>lo := lo c @ [a]\<rparr>" using after_claim [OF inv h(3)] fl(1) by simp
    have lo: "lo c @ [a] = lo c @ map r_pos (drop (length (lo c)) (range_store s'))"
      using handles_okD(1) [OF ranges_okD(3) [OF I(2)]] by (simp add: h(3))
    have "sched_inv (after c s s') s'"
      by (rule ranges_step [OF inv h(1) lo]) (simp_all add: fl, (subst s', simp)+)
    with R aft h(2) show ?thesis by auto
  qed
qed

lemma take_short_step:
  assumes inv: "sched_inv c s"
  shows "\<exists>w s'. take_short_range i m s = Some (w, s') \<and> sched_inv (after c s s') s' \<and>
    cover (sched_pieces (lo (after c s s')) s') = cover (sched_pieces (lo c) s)"
proof (cases "m = 0")
  case True
  have "after c s s = c" by (rule after_same [OF inv]) simp_all
  with True inv show ?thesis by (simp add: take_short_range_def)
next
  case False
  with range_work_step [OF inv, of i "Some m"] show ?thesis by (auto simp: take_short_range_def)
qed

subsection \<open>All steps\<close>

lemma next_woken_step:
  assumes inv: "sched_inv c s" and w: "0 < waiting_workers s"
  shows "\<exists>it s'. sched_next_woken s = Some (it, s') \<and> sched_inv (after c s s') s' \<and>
    cover (sched_pieces (lo (after c s s')) s') = cover (sched_pieces (lo c) s)"
proof -
  let ?s = "s\<lparr>waiting_workers := waiting_workers s - 1\<rparr>"
  have "sched_inv c ?s" using inv by (simp add: sched_inv_def)
  from sched_next_ok [OF this] w show ?thesis
    by (auto simp: sched_next_woken_def usub_le after_def)
qed

lemma clear_step:
  assumes inv: "sched_inv c s" and fin: "finished s"
  shows "sched_inv (after c s (clear_finished_work s)) (clear_finished_work s)"
proof -
  note E = finished_empty [OF inv fin] and I = sched_invD [OF inv]
  note P = probes_okD [OF I(3)] and H = handles_okD [OF ranges_okD(3) [OF I(2)]]
  let ?s = "clear_finished_work s"
  have aft: "after c s ?s = c\<lparr>probes := {#}\<rparr>"
    using H(1) E(2,3) by (simp add: after_def clear_finished_work_def)
  have "handles_ok (lo c) (range_store s) []"
    using ranges_okD(3) [OF I(2)] by (simp add: handles_ok_def)
  then have "ranges_ok (lo c) (range_store s) [] rq_default Map.empty"
    by (simp add: ranges_ok_def counts_ok_def pieces_def rq.invar_empty rq.items_empty)
  moreover have "files_ok fq_default (job_arena s) jobs_default" "queued fq_default = {#}"
    by (simp_all add: files_ok_def queued_def) (simp add: jobs_len_def jobs_default_def fq_default_def)
  ultimately show ?thesis
    unfolding aft using P I E(2) fin
    by (simp add: sched_inv_def clear_finished_work_def jobs_release_def probes_ok_def tokens_ok_def shared_def
        finished_def)
qed

lemma simple_steps:
  assumes inv: "sched_inv c s"
  shows "sched_inv (after c s (anticipate_file_work s)) (anticipate_file_work s)"
    "sched_inv (after c s (release_preflighted_work s)) (release_preflighted_work s)"
    "sched_inv (after c s (sched_scan_done s)) (sched_scan_done s)"
    "sched_inv (after c s (sched_abort s)) (sched_abort s)"
    "sched_inv (after c s (request_worker_count n s)) (request_worker_count n s)"
    "sched_inv (after c s (arm_direct_fallback n s)) (arm_direct_fallback n s)"
    "sched_inv (after c s (reserve_initial_ranges n s)) (reserve_initial_ranges n s)"
    "sched_inv (after c s (request_direct_fallback s)) (request_direct_fallback s)"
    "sched_inv (after c s (snd (take_worker_count_request s))) (snd (take_worker_count_request s))"
    "sched_inv (after c s (hold_at_receiver n s)) (hold_at_receiver n s)"
    "sched_inv (after c s (receiver_published n s)) (receiver_published n s)"
    "sched_inv (after c s (snd (take_receiver_hold n s))) (snd (take_receiver_hold n s))"
    "sched_inv (after c s (snd (fail_file n s))) (snd (fail_file n s))"
    "sched_inv (after c s (requeue_finish n m s)) (requeue_finish n m s)"
  by (rule frame_ok [OF inv];
      simp add: anticipate_file_work_def release_preflighted_work_def sched_scan_done_def sched_abort_def
        request_worker_count_def arm_direct_fallback_def reserve_initial_ranges_def
        request_direct_fallback_def take_worker_count_request_def hold_at_receiver_def
        receiver_published_def take_receiver_hold_def fail_file_def requeue_finish_def
        end_unneeded_worker_setups_def notify_def Let_def)+

lemma finish_steps:
  assumes inv: "sched_inv c s" and f: "0 < finishing s"
  shows "\<exists>s'. finish_done s = Some s' \<and> sched_inv (after c s s') s'"
    "\<exists>s'. return_unstarted (ItemFinish i m) s = Some s' \<and> sched_inv (after c s s') s'"
proof -
  let ?s1 = "notify TuneOne (notify NotifyAll (s\<lparr>finishing := finishing s - 1\<rparr>))"
  let ?s2 = "notify NotifyAll (s\<lparr>finishes := finishes s @ [(i, m)], finishing := finishing s - 1\<rparr>)"
  have "sched_inv (after c s ?s1) ?s1" "sched_inv (after c s ?s2) ?s2"
    by (rule frame_ok [OF inv]; simp add: notify_def)+
  with f show "\<exists>s'. finish_done s = Some s' \<and> sched_inv (after c s s') s'"
    "\<exists>s'. return_unstarted (ItemFinish i m) s = Some s' \<and> sched_inv (after c s s') s'"
    by (simp_all add: finish_done_def return_unstarted_def usub_le)
qed

lemma exec_ok:
  assumes inv: "sched_inv c s" and al: "allowed c s op"
  shows "\<exists>s'. exec c op s = Some s' \<and> sched_inv (held_after c op s s') s'"
proof (cases op)
  case (PushFile data d)
  then have room: "jobs_len (job_table s) < 2 ^ 64" using al by (simp add: allowed_def)
  obtain s' where "push_file data d s = Some (jobs_len (job_table s), s')"
    using push_file_ok [OF sched_invD(1) [OF inv] room] by blast
  with push_file_step [OF inv room this] PushFile show ?thesis by (simp add: exec_def held_after_def)
next
  case Next
  then show ?thesis using sched_next_ok [OF inv] by (auto simp: exec_def held_after_def)
next
  case NextWoken
  then show ?thesis using next_woken_step [OF inv] al by (auto simp: exec_def held_after_def allowed_def)
next
  case (TakeSmallNear f ms mn mb)
  then show ?thesis using take_small_step [OF inv, of f ms mn mb] al by (auto simp: exec_def held_after_def allowed_def)
next
  case (Requeue i)
  then show ?thesis using requeue_step [OF inv] al by (simp add: exec_def)
next
  case (RequeueProbed i)
  then show ?thesis using requeue_probed_step(1) [OF inv] al by (simp add: exec_def held_after_def allowed_def)
next
  case (BeginFastBatch a m)
  then show ?thesis using begin_fast_step [OF inv, of m a] al by (auto simp: exec_def held_after_def allowed_def)
next
  case (MarkFast n)
  then show ?thesis using mark_fast_step [OF inv] al by (simp add: exec_def held_after_def allowed_def)
next
  case (ShareFastGroups fs gs)
  then show ?thesis using share_fast_step [OF inv, of fs gs] al by (auto simp: exec_def held_after_def)
next
  case (ClaimFast h mf mb)
  then show ?thesis using claim_fast_step [OF inv, of h mf mb] al by (auto simp: exec_def held_after_def allowed_def)
next
  case (FinishFastGroups h)
  then show ?thesis using finish_fast_step [OF inv, of h] al by (auto simp: exec_def held_after_def allowed_def)
next
  case (CompleteFastBatch n D)
  then show ?thesis using complete_fast_step [OF inv, of n D] al by (simp add: exec_def)
next
  case (RangesReady i rs)
  then show ?thesis using ranges_ready_step [OF inv, of i rs] al by (auto simp: exec_def)
next
  case (RangeWork i m)
  then show ?thesis using range_work_step [OF inv, of i m] by (auto simp: exec_def held_after_def)
next
  case (TakeShortRange i m)
  then show ?thesis using take_short_step [OF inv, of i m] by (auto simp: exec_def held_after_def)
next
  case (ClaimWindow h w)
  then show ?thesis using claim_window_step [OF inv, of h w] al by (auto simp: exec_def held_after_def allowed_def)
next
  case (UpdateRangeSplit h sp)
  then show ?thesis using update_split_step [OF inv, of h sp] al by (simp add: exec_def held_after_def)
next
  case (ReleaseRest h)
  then show ?thesis using release_rest_step [OF inv] al by (simp add: exec_def held_after_def allowed_def)
next
  case (RangeDone h)
  then show ?thesis using range_done_step [OF inv, of h] al by (auto simp: exec_def held_after_def allowed_def)
next
  case (RetryRange h)
  then show ?thesis using retry_range_step [OF inv] al by (simp add: exec_def held_after_def allowed_def)
next
  case (ReturnFile i)
  then show ?thesis using requeue_probed_step(2) [OF inv] al by (simp add: exec_def held_after_def allowed_def)
next
  case (ReturnRange h)
  then show ?thesis using return_range_step [OF inv] al by (simp add: exec_def held_after_def)
next
  case (ReturnFinish i m)
  then show ?thesis using finish_steps(2) [OF inv] al by (simp add: exec_def held_after_def allowed_def)
next
  case FinishDone
  then show ?thesis using finish_steps(1) [OF inv] al by (simp add: exec_def held_after_def allowed_def)
next
  case ClearFinishedWork
  then show ?thesis using clear_step [OF inv] al by (simp add: exec_def held_after_def allowed_def)
qed (use simple_steps [OF inv] in \<open>simp_all add: exec_def held_after_def\<close>)

subsection \<open>What a step does to the bytes owed\<close>

definition owes_same :: "client \<Rightarrow> sched \<Rightarrow> sched \<Rightarrow> bool" where
  "owes_same c s s' \<longleftrightarrow> cover (sched_pieces (lo (after c s s')) s') = cover (sched_pieces (lo c) s)"

lemma frame_owes:
  assumes "sched_inv c s" "range_store s' = range_store s" "inflight s' = inflight s" "ranges s' = ranges s"
  shows "owes_same c s s'"
proof -
  have "lo (after c s s') = lo c" using after_files [OF assms(1,2)] by simp
  with assms(2-4) show ?thesis by (simp add: owes_same_def)
qed

lemma range_owes:
  assumes "sched_inv c s" "length (range_store s') = length (range_store s)"
    "cover (sched_pieces (lo c) s') = cover (sched_pieces (lo c) s)"
  shows "owes_same c s s'"
proof -
  have "lo (after c s s') = lo c" using lo_same [OF assms(1,2)] by (simp add: after_def)
  with assms(3) show ?thesis by (simp add: owes_same_def)
qed

lemma empty_piece_cover: "e \<le> a \<Longrightarrow> cover (add_mset (i, a, e) M) = cover M"
  by (intro ext) simp

lemma retry_owes:
  assumes inv: "sched_inv c s" and h: "h \<in> set (inflight s)" and run: "retry_range h (lo c ! h) s = Some s'"
  shows "owes_same c s s'"
proof -
  obtain s1 where R: "retry_range h (lo c ! h) s = Some s1"
      "if lo c ! h < r_end (range_store s ! h) then sched_pieces (lo c) s1 = sched_pieces (lo c) s \<and> finishes s1 = finishes s
       else sched_pieces (lo c) s = add_mset (r_idx (range_store s ! h), lo c ! h, r_end (range_store s ! h))
           (sched_pieces (lo c) s1) \<and>
         finishes s1 = finishes s @ (if owed (sched_pieces (lo c) s1) (r_idx (range_store s ! h)) = 0
           then [(r_idx (range_store s ! h), False)] else [])"
    and s1: "s1 = s\<lparr>inflight := inflight s1, outstanding := outstanding s1, signals := signals s1,
           ranges := ranges s1, finishes := finishes s1\<rparr>"
    using retry_range_ok [OF sched_invD(2) [OF inv] h refl] by blast
  have "range_store s1 = range_store s" by (subst s1) simp
  moreover have "cover (sched_pieces (lo c) s1) = cover (sched_pieces (lo c) s)"
    using R(2) by (cases "lo c ! h < r_end (range_store s ! h)") (simp_all add: empty_piece_cover)
  ultimately show ?thesis using range_owes [OF inv, of s1] run R(1) by simp
qed

lemma return_range_owes:
  assumes inv: "sched_inv c s" and al: "allowed c s (ReturnRange h)"
    and run: "return_unstarted (ItemRange h) s = Some s'"
  shows "owes_same c s s'"
proof -
  have h: "h \<in> set (inflight s)" "r_pos (range_store s ! h) = lo c ! h"
      "r_pos (range_store s ! h) < r_end (range_store s ! h)"
    using al by (simp_all add: allowed_def)
  obtain s1 where R: "return_unstarted (ItemRange h) s = Some s1" "sched_pieces (lo c) s1 = sched_pieces (lo c) s"
    and s1: "s1 = s\<lparr>inflight := inflight s1, ranges := ranges s1, signals := signals s1\<rparr>"
    using return_range_ok [OF sched_invD(2) [OF inv] h(1) refl h(2,3)] by blast
  have "range_store s1 = range_store s" by (subst s1) simp
  with range_owes [OF inv, of s1] run R show ?thesis by simp
qed

lemma release_owes:
  assumes inv: "sched_inv c s" and h: "h \<in> set (inflight s)" and run: "release_rest h s = Some s'"
  shows "owes_same c s s'"
proof -
  obtain s1 where R: "release_rest h s = Some s1" "sched_ranges_ok (lo c) s1"
      "cover (sched_pieces (lo c) s1) = cover (sched_pieces (lo c) s)"
    using release_rest_ok [OF sched_invD(2) [OF inv] h] by blast
  have "length (range_store s1) = length (range_store s)"
    using handles_okD(1) [OF ranges_okD(3) [OF R(2)]]
      handles_okD(1) [OF ranges_okD(3) [OF sched_invD(2) [OF inv]]] by simp
  with range_owes [OF inv, of s1] run R show ?thesis by simp
qed

lemma window_owes:
  assumes inv: "sched_inv c s" and h: "h \<in> set (inflight s)" and run: "claim_window h n s = Some (w, s')"
  shows "owes_same c s s'"
proof -
  obtain w1 st where R: "claim_window h n s = Some (w1, s\<lparr>range_store := st\<rparr>)"
      "sched_ranges_ok (lo c) (s\<lparr>range_store := st\<rparr>)"
      "sched_pieces (lo c) (s\<lparr>range_store := st\<rparr>) = sched_pieces (lo c) s"
    using claim_window_ok [OF sched_invD(2) [OF inv] h] by blast
  have "length st = length (range_store s)"
    using handles_okD(1) [OF ranges_okD(3) [OF R(2)]]
      handles_okD(1) [OF ranges_okD(3) [OF sched_invD(2) [OF inv]]] by simp
  then have "owes_same c s (s\<lparr>range_store := st\<rparr>)" using R(3) by (intro range_owes [OF inv]) simp_all
  with run R(1) show ?thesis by simp
qed

lemma split_owes:
  assumes inv: "sched_inv c s" and al: "allowed c s (UpdateRangeSplit h sp)"
    and run: "update_range_split h sp s = Some s'"
  shows "owes_same c s s'"
proof -
  have h: "h \<in> set (inflight s)" "rs_block sp \<noteq> 0" "rs_minimum sp \<noteq> 0"
    using al by (simp_all add: allowed_def)
  obtain st sg where R: "update_range_split h sp s = Some (s\<lparr>range_store := st, signals := sg\<rparr>)"
      "sched_ranges_ok (lo c) (s\<lparr>range_store := st, signals := sg\<rparr>)"
      "sched_pieces (lo c) (s\<lparr>range_store := st, signals := sg\<rparr>) = sched_pieces (lo c) s"
    using update_range_split_ok [OF sched_invD(2) [OF inv] h] by blast
  have "length st = length (range_store s)"
    using handles_okD(1) [OF ranges_okD(3) [OF R(2)]]
      handles_okD(1) [OF ranges_okD(3) [OF sched_invD(2) [OF inv]]] by simp
  then have "owes_same c s (s\<lparr>range_store := st, signals := sg\<rparr>)" using R(3) by (intro range_owes [OF inv]) simp_all
  with run R(1) show ?thesis by simp
qed

definition same_ranges :: "sched \<Rightarrow> sched \<Rightarrow> bool" where
  "same_ranges s s' \<longleftrightarrow> range_store s' = range_store s \<and> inflight s' = inflight s \<and> ranges s' = ranges s"

lemma same_ranges_simple:
  "same_ranges s (anticipate_file_work s)" "same_ranges s (release_preflighted_work s)"
  "same_ranges s (sched_scan_done s)" "same_ranges s (sched_abort s)" "same_ranges s (request_worker_count n s)"
  "same_ranges s (arm_direct_fallback n s)" "same_ranges s (reserve_initial_ranges n s)"
  "same_ranges s (request_direct_fallback s)" "same_ranges s (snd (take_worker_count_request s))"
  "same_ranges s (hold_at_receiver n s)" "same_ranges s (receiver_published n s)"
  "same_ranges s (snd (take_receiver_hold n s))" "same_ranges s (snd (fail_file n s))"
  "same_ranges s (requeue_finish n m s)"
  by (simp_all add: same_ranges_def anticipate_file_work_def release_preflighted_work_def sched_scan_done_def
      sched_abort_def request_worker_count_def arm_direct_fallback_def reserve_initial_ranges_def
      request_direct_fallback_def take_worker_count_request_def hold_at_receiver_def
      receiver_published_def take_receiver_hold_def fail_file_def requeue_finish_def
      end_unneeded_worker_setups_def notify_def Let_def)

lemma same_ranges_files:
  "push_file d e s = Some (n, s') \<Longrightarrow> same_ranges s s'"
  "take_small_near f ms mn mb s = Some (out, s') \<Longrightarrow> same_ranges s s'"
  "requeue i s = Some s' \<Longrightarrow> same_ranges s s'"
  "requeue_probed i s = Some s' \<Longrightarrow> same_ranges s s'"
  "return_unstarted (ItemFile i) s = Some s' \<Longrightarrow> same_ranges s s'"
  "return_unstarted (ItemFinish i m) s = Some s' \<Longrightarrow> same_ranges s s'"
  "finish_done s = Some s' \<Longrightarrow> same_ranges s s'"
  by (auto simp: same_ranges_def push_file_def take_small_near_def take_small_group_def requeue_def
      requeue_probed_def return_unstarted_def finish_done_def queue_file_def notify_def bind_eq_Some_conv Let_def)

lemma same_ranges_fast:
  "begin_fast_batch a m s = Some (t, s') \<Longrightarrow> same_ranges s s'"
  "mark_fast n s = Some s' \<Longrightarrow> same_ranges s s'"
  "share_fast_groups fs gs s = Some (r, s') \<Longrightarrow> same_ranges s s'"
  "claim_fast h mf mb s = Some (w, s') \<Longrightarrow> same_ranges s s'"
  "finish_fast_groups h s = Some (ow, s') \<Longrightarrow> same_ranges s s'"
  "complete_fast_batch n s = Some s' \<Longrightarrow> same_ranges s s'"
  by (auto simp: same_ranges_def begin_fast_batch_def mark_fast_def share_fast_groups_def claim_fast_def
      finish_fast_groups_def complete_fast_batch_def notify_def bind_eq_Some_conv Let_def
      split: list.splits if_splits)

lemma same_ranges_owes: "sched_inv c s \<Longrightarrow> same_ranges s s' \<Longrightarrow> owes_same c s s'"
  by (simp add: same_ranges_def frame_owes)

lemma clear_owes:
  assumes "sched_inv c s" "finished s"
  shows "owes_same c s (clear_finished_work s)"
  using finished_empty(1) [OF assms] by (simp add: owes_same_def clear_finished_work_def pieces_def rq.items_empty)

definition added :: "op \<Rightarrow> piece multiset" where
  "added op = (case op of RangesReady i rs \<Rightarrow> file_pieces i rs | _ \<Rightarrow> {#})"

definition retired :: "client \<Rightarrow> sched \<Rightarrow> op \<Rightarrow> piece multiset" where
  "retired c s op = (case op of RangeDone h \<Rightarrow> {#piece_of (range_store s) (lo c) h#} | _ \<Rightarrow> {#})"

lemma owes_same_exec:
  assumes inv: "sched_inv c s" and al: "allowed c s op" and run: "exec c op s = Some s'"
    and op: "\<And>i rs. op \<noteq> RangesReady i rs" "\<And>h. op \<noteq> RangeDone h"
  shows "owes_same c s s'"
proof (cases op)
  case (Requeue i)
  then show ?thesis using run same_ranges_files(3) by (intro same_ranges_owes [OF inv]) (simp add: exec_def)
next
  case Next
  then show ?thesis using sched_next_ok [OF inv] run by (auto simp: exec_def owes_same_def)
next
  case NextWoken
  then show ?thesis using next_woken_step [OF inv] run al by (auto simp: exec_def owes_same_def allowed_def)
next
  case (RangeWork i m)
  then show ?thesis using range_work_step [OF inv, of i m] run by (auto simp: exec_def owes_same_def)
next
  case (TakeShortRange i m)
  then show ?thesis using take_short_step [OF inv, of i m] run by (auto simp: exec_def owes_same_def)
next
  case (ClaimWindow h w)
  then show ?thesis using window_owes [OF inv, of h w] run al by (auto simp: exec_def allowed_def)
next
  case (UpdateRangeSplit h sp)
  then show ?thesis using split_owes [OF inv, of h sp] run al by (simp add: exec_def)
next
  case (ReleaseRest h)
  then show ?thesis using release_owes [OF inv, of h] run al by (simp add: exec_def allowed_def)
next
  case (RetryRange h)
  then show ?thesis using retry_owes [OF inv, of h] run al by (simp add: exec_def allowed_def)
next
  case (ReturnRange h)
  then show ?thesis using return_range_owes [OF inv, of h] run al by (simp add: exec_def)
next
  case ClearFinishedWork
  then show ?thesis using clear_owes [OF inv] run al by (simp add: exec_def allowed_def)
qed (use run op in \<open>auto simp: exec_def intro!: same_ranges_owes [OF inv] same_ranges_simple
      dest: same_ranges_files same_ranges_fast\<close>)

lemma exec_owes:
  assumes inv: "sched_inv c s" and al: "allowed c s op" and run: "exec c op s = Some s'"
  shows "cover (sched_pieces (lo (held_after c op s s')) s' + retired c s op) =
    cover (sched_pieces (lo c) s + added op)"
proof -
  consider (ready) i rs where "op = RangesReady i rs" | (retire) h where "op = RangeDone h"
    | (other) "\<And>i rs. op \<noteq> RangesReady i rs" "\<And>h. op \<noteq> RangeDone h"
    by blast
  then show ?thesis
  proof cases
    case ready
    obtain f s1 where "ranges_ready i rs s = Some (f, s1)"
        "cover (sched_pieces (lo (after c s s1)) s1) = cover (sched_pieces (lo c) s + file_pieces i rs)"
      using ranges_ready_step [OF inv, of i rs] al ready by blast
    with run ready show ?thesis by (simp add: exec_def held_after_def retired_def added_def)
  next
    case retire
    then have h: "h \<in> set (inflight s)" using al by (simp add: allowed_def)
    let ?p = "(r_idx (range_store s ! h), lo c ! h, r_end (range_store s ! h))"
    obtain d s1 where R: "range_done h s = Some (d, s1)" "sched_pieces (lo c) s = add_mset ?p (sched_pieces (lo c) s1)"
      and s1: "s1 = s\<lparr>inflight := inflight s1, outstanding := outstanding s1, signals := signals s1\<rparr>"
      using range_done_ok [OF sched_invD(2) [OF inv] h refl] by blast
    have "range_store s1 = range_store s" by (subst s1) simp
    then have "lo (after c s s1) = lo c" using lo_same [OF inv, of s1] by (simp add: after_def)
    moreover have "s' = s1" using run retire R(1) by (simp add: exec_def)
    ultimately show ?thesis
      using retire R(2) by (simp add: held_after_def retired_def added_def piece_of_def)
  next
    case other
    then have "lo (held_after c op s s') = lo (after c s s')"
    proof (cases op)
      case (CompleteFastBatch n D)
      then have "same_ranges s s'" using run same_ranges_fast(6) by (simp add: exec_def)
      then have "lo (after c s s') = lo c" using lo_same [OF inv, of s'] by (simp add: same_ranges_def after_def)
      with CompleteFastBatch show ?thesis by (simp add: held_after_def)
    qed (simp_all add: held_after_def)
    moreover have "retired c s op = {#}" "added op = {#}"
      using other by (cases op; simp add: retired_def added_def)+
    ultimately show ?thesis using owes_same_exec [OF inv al run other] by (simp add: owes_same_def)
  qed
qed

end
