(* ===== verification/Sched_Props.thy ===== *)
theory Sched_Props
  imports Sched_Run
begin

section \<open>Properties of the scheduler\<close>

text \<open>
  The states that workers keeping their contract can reach from a new scheduler, and the
  properties of \<open>src/src/sched.rs\<close> that hold in all of them.
\<close>

inductive reached :: "nat \<Rightarrow> nat \<Rightarrow> client \<Rightarrow> sched \<Rightarrow> bool" for blk ms where
  start: "reached blk ms \<lparr>lo = [], probes = {#}, spent = 0\<rparr> (sched_new blk ms)"
| step: "reached blk ms c s \<Longrightarrow> allowed c s op \<Longrightarrow> exec c op s = Some s' \<Longrightarrow>
    reached blk ms (held_after c op s s') s'"

inductive_cases reachedE: "reached blk ms c s"

abbreviation no_client :: client where
  "no_client \<equiv> \<lparr>lo = [], probes = {#}, spent = 0\<rparr>"

lemma reached_inv:
  assumes "reached blk ms c s" "0 < blk"
  shows "sched_inv c s"
  using assms(1)
proof induction
  case start
  show ?case by (rule sched_new_inv [OF assms(2)])
next
  case (step c s op s')
  then show ?case using exec_ok [OF step.IH step.hyps(2)] by auto
qed

text \<open>
  A run of five operations for the concrete instances: it plans a file of 100 bytes, ends
  planning, takes the file, registers its bytes as one range and lets a second worker steal the
  upper half. The states are written out; \<open>sample_arena\<close> holds the one job.
\<close>

definition sample_arena :: arena where
  "sample_arena = [(replicate jobs_per_chunk None)[0 := Some sample_job]]"

definition sample_item :: file_item where
  "sample_item = (100, Reverse (FileOrder 0))"

definition sample_files :: "file_item list \<Rightarrow> file_queue" where
  "sample_files q = \<lparr>heads = (\<lambda>it. (it, 0)) ` set q, directories = [''d'' \<mapsto> 0], groups = [q],
     group_of = [0], fq_count = length q, fq_bytes = sum_list (map fst q)\<rparr>"

definition sample_pushed :: sched where
  "sample_pushed = (sched_new 4 8)\<lparr>job_arena := sample_arena,
     job_table := jobs_default\<lparr>chunks := [0], destinations := [None]\<rparr>,
     files := sample_files [sample_item], file_work_anticipated := True, signals := [NotifyAll]\<rparr>"

definition sample_scanned :: sched where
  "sample_scanned = sample_pushed\<lparr>scan_done := True, signals := [TuneOne, NotifyAll, NotifyAll]\<rparr>"

definition sample_taken :: sched where
  "sample_taken = sample_scanned\<lparr>files := sample_files [], probing := 1\<rparr>"

definition sample_ready :: sched where
  "sample_ready = sample_taken\<lparr>probing := 0, outstanding := [0 \<mapsto> 1], inflight := [0],
     range_store := [\<lparr>r_idx = 0, r_pos = 0, r_end = 100, r_split = None\<rparr>],
     signals := [NotifyAll, TuneOne, NotifyAll, NotifyAll]\<rparr>"

definition sample_state :: sched where
  "sample_state = sample_ready\<lparr>outstanding := [0 \<mapsto> 2], inflight := [0, 1],
     range_store := [\<lparr>r_idx = 0, r_pos = 0, r_end = 52, r_split = None\<rparr>,
                     \<lparr>r_idx = 0, r_pos = 52, r_end = 100, r_split = None\<rparr>]\<rparr>"

definition sample_client :: client where
  "sample_client = \<lparr>lo = [0, 52], probes = {#}, spent = 0\<rparr>"

lemma reverse_bits_0 [simp]: "reverse_bits 0 = 0"
  by (rule bit_eqI) (simp add: bit_reverse_bits)

lemma sample_index [simp]: "item_index sample_item = 0" "fst sample_item = 100"
  by (simp_all add: item_index_def file_order_index_def sample_item_def)

lemmas sample_states = sample_pushed_def sample_scanned_def sample_taken_def sample_ready_def
  sample_state_def sample_client_def sample_files_def sched_new_def jobs_default_def rq_default_def

lemmas queue_evals = fq_pop_def fq_pop_group_def heap_pop_def heap_peek_def set_last_def rq_pop_def
  rq_extend_def usub_def ensure_def vec_get_def Let_def

lemmas sched_evals = sched_next_def take_work_def steal_def steal_split_def remaining_def
  split_minimum_def claim_range_def ranges_ready_def initial_split_def notify_def finished_def
  fq_is_empty_def rq_is_empty_def sched_scan_done_def end_unneeded_worker_setups_def

lemmas client_evals = allowed_def holds_probe_def held_after_def after_def queued_def fq_items_def
  shared_def valid_ranges_def

lemma sample_push: "push_file sample_job None (sched_new 4 8) = Some (0, sample_pushed)"
  by (simp add: push_file_def jobs_push_def locate_def jobs_len_def current_def queue_file_def
      fq_push_def fq_register_def fq_default_def fq_parent_def rposition_def vec_resize_def
      file_item_of_def file_order_new_def heap_peek_Cons sample_job_def sample_entry_def
      sample_arena_def sample_item_def item_index_def file_order_index_def
      notify_def queue_evals sample_states)

lemma sample_scan: "sched_scan_done sample_pushed = sample_scanned"
  by (simp add: sched_evals sample_states)

lemma sample_take: "sched_next sample_scanned = Some (Some (ItemFile 0), sample_taken)"
  by (simp add: sched_evals queue_evals sample_states)

lemma sample_register: "ranges_ready 0 [(0, 100)] sample_taken = Some (Some 0, sample_ready)"
  by (simp add: sched_evals queue_evals sample_states)

lemma sample_steal: "sched_next sample_ready = Some (Some (ItemRange 1), sample_state)"
  by (simp add: sched_evals queue_evals sample_states div_ceil_def) (simp add: numeral_2_eq_2)

lemma sample_taken_reached: "reached 4 8 \<lparr>lo = [], probes = {#0#}, spent = 0\<rparr> sample_taken"
proof -
  have "reached 4 8 no_client sample_pushed"
    using reached.step [OF reached.start, of 4 8 "PushFile sample_job None"] sample_push
    by (simp add: exec_def client_evals sample_states jobs_len_def fq_default_def)
  from reached.step [OF this, of ScanDone] have "reached 4 8 no_client sample_scanned"
    by (simp add: exec_def client_evals sample_scan) (simp add: sample_states)
  from reached.step [OF this, of Next] show ?thesis
    by (simp add: exec_def client_evals sample_take) (simp add: sample_states)
qed

lemma sample_ready_reached: "reached 4 8 \<lparr>lo = [0], probes = {#}, spent = 0\<rparr> sample_ready"
  using reached.step [OF sample_taken_reached, of "RangesReady 0 [(0, 100)]"]
  by (simp add: exec_def client_evals sample_register) (simp add: sample_states)

lemma sample_reached: "reached 4 8 sample_client sample_state"
  using reached.step [OF sample_ready_reached, of Next]
  by (simp add: exec_def client_evals sample_steal) (simp add: sample_states)



text \<open>C2. No byte is lost and none is handed out twice: a step changes how often a byte of a
  file is owed only by registering the ranges of a probed file or by finishing a range. Stealing,
  claiming, releasing, returning and retrying ranges move bytes between the queue and the
  workers and keep every count.\<close>

theorem sched_bytes_conserved:
  assumes "0 < blk" "reached blk ms c s" "allowed c s op" "exec c op s = Some s'"
  shows "cover (sched_pieces (lo (held_after c op s s')) s' + retired c s op) idx b =
    cover (sched_pieces (lo c) s + added op) idx b"
  using exec_owes [OF reached_inv [OF assms(2,1)] assms(3,4)] by simp

theorem sched_bytes_conserved_witness:
  "\<exists>s'. exec sample_client (RetryRange 1) sample_state = Some s' \<and>
    cover (sched_pieces (lo (held_after sample_client (RetryRange 1) sample_state s')) s') 0 60 =
      cover (sched_pieces (lo sample_client) sample_state) 0 60"
proof -
  have al: "allowed sample_client sample_state (RetryRange 1)" by (simp add: sample_states sched_evals client_evals)
  obtain s' where s': "exec sample_client (RetryRange 1) sample_state = Some s'"
    using exec_ok [OF reached_inv [OF sample_reached] al] by auto
  from sched_bytes_conserved [OF _ sample_reached al s', of 0 60] s' show ?thesis
    by (auto simp: retired_def added_def)
qed



text \<open>C4. A file is in one place: in every reached state it is queued at most once, held by at
  most one worker, or has ranges outstanding, and no two of these at once; so
  \<open>ranges_ready\<close> never overwrites the count of a file.\<close>

theorem sched_file_in_one_place:
  assumes "0 < blk" "reached blk ms c s"
  shows "count (queued (files s)) i + count (probes c) i + (if outstanding s i = None then 0 else 1) \<le> 1"
proof -
  have "count (queued (files s) + probes c) i + (if outstanding s i = None then 0 else 1)
      \<le> (if i < jobs_len (job_table s) then 1 else 0)"
    using sched_invD(4) [OF reached_inv [OF assms(2,1)]] by (simp add: tokens_ok_def)
  then show ?thesis by (simp split: if_splits)
qed

theorem sched_file_in_one_place_witness:
  "outstanding sample_state 0 \<noteq> None \<and> 0 \<notin># queued (files sample_state) \<and> 0 \<notin># probes sample_client"
proof -
  have "outstanding sample_state 0 = Some 2" by (simp add: sample_states sched_evals client_evals)
  with sched_file_in_one_place [OF _ sample_reached, of 0] show ?thesis by (simp add: not_in_iff)
qed

text \<open>C19. \<open>next\<close> sends a worker home exactly when the copy was aborted or nothing is left: it
  returns \<open>Exit\<close> if and only if the copy is aborted or finished, and without an abort there is
  then no queued file or range, no publication to do, no range in flight and no file in a
  worker's hands.\<close>

theorem next_exit_iff_finished:
  assumes "0 < blk" "reached blk ms c s"
  shows "\<exists>it s'. sched_next s = Some (it, s') \<and> (it = Some ItemExit \<longleftrightarrow> abort s \<or> finished s) \<and>
    (it = Some ItemExit \<and> \<not> abort s \<longrightarrow> sched_pieces (lo c) s = {#} \<and> queued (files s) = {#} \<and>
       probes c = {#} \<and> finishes s = [] \<and> finishing s = 0 \<and> outstanding s = Map.empty)"
proof -
  note inv = reached_inv [OF assms(2,1)]
  have "finished s \<Longrightarrow> finishes s = [] \<and> finishing s = 0" by (simp add: finished_def)
  with sched_next_ok [OF inv] finished_empty(1-4) [OF inv] show ?thesis by blast
qed

theorem next_exit_iff_finished_witness:
  "\<exists>it s'. sched_next sample_state = Some (it, s') \<and> it \<noteq> Some ItemExit"
proof -
  have "\<not> abort sample_state \<and> \<not> finished sample_state" by (simp add: sample_states sched_evals client_evals)
  with next_exit_iff_finished [OF _ sample_reached] show ?thesis by auto
qed









text \<open>C24. The initial split keeps the bytes: splitting the ranges of a file for the workers of a
  large-file copy never panics, keeps how often each byte is covered, and gives either the
  ranges as they were or, for a single range, at most one part per worker; the parts follow each
  other from the start of the range to its end, start on multiples of the block and are at least
  \<open>min_split\<close> long.\<close>

theorem initial_split_partitions:
  assumes "0 < blk" "reached blk ms c s" "valid_ranges rs"
  shows "\<exists>rs'. initial_split s n rs = Some rs' \<and>
    cover (file_pieces idx rs') = cover (file_pieces idx rs) \<and>
    (rs' = rs \<or> (\<exists>a e. rs = [(a, e)] \<and> chain a rs' e \<and> length rs' \<le> n \<and>
      list_all (\<lambda>(x, y). block s dvd x \<and> min_split s \<le> y - x) rs'))"
proof -
  note I = sched_invD [OF reached_inv [OF assms(2,1)]]
  have "\<forall>(a, e)\<in>set rs. a < e" using assms(3) by (simp add: valid_ranges_def)
  from initial_split_ok [OF I(5,6) this, of n idx] show ?thesis
    by (auto simp: list_all_iff)
qed

theorem initial_split_partitions_witness:
  "initial_split sample_taken 3 [(0, 100)] = Some [(0, 36), (36, 68), (68, 100)] \<and>
    cover (file_pieces 0 [(0, 36), (36, 68), (68, 100)]) 0 = cover (file_pieces 0 [(0, 100)]) 0"
proof -
  have "initial_split sample_taken 3 [(0, 100)] = Some [(0, 36), (36, 68), (68, 100)]"
    by (simp add: sched_evals queue_evals sample_states div_ceil_def upt_rec)
  with initial_split_partitions [OF _ sample_taken_reached, of "[(0, 100)]" 3 0] show ?thesis
    by (auto simp: valid_ranges_def)
qed

end
