(* ===== verification/Expression.thy ===== *)
theory Expression
  imports Proto_Types "HOL-Library.List_Lexorder" "HOL-Library.Char_ord" "HOL-Library.Signed_Division"
begin

section \<open>Expressions\<close>

text \<open>
  \<open>src/src/expression/mod.rs\<close>: the typed predicates of \<open>--where\<close> and \<open>--copy-if\<close>. Values are
  \<open>i128\<close> integers with a unit, byte strings, booleans and null. An \<open>i128\<close> is an \<^typ>\<open>int\<close> whose
  range the checked operations test; a compiled regular expression is a value of the type
  variable \<open>'r\<close> and \<open>Regex::is_match\<close> a parameter \<open>is_match\<close>.
\<close>

unbundle bit_operations_syntax

subsection \<open>Types and values\<close>

datatype ty = TBool | TString | TNumber | TSize | TDuration | TTimestamp | TNull

datatype expr_value = VBool bool | VString string | Quantity int ty | VNull

text \<open>
  The errors: one constructor for each message of evaluation and for each message with
  parameters, \<open>Message\<close> for the other messages of compilation.
\<close>

datatype expr_error =
    NeedMetadata
  | ExpectedBoolean
  | CannotNegate
  | CannotMatch
  | FieldUnavailable
  | ArithmeticOverflow
  | OverflowOrDivisionByZero
  | ArithmeticRequiresQuantities
  | Message string
  | UnknownField string
  | IncompatibleTypes ty ty
  | InvalidArithmetic ty ty
  | ExpectedToken string
  | UnknownSuffix string
  | UnexpectedCharacter nat
  | AtByte nat expr_error
  | WithContext string expr_error

definition with_context :: "string \<Rightarrow> expr_error + 'a \<Rightarrow> expr_error + 'a" where
  "with_context c r = (case r of Inl e \<Rightarrow> Inl (WithContext c e) | Inr v \<Rightarrow> Inr v)"

definition expr_require :: "bool \<Rightarrow> string \<Rightarrow> expr_error + unit" where
  "expr_require ok message = (if \<not> ok then Inl (Message message) else Inr ())"

definition value_ty :: "expr_value \<Rightarrow> ty" where
  "value_ty v = (case v of VBool _ \<Rightarrow> TBool | VString _ \<Rightarrow> TString | Quantity _ t \<Rightarrow> t | VNull \<Rightarrow> TNull)"

definition boolean :: "expr_value \<Rightarrow> expr_error + bool" where
  "boolean v = (case v of VBool b \<Rightarrow> Inr b | _ \<Rightarrow> Inl ExpectedBoolean)"

subsection \<open>Fields\<close>

datatype field =
    FPath | FName | FExtension | FKind | FExists | FSize | FMtime | FS3LastModified | FCtime
  | FMode | FUid | FGid | FDevice | FInode | FLinks | FLinkTarget

definition field_names :: "(string \<times> field) list" where
  "field_names = [(''path'', FPath), (''name'', FName), (''extension'', FExtension), (''kind'', FKind),
     (''exists'', FExists), (''size'', FSize), (''mtime'', FMtime), (''s3_last_modified'', FS3LastModified),
     (''ctime'', FCtime), (''mode'', FMode), (''uid'', FUid), (''gid'', FGid), (''device'', FDevice),
     (''inode'', FInode), (''nlink'', FLinks), (''link_target'', FLinkTarget)]"

definition field_parse :: "string \<Rightarrow> expr_error + field" where
  "field_parse name = (case map_of field_names name of
     Some f \<Rightarrow> Inr f | None \<Rightarrow> Inl (UnknownField name))"

fun field_ty :: "field \<Rightarrow> ty" where
  "field_ty FPath = TString"
| "field_ty FName = TString"
| "field_ty FExtension = TString"
| "field_ty FKind = TString"
| "field_ty FLinkTarget = TString"
| "field_ty FExists = TBool"
| "field_ty FSize = TSize"
| "field_ty FMtime = TTimestamp"
| "field_ty FCtime = TTimestamp"
| "field_ty FS3LastModified = TTimestamp"
| "field_ty _ = TNumber"

subsection \<open>Metadata\<close>

record expr_file =
  f_exists :: bool
  f_kind :: "kind option"
  f_size :: "nat option"
  f_mtime :: "(int \<times> nat) option"
  f_ctime :: "(int \<times> nat) option"
  f_s3_last_modified :: "(int \<times> nat) option"
  f_mode :: "nat option"
  f_uid :: "nat option"
  f_gid :: "nat option"
  f_device :: "nat option"
  f_inode :: "nat option"
  f_nlink :: "nat option"
  f_link_target :: "string option"

definition file_default :: expr_file where
  "file_default = \<lparr>f_exists = False, f_kind = None, f_size = None, f_mtime = None, f_ctime = None,
     f_s3_last_modified = None, f_mode = None, f_uid = None, f_gid = None, f_device = None,
     f_inode = None, f_nlink = None, f_link_target = None\<rparr>"

definition from_entry :: "entry \<Rightarrow> expr_file" where
  "from_entry e = \<lparr>f_exists = True, f_kind = Some (e_kind e), f_size = Some (e_size e),
     f_mtime = Some (mtime e, mtime_nsec e), f_ctime = Some (ctime e, ctime_nsec e),
     f_s3_last_modified = None, f_mode = Some (mode e AND 4095), f_uid = Some (uid e),
     f_gid = Some (gid e), f_device = Some (dev e), f_inode = Some (ino e), f_nlink = Some (nlink e),
     f_link_target = link_target e\<rparr>"

fun kind_name :: "kind \<Rightarrow> string" where
  "kind_name File = ''file''"
| "kind_name Dir = ''dir''"
| "kind_name Symlink = ''symlink''"
| "kind_name Fifo = ''fifo''"
| "kind_name Socket = ''socket''"
| "kind_name CharDev = ''char''"
| "kind_name BlockDev = ''block''"
| "kind_name OtherKind = ''other''"

definition quantity :: "int option \<Rightarrow> ty \<Rightarrow> expr_value" where
  "quantity n t = (case n of None \<Rightarrow> VNull | Some n \<Rightarrow> Quantity n t)"

definition nanos :: "int \<times> nat \<Rightarrow> int" where
  "nanos t = (case t of (s, n) \<Rightarrow> s * 1000000000 + int n)"

definition base_name :: "string \<Rightarrow> string" where
  "base_name p = last (split_on (CHR ''/'') p)"

definition extension_of :: "string \<Rightarrow> string" where
  "extension_of name = (case rposition (\<lambda>b. b = CHR ''.'') name of
     Some i \<Rightarrow> if i \<noteq> 0 then drop (i + 1) name else []
   | None \<Rightarrow> [])"

definition file_field :: "expr_file \<Rightarrow> string \<Rightarrow> field \<Rightarrow> expr_value" where
  "file_field f p field = (case field of
     FPath \<Rightarrow> VString p
   | FName \<Rightarrow> VString (base_name p)
   | FExtension \<Rightarrow> VString (extension_of (base_name p))
   | FExists \<Rightarrow> VBool (f_exists f)
   | _ \<Rightarrow> if \<not> f_exists f then VNull
      else (case field of
        FKind \<Rightarrow> (case f_kind f of None \<Rightarrow> VNull | Some k \<Rightarrow> VString (kind_name k))
      | FSize \<Rightarrow> quantity (map_option int (f_size f)) TSize
      | FMtime \<Rightarrow> quantity (map_option nanos (f_mtime f)) TTimestamp
      | FCtime \<Rightarrow> quantity (map_option nanos (f_ctime f)) TTimestamp
      | FS3LastModified \<Rightarrow> quantity (map_option nanos (f_s3_last_modified f)) TTimestamp
      | FMode \<Rightarrow> quantity (map_option int (f_mode f)) TNumber
      | FUid \<Rightarrow> quantity (map_option int (f_uid f)) TNumber
      | FGid \<Rightarrow> quantity (map_option int (f_gid f)) TNumber
      | FDevice \<Rightarrow> quantity (map_option int (f_device f)) TNumber
      | FInode \<Rightarrow> quantity (map_option int (f_inode f)) TNumber
      | FLinks \<Rightarrow> quantity (map_option int (f_nlink f)) TNumber
      | _ \<Rightarrow> (case f_link_target f of None \<Rightarrow> VNull | Some t \<Rightarrow> VString t)))"

text \<open>What is known of an entry without another metadata request.\<close>

datatype expr_facts =
    Complete expr_file
  | S3Listing nat bool "(int \<times> nat) option"
  | Unread

definition facts_field :: "expr_facts \<Rightarrow> string \<Rightarrow> field \<Rightarrow> expr_error + expr_value" where
  "facts_field facts p field = (case facts of
     Complete f \<Rightarrow> Inr (file_field f p field)
   | _ \<Rightarrow> if field \<in> {FPath, FName, FExtension} then Inr (file_field file_default p field)
      else (case facts of
        S3Listing size' _ last_modified \<Rightarrow>
          (case field of
             FExists \<Rightarrow> Inr (VBool True)
           | FSize \<Rightarrow> Inr (Quantity (int size') TSize)
           | FS3LastModified \<Rightarrow> Inr (case last_modified of
               None \<Rightarrow> VNull | Some t \<Rightarrow> Quantity (nanos t) TTimestamp)
           | FCtime \<Rightarrow> Inr VNull
           | FDevice \<Rightarrow> Inr VNull
           | FInode \<Rightarrow> Inr VNull
           | FLinks \<Rightarrow> Inr VNull
           | FLinkTarget \<Rightarrow> Inr VNull
           | _ \<Rightarrow> Inl NeedMetadata)
      | _ \<Rightarrow> Inl NeedMetadata))"

subsection \<open>Nodes and their types\<close>

datatype binop =
    OpAnd | OpOr | OpEq | OpNe | OpLt | OpLe | OpGt | OpGe
  | OpAdd | OpSub | OpMul | OpDiv | OpRem | OpBitAnd | OpBitOr | OpBitXor

datatype 'r node =
    Literal expr_value
  | Field bool field
  | Now
  | Not "'r node"
  | Negative "'r node"
  | Binary binop "'r node" "'r node"
  | In "'r node" "'r node list"
  | Between "'r node" "'r node" "'r node"
  | Pattern "'r node" 'r
  | If "'r node" "'r node" "'r node"
  | Coalesce "'r node" "'r node"

fun uses_source_s3_time :: "'r node \<Rightarrow> bool" where
  "uses_source_s3_time (Field False FS3LastModified) \<longleftrightarrow> True"
| "uses_source_s3_time (Not n) \<longleftrightarrow> uses_source_s3_time n"
| "uses_source_s3_time (Negative n) \<longleftrightarrow> uses_source_s3_time n"
| "uses_source_s3_time (Pattern n _) \<longleftrightarrow> uses_source_s3_time n"
| "uses_source_s3_time (Binary _ a b) \<longleftrightarrow> uses_source_s3_time a \<or> uses_source_s3_time b"
| "uses_source_s3_time (Coalesce a b) \<longleftrightarrow> uses_source_s3_time a \<or> uses_source_s3_time b"
| "uses_source_s3_time (Between a b c) \<longleftrightarrow>
     uses_source_s3_time a \<or> uses_source_s3_time b \<or> uses_source_s3_time c"
| "uses_source_s3_time (If a b c) \<longleftrightarrow>
     uses_source_s3_time a \<or> uses_source_s3_time b \<or> uses_source_s3_time c"
| "uses_source_s3_time (In a items) \<longleftrightarrow>
     uses_source_s3_time a \<or> list_ex uses_source_s3_time items"
| "uses_source_s3_time _ \<longleftrightarrow> False"

definition common_type :: "ty \<Rightarrow> ty \<Rightarrow> expr_error + ty" where
  "common_type a b =
     (if a = TNull then Inr b
      else if b = TNull \<or> a = b then Inr a
      else Inl (IncompatibleTypes a b))"

definition countable_ty :: "ty \<Rightarrow> bool" where
  "countable_ty t \<longleftrightarrow> t \<in> {TNumber, TSize, TDuration}"

definition binary_type :: "binop \<Rightarrow> ty \<Rightarrow> ty \<Rightarrow> expr_error + ty" where
  "binary_type op a b =
     (if op \<in> {OpAnd, OpOr} then
        and_then (expr_require (a = TBool \<and> b = TBool) ''and/or require booleans'') (\<lambda>_. Inr TBool)
      else if op \<in> {OpEq, OpNe} then and_then (common_type a b) (\<lambda>_. Inr TBool)
      else if op \<in> {OpLt, OpLe, OpGt, OpGe} then
        and_then (expr_require (a = b \<and> a \<in> {TNumber, TSize, TDuration, TTimestamp, TString})
          ''ordered comparisons require matching numbers, sizes, durations, timestamps, or strings'')
          (\<lambda>_. Inr TBool)
      else if op \<in> {OpBitAnd, OpBitOr, OpBitXor} \<and> a = TNumber \<and> b = TNumber then Inr TNumber
      else if op = OpAdd \<and> (a = TTimestamp \<and> b = TDuration \<or> a = TDuration \<and> b = TTimestamp)
        then Inr TTimestamp
      else if op = OpSub \<and> a = TTimestamp \<and> b = TDuration then Inr TTimestamp
      else if op = OpSub \<and> a = TTimestamp \<and> b = TTimestamp then Inr TDuration
      else if op \<in> {OpAdd, OpSub} \<and> a = b \<and> countable_ty a then Inr a
      else if op = OpMul \<and> a = TNumber \<and> countable_ty b then Inr b
      else if op \<in> {OpMul, OpDiv} \<and> b = TNumber \<and> countable_ty a then Inr a
      else if op = OpDiv \<and> a = b \<and> a \<in> {TSize, TDuration} then Inr TNumber
      else if op = OpRem \<and> a = b \<and> countable_ty a then Inr a
      else Inl (InvalidArithmetic a b))"

text \<open>
  \<open>Node::ty\<close>. The type of the left operand of \<open>in\<close> is asked for each item of the list, so not
  at all for an empty list.
\<close>

function (sequential) node_ty :: "'r node \<Rightarrow> expr_error + ty"
  and items_ty :: "'r node \<Rightarrow> 'r node list \<Rightarrow> expr_error + unit" where
  "node_ty (Literal v) = Inr (value_ty v)"
| "node_ty (Field _ f) = Inr (field_ty f)"
| "node_ty Now = Inr TTimestamp"
| "node_ty (Not n) =
     and_then (node_ty n) (\<lambda>t. and_then (expr_require (t = TBool) ''not requires a boolean'') (\<lambda>_. Inr TBool))"
| "node_ty (Negative n) =
     and_then (node_ty n) (\<lambda>t. and_then (expr_require (countable_ty t)
       ''unary minus requires a number, size, or duration'') (\<lambda>_. Inr t))"
| "node_ty (Binary op a b) =
     and_then (node_ty a) (\<lambda>ta. and_then (node_ty b) (\<lambda>tb. binary_type op ta tb))"
| "node_ty (Between a b c) =
     and_then (node_ty a) (\<lambda>ta. and_then (node_ty b) (\<lambda>tb. and_then (binary_type OpGe ta tb) (\<lambda>_.
     and_then (node_ty a) (\<lambda>ta. and_then (node_ty c) (\<lambda>tc. and_then (binary_type OpLe ta tc) (\<lambda>_.
       Inr TBool))))))"
| "node_ty (In a items) = and_then (items_ty a items) (\<lambda>_. Inr TBool)"
| "node_ty (Pattern a _) =
     and_then (node_ty a) (\<lambda>t. and_then (expr_require (t = TString)
       ''pattern matching requires a string'') (\<lambda>_. Inr TBool))"
| "node_ty (If c a b) =
     and_then (node_ty c) (\<lambda>t. and_then (expr_require (t = TBool) ''if requires a boolean condition'') (\<lambda>_.
     and_then (node_ty a) (\<lambda>ta. and_then (node_ty b) (\<lambda>tb. common_type ta tb))))"
| "node_ty (Coalesce a b) =
     and_then (node_ty a) (\<lambda>ta. and_then (node_ty b) (\<lambda>tb. common_type ta tb))"
| "items_ty a [] = Inr ()"
| "items_ty a (b # bs) =
     and_then (node_ty a) (\<lambda>ta. and_then (node_ty b) (\<lambda>tb. and_then (binary_type OpEq ta tb) (\<lambda>_.
       items_ty a bs)))"
  by pat_completeness auto
termination
  by (relation "measure (case_sum size (\<lambda>(a, bs). size a + size_list size bs))") auto

subsection \<open>Evaluation\<close>

definition i128_fits :: "int \<Rightarrow> bool" where
  "i128_fits n \<longleftrightarrow> - (2 ^ 127) \<le> n \<and> n < 2 ^ 127"

definition checked :: "int \<Rightarrow> int option" where
  "checked n = (if i128_fits n then Some n else None)"

definition arith :: "binop \<Rightarrow> int \<Rightarrow> int \<Rightarrow> int option" where
  "arith op a b = (case op of
     OpAdd \<Rightarrow> checked (a + b)
   | OpSub \<Rightarrow> checked (a - b)
   | OpMul \<Rightarrow> checked (a * b)
   | OpDiv \<Rightarrow> if b = 0 then None else checked (a sdiv b)
   | OpRem \<Rightarrow> if b = 0 \<or> (a = - (2 ^ 127) \<and> b = -1) then None else Some (a smod b)
   | OpBitAnd \<Rightarrow> Some (a AND b)
   | OpBitOr \<Rightarrow> Some (a OR b)
   | OpBitXor \<Rightarrow> Some (a XOR b)
   | _ \<Rightarrow> None)"

definition ordered :: "binop \<Rightarrow> 'a::linorder \<Rightarrow> 'a \<Rightarrow> bool option" where
  "ordered op a b = (case op of
     OpLt \<Rightarrow> Some (a < b) | OpLe \<Rightarrow> Some (a \<le> b) | OpGt \<Rightarrow> Some (a > b) | OpGe \<Rightarrow> Some (a \<ge> b)
   | _ \<Rightarrow> None)"

definition compare_values :: "binop \<Rightarrow> expr_value \<Rightarrow> expr_value \<Rightarrow> bool option" where
  "compare_values op a b = (case (a, b) of
     (Quantity x _, Quantity y _) \<Rightarrow> ordered op x y
   | (VString x, VString y) \<Rightarrow> ordered op x y
   | _ \<Rightarrow> None)"

definition binary :: "binop \<Rightarrow> expr_value \<Rightarrow> expr_value \<Rightarrow> expr_error + expr_value" where
  "binary op a b =
     (if op \<in> {OpEq, OpNe} then Inr (VBool (if op = OpEq then a = b else a \<noteq> b))
      else if a = VNull \<or> b = VNull then
        Inl FieldUnavailable
      else and_then (binary_type op (value_ty a) (value_ty b)) (\<lambda>t.
        (case compare_values op a b of
           Some v \<Rightarrow> Inr (VBool v)
         | None \<Rightarrow>
           (case (a, b) of
              (Quantity x _, Quantity y _) \<Rightarrow>
                (case arith op x y of
                   Some n \<Rightarrow> Inr (Quantity n t)
                 | None \<Rightarrow> Inl OverflowOrDivisionByZero)
            | _ \<Rightarrow> Inl ArithmeticRequiresQuantities))))"

record context_values =
  c_src :: expr_facts
  c_dst :: expr_facts
  c_src_path :: string
  c_dst_path :: string
  c_now :: int

function (sequential) eval :: "('r \<Rightarrow> string \<Rightarrow> bool) \<Rightarrow> context_values \<Rightarrow> 'r node \<Rightarrow> expr_error + expr_value"
  and eval_items :: "('r \<Rightarrow> string \<Rightarrow> bool) \<Rightarrow> context_values \<Rightarrow> expr_value \<Rightarrow> 'r node list \<Rightarrow> expr_error + bool"
where
  "eval m c (Literal v) = Inr v"
| "eval m c Now = Inr (Quantity (c_now c) TTimestamp)"
| "eval m c (Field dst f) =
     (if dst then facts_field (c_dst c) (c_dst_path c) f else facts_field (c_src c) (c_src_path c) f)"
| "eval m c (Not n) = and_then (eval m c n) (\<lambda>v. and_then (boolean v) (\<lambda>b. Inr (VBool (\<not> b))))"
| "eval m c (Negative n) = and_then (eval m c n) (\<lambda>v. (case v of
     Quantity x t \<Rightarrow> (case checked (- x) of
        Some y \<Rightarrow> Inr (Quantity y t) | None \<Rightarrow> Inl ArithmeticOverflow)
   | _ \<Rightarrow> Inl CannotNegate))"
| "eval m c (Binary OpAnd a b) = and_then (eval m c a) (\<lambda>v. and_then (boolean v) (\<lambda>x.
     if x then and_then (eval m c b) (\<lambda>w. and_then (boolean w) (\<lambda>y. Inr (VBool y))) else Inr (VBool False)))"
| "eval m c (Binary OpOr a b) = and_then (eval m c a) (\<lambda>v. and_then (boolean v) (\<lambda>x.
     if x then Inr (VBool True) else and_then (eval m c b) (\<lambda>w. and_then (boolean w) (\<lambda>y. Inr (VBool y)))))"
| "eval m c (Binary op a b) = and_then (eval m c a) (\<lambda>v. and_then (eval m c b) (\<lambda>w. binary op v w))"
| "eval m c (Between a b d) = and_then (eval m c a) (\<lambda>v. and_then (eval m c b) (\<lambda>lo.
     and_then (binary OpGe v lo) (\<lambda>r. and_then (boolean r) (\<lambda>x.
       if x then and_then (eval m c d) (\<lambda>hi. and_then (binary OpLe v hi) (\<lambda>r. and_then (boolean r) (\<lambda>y.
         Inr (VBool y)))) else Inr (VBool False)))))"
| "eval m c (In a items) = and_then (eval m c a) (\<lambda>v. and_then (eval_items m c v items) (\<lambda>found.
     Inr (VBool found)))"
| "eval m c (Pattern n p) = and_then (eval m c n) (\<lambda>v. (case v of
     VString s \<Rightarrow> Inr (VBool (m p s))
   | _ \<Rightarrow> Inl CannotMatch))"
| "eval m c (If cond a b) = and_then (eval m c cond) (\<lambda>v. and_then (boolean v) (\<lambda>x.
     if x then eval m c a else eval m c b))"
| "eval m c (Coalesce a b) = and_then (eval m c a) (\<lambda>v. if v = VNull then eval m c b else Inr v)"
| "eval_items m c v [] = Inr False"
| "eval_items m c v (b # bs) = and_then (eval m c b) (\<lambda>w. and_then (binary OpEq v w) (\<lambda>r.
     and_then (boolean r) (\<lambda>x. if x then Inr True else eval_items m c v bs)))"
  by pat_completeness auto
termination
  by (relation "measure (case_sum (\<lambda>(m, c, n). size n) (\<lambda>(m, c, v, ns). size_list size ns))") auto

end
