(* ===== verification/Bytes.thy ===== *)
theory Bytes
  imports Syq_Prelude
begin

section \<open>Bytes and text\<close>

text \<open>
  What the components use of the standard library on bytes: ASCII classes, hexadecimal digits,
  the UTF-8 check of \<open>str::from_utf8\<close>, and cutting text into lines. A byte is a \<^typ>\<open>char\<close> and
  a \<open>&str\<close> is the list of its bytes.
\<close>

subsection \<open>ASCII\<close>

definition byte :: "char \<Rightarrow> nat" where
  "byte c = of_char c"

definition is_digit :: "char \<Rightarrow> bool" where
  "is_digit c \<longleftrightarrow> 48 \<le> byte c \<and> byte c \<le> 57"

definition is_alpha :: "char \<Rightarrow> bool" where
  "is_alpha c \<longleftrightarrow> (65 \<le> byte c \<and> byte c \<le> 90) \<or> (97 \<le> byte c \<and> byte c \<le> 122)"

definition is_alphanumeric :: "char \<Rightarrow> bool" where
  "is_alphanumeric c \<longleftrightarrow> is_digit c \<or> is_alpha c"

definition is_whitespace :: "char \<Rightarrow> bool" where
  "is_whitespace c \<longleftrightarrow> byte c \<in> {32, 9, 10, 12, 13}"

text \<open>\<open>u8::is_ascii_hexdigit\<close>, \<open>to_ascii_lowercase\<close> and \<open>format!("{b:02x}")\<close>.\<close>

definition is_ascii_hexdigit :: "char \<Rightarrow> bool" where
  "is_ascii_hexdigit c \<longleftrightarrow>
     is_digit c \<or> (65 \<le> byte c \<and> byte c \<le> 70) \<or> (97 \<le> byte c \<and> byte c \<le> 102)"

definition ascii_lowercase :: "char \<Rightarrow> char" where
  "ascii_lowercase c = (if 65 \<le> byte c \<and> byte c \<le> 90 then char_of (byte c + 32) else c)"

definition hex_digit :: "nat \<Rightarrow> char" where
  "hex_digit n = (if n < 10 then char_of (48 + n) else char_of (87 + n))"

definition hex_byte :: "char \<Rightarrow> string" where
  "hex_byte c = [hex_digit (byte c div 16), hex_digit (byte c mod 16)]"

lemma byte_char_of: "n < 256 \<Longrightarrow> byte (char_of n) = n"
  by (simp add: byte_def)

lemma byte_less: "byte c < 256"
  by (simp add: byte_def)

lemma byte_high: "byte c div 16 < 16"
  using byte_less [of c] by (simp add: less_mult_imp_div_less)

lemma byte_inject: "byte c = byte d \<longleftrightarrow> c = d"
  by (simp add: byte_def)

lemma byte_hex_digit: "n < 16 \<Longrightarrow> byte (hex_digit n) = (if n < 10 then 48 + n else 87 + n)"
  by (simp add: hex_digit_def byte_char_of)

lemma hex_digit_inject: "m < 16 \<Longrightarrow> n < 16 \<Longrightarrow> hex_digit m = hex_digit n \<longleftrightarrow> m = n"
  by (subst byte_inject [symmetric]) (auto simp: byte_hex_digit)

lemma hex_byte_inject: "hex_byte c = hex_byte d \<longleftrightarrow> c = d"
proof
  assume "hex_byte c = hex_byte d"
  then have "byte c div 16 = byte d div 16" "byte c mod 16 = byte d mod 16"
    by (simp_all add: hex_byte_def hex_digit_inject byte_high)
  then have "byte c = byte d" by (metis div_mult_mod_eq)
  then show "c = d" by (simp add: byte_inject)
qed simp

lemma length_hex_byte [simp]: "length (hex_byte c) = 2"
  by (simp add: hex_byte_def)

lemma hex_bytes_inject:
  "concat (map hex_byte xs) = concat (map hex_byte ys) \<longleftrightarrow> xs = ys"
proof (induction xs arbitrary: ys)
  case Nil
  then show ?case by (cases ys) (simp_all add: hex_byte_def)
next
  case (Cons x xs)
  then show ?case by (cases ys) (simp_all add: hex_byte_inject, simp add: hex_byte_def)
qed

lemma length_hex_bytes [simp]: "length (concat (map hex_byte xs)) = 2 * length xs"
  by (induction xs) simp_all

lemma hex_bytes_digits:
  "c \<in> set (concat (map hex_byte xs)) \<Longrightarrow> is_ascii_hexdigit c \<and> ascii_lowercase c = c"
proof -
  assume "c \<in> set (concat (map hex_byte xs))"
  then obtain x where "c = hex_digit (byte x div 16) \<or> c = hex_digit (byte x mod 16)"
    by (auto simp: hex_byte_def)
  then have "\<exists>n < 16. c = hex_digit n"
    by (elim disjE)
      (rule exI [of _ "byte x div 16"], simp add: byte_high, rule exI [of _ "byte x mod 16"], simp)
  then show ?thesis
    by (auto simp: is_ascii_hexdigit_def is_digit_def ascii_lowercase_def byte_hex_digit split: if_splits)
qed

subsection \<open>UTF-8\<close>

text \<open>
  \<open>str::from_utf8\<close> accepts the encodings of the Unicode scalar values: no overlong form, no
  surrogate and nothing past \<open>U+10FFFF\<close>.
\<close>

definition continuation_byte :: "char \<Rightarrow> bool" where
  "continuation_byte c \<longleftrightarrow> 128 \<le> byte c \<and> byte c < 192"

definition second_byte :: "nat \<Rightarrow> nat \<Rightarrow> bool" where
  "second_byte a b \<longleftrightarrow>
     (if a = 224 then 160 \<le> b else if a = 240 then 144 \<le> b else 128 \<le> b) \<and>
     (if a = 237 then b < 160 else if a = 244 then b < 144 else b < 192)"

fun utf8_valid :: "string \<Rightarrow> bool" where
  "utf8_valid [] = True"
| "utf8_valid (a # s) =
     (if byte a < 128 then utf8_valid s
      else if byte a < 194 \<or> 244 < byte a then False
      else (case s of
          [] \<Rightarrow> False
        | b # s \<Rightarrow>
          if \<not> second_byte (byte a) (byte b) then False
          else if byte a < 224 then utf8_valid s
          else (case s of
              [] \<Rightarrow> False
            | c # s \<Rightarrow>
              if \<not> continuation_byte c then False
              else if byte a < 240 then utf8_valid s
              else (case s of
                  [] \<Rightarrow> False
                | d # s \<Rightarrow> continuation_byte d \<and> utf8_valid s))))"

lemma utf8_valid_ascii: "(\<And>c. c \<in> set s \<Longrightarrow> byte c < 128) \<Longrightarrow> utf8_valid s"
  by (induction s) auto

subsection \<open>Lines\<close>

text \<open>
  \<open>slice::split_inclusive\<close> at a byte, \<open>BufRead::read_line\<close> without its UTF-8 check (the line with
  its newline, and what is left to read), and \<open>trim_end_matches\<close> of a byte.
\<close>

fun split_inclusive :: "char \<Rightarrow> string \<Rightarrow> string list" where
  "split_inclusive c [] = []"
| "split_inclusive c (x # xs) =
     (if x = c then [x] # split_inclusive c xs
      else (case split_inclusive c xs of [] \<Rightarrow> [[x]] | y # ys \<Rightarrow> (x # y) # ys))"

fun next_line :: "string \<Rightarrow> string \<times> string" where
  "next_line [] = ([], [])"
| "next_line (x # xs) =
     (if x = CHR 0x0A then ([x], xs) else (case next_line xs of (l, r) \<Rightarrow> (x # l, r)))"

definition trim_end_matches :: "char \<Rightarrow> string \<Rightarrow> string" where
  "trim_end_matches c s = rev (dropWhile (\<lambda>x. x = c) (rev s))"

lemma next_line_append: "fst (next_line s) @ snd (next_line s) = s"
  by (induction s) (auto split: prod.splits)

lemma next_line_shorter: "s \<noteq> [] \<Longrightarrow> length (snd (next_line s)) < length s"
proof (induction s)
  case (Cons x s)
  then show ?case by (cases s) (auto split: prod.splits)
qed simp

lemma split_inclusive_lines:
  "s \<noteq> [] \<Longrightarrow>
     split_inclusive (CHR 0x0A) s = fst (next_line s) # split_inclusive (CHR 0x0A) (snd (next_line s))"
proof (induction s)
  case (Cons x s)
  then show ?case by (cases s) (auto split: prod.splits list.splits)
qed simp

lemma concat_split_inclusive [simp]: "concat (split_inclusive c s) = s"
  by (induction s) (auto split: list.splits)

lemma split_inclusive_not_Nil: "p \<in> set (split_inclusive c s) \<Longrightarrow> p \<noteq> []"
  by (induction s) (auto split: if_splits list.splits)

lemma split_inclusive_eq_Nil [simp]: "split_inclusive c s = [] \<longleftrightarrow> s = []"
  by (cases s) (auto split: list.splits)

end
