(* ===== verification/Expr_Lexer.thy ===== *)
theory Expr_Lexer
  imports Expression Bytes
begin

section \<open>Lexing expressions\<close>

text \<open>
  The lexer and the number literals of \<open>src/src/expression/parser.rs\<close>, with what they use of the
  standard library: ASCII classes, \<open>from_str_radix\<close>, UTF-8 character boundaries. The position
  \<open>i\<close> in the text is the suffix from it; a token keeps the byte it starts at.
\<close>

subsection \<open>Integers\<close>

text \<open>\<open>char::to_digit\<close>.\<close>

definition to_digit :: "nat \<Rightarrow> char \<Rightarrow> nat option" where
  "to_digit radix c =
     (let d = (if is_digit c then byte c - 48
               else if 97 \<le> byte c \<and> byte c \<le> 122 then byte c - 87
               else if 65 \<le> byte c \<and> byte c \<le> 90 then byte c - 55
               else radix)
      in if d < radix then Some d else None)"

fun digits_value :: "nat \<Rightarrow> string \<Rightarrow> nat \<Rightarrow> nat option" where
  "digits_value radix [] acc = Some acc"
| "digits_value radix (c # cs) acc = (case to_digit radix c of
     None \<Rightarrow> None | Some d \<Rightarrow> digits_value radix cs (acc * radix + d))"

text \<open>
  \<open>from_str_radix\<close>: an optional sign, at least one digit, and a value in the range of the
  type. Only a signed type takes a minus sign; every type takes a plus sign.
\<close>

definition u8_from_str_radix :: "nat \<Rightarrow> string \<Rightarrow> nat option" where
  "u8_from_str_radix radix s =
     (let digits = (case s of c # cs \<Rightarrow> if c = CHR ''+'' \<and> cs \<noteq> [] then cs else s | [] \<Rightarrow> [])
      in if digits = [] then None
         else (case digits_value radix digits 0 of
                 Some n \<Rightarrow> if n < 256 then Some n else None | None \<Rightarrow> None))"

definition i128_from_str_radix :: "nat \<Rightarrow> string \<Rightarrow> int option" where
  "i128_from_str_radix radix s =
     (let (negative, digits) = (case s of
            c # cs \<Rightarrow> if c = CHR ''+'' \<and> cs \<noteq> [] then (False, cs)
                      else if c = CHR ''-'' \<and> cs \<noteq> [] then (True, cs) else (False, s)
          | [] \<Rightarrow> (False, []))
      in if digits = [] then None
         else (case digits_value radix digits 0 of
                 None \<Rightarrow> None
               | Some n \<Rightarrow> checked (if negative then - int n else int n)))"

subsection \<open>Number literals\<close>

definition suffixes :: "(string \<times> (int \<times> ty)) list" where
  "suffixes = [('''', (1, TNumber)), (''B'', (1, TSize)), (''kB'', (1000, TSize)), (''KB'', (1000, TSize)),
     (''MB'', (1000000, TSize)), (''GB'', (1000000000, TSize)), (''TB'', (1000000000000, TSize)),
     (''KiB'', (2 ^ 10, TSize)), (''MiB'', (2 ^ 20, TSize)), (''GiB'', (2 ^ 30, TSize)),
     (''TiB'', (2 ^ 40, TSize)), (''ns'', (1, TDuration)), (''us'', (1000, TDuration)),
     (''ms'', (1000000, TDuration)), (''s'', (1000000000, TDuration)), (''m'', (60000000000, TDuration)),
     (''h'', (3600000000000, TDuration)), (''d'', (86400000000000, TDuration)),
     (''w'', (604800000000000, TDuration))]"

definition split_dot :: "string \<Rightarrow> string \<times> string" where
  "split_dot s = (takeWhile (\<lambda>c. c \<noteq> CHR ''.'') s, drop 1 (dropWhile (\<lambda>c. c \<noteq> CHR ''.'') s))"

definition scaled :: "int \<Rightarrow> int \<Rightarrow> string \<Rightarrow> int \<Rightarrow> int option" where
  "scaled whole scale fraction multiplier = do {
     n \<leftarrow> checked (whole * scale);
     n \<leftarrow> checked (n + (if fraction = [] then 0
       else (case i128_from_str_radix 10 fraction of None \<Rightarrow> -1 | Some f \<Rightarrow> f)));
     checked (n * multiplier) }"

definition decimal_number :: "string \<Rightarrow> expr_error + expr_value" where
  "decimal_number s =
     (let digits = takeWhile (\<lambda>c. is_digit c \<or> c = CHR ''.'') s;
          suffix = dropWhile (\<lambda>c. is_digit c \<or> c = CHR ''.'') s
      in case map_of suffixes suffix of
           None \<Rightarrow> Inl (UnknownSuffix suffix)
         | Some (multiplier, t) \<Rightarrow>
           (let (whole, fraction) = split_dot digits
            in and_then (expr_require (length fraction \<le> 18 \<and> CHR ''.'' \<notin> set fraction)
                 ''invalid decimal quantity'') (\<lambda>_.
               (let scale = 10 ^ length fraction in
                case i128_from_str_radix 10 whole of
                  None \<Rightarrow> Inl (Message ''invalid integer'')
                | Some w \<Rightarrow>
                  (case scaled w scale fraction multiplier of
                     None \<Rightarrow> Inl (Message ''quantity overflow'')
                   | Some n \<Rightarrow>
                     and_then (expr_require (n smod scale = 0)
                       ''quantity must resolve to whole bytes, nanoseconds, or integers'') (\<lambda>_.
                       Inr (Quantity (n sdiv scale) t)))))))"

definition number :: "string \<Rightarrow> expr_error + expr_value" where
  "number s =
     (if starts_with ''0o'' s then
        (case i128_from_str_radix 8 (drop 2 s) of
           Some n \<Rightarrow> Inr (Quantity n TNumber) | None \<Rightarrow> Inl (Message ''invalid octal number''))
      else if starts_with ''0x'' s then
        (case i128_from_str_radix 16 (drop 2 s) of
           Some n \<Rightarrow> Inr (Quantity n TNumber) | None \<Rightarrow> Inl (Message ''invalid hexadecimal number''))
      else decimal_number s)"

subsection \<open>Tokens\<close>

datatype token = Word string | StringTok string | NumberTok string | Symbol string | EndTok

text \<open>\<open>s.get(i..i + 2)\<close>, where \<open>i\<close> is a character boundary: the end must be one too.\<close>

definition get_two :: "string \<Rightarrow> (string \<times> string) option" where
  "get_two b = (case b of
     x # y # rest \<Rightarrow>
       (if rest \<noteq> [] \<and> continuation_byte (hd rest) then None else Some ([x, y], rest))
   | _ \<Rightarrow> None)"

definition escape :: "char \<Rightarrow> string \<Rightarrow> expr_error + char \<times> string" where
  "escape c b =
     (if c \<in> {CHR 0x5C, CHR 0x27, CHR 0x22} then Inr (c, b)
      else if c = CHR ''n'' then Inr (CHR 0x0A, b)
      else if c = CHR ''r'' then Inr (CHR 0x0D, b)
      else if c = CHR ''t'' then Inr (CHR 0x09, b)
      else if c = CHR ''x'' then
        (case get_two b of
           None \<Rightarrow> Inl (Message ''expected two hexadecimal digits'')
         | Some (hex, rest) \<Rightarrow>
           (case u8_from_str_radix 16 hex of
              None \<Rightarrow> Inl (Message ''invalid byte escape'')
            | Some n \<Rightarrow> Inr (char_of n, rest)))
      else Inl (Message ''unknown string escape''))"

lemma escape_length: "escape c b = Inr (d, b') \<Longrightarrow> length b' \<le> length b"
  by (auto simp: escape_def get_two_def split: if_splits option.splits list.splits)

function lex_string :: "char \<Rightarrow> string \<Rightarrow> string \<Rightarrow> expr_error + string \<times> string" where
  "lex_string quote [] value' = Inl (Message ''unterminated string'')"
| "lex_string quote (c # b) value' =
     (if c = quote then Inr (value', b)
      else if c \<noteq> CHR 0x5C then lex_string quote b (value' @ [c])
      else (case b of
        [] \<Rightarrow> Inl (Message ''unfinished escape'')
      | e # b' \<Rightarrow> and_then (escape e b') (\<lambda>(d, rest). lex_string quote rest (value' @ [d]))))"
  by pat_completeness auto
termination
  by (relation "measure (\<lambda>(q, b, v). length b)") (auto dest: escape_length)

definition symbols :: "string list" where
  "symbols = [''=='', ''!='', ''<='', ''>='', ''<>'', ''=~'', ''='', ''<'', ''>'', ''+'', ''-'', ''*'', ''/'',
     ''%'', ''&'', ''|'', ''^'', ''('', '')'', ''['', '']'', '','']"

definition lex_token :: "char \<Rightarrow> string \<Rightarrow> nat \<Rightarrow> expr_error + token \<times> string" where
  "lex_token c b i =
     (if c \<in> {CHR 0x27, CHR 0x22} then
        and_then (lex_string c b []) (\<lambda>(v, rest). Inr (StringTok v, rest))
      else if is_digit c then
        (let part = (\<lambda>x. is_alphanumeric x \<or> x = CHR ''.'')
         in Inr (NumberTok (c # takeWhile part b), dropWhile part b))
      else if is_alpha c \<or> c = CHR ''_'' then
        (let part = (\<lambda>x. is_alphanumeric x \<or> x = CHR ''_'' \<or> x = CHR ''.'')
         in Inr (Word (c # takeWhile part b), dropWhile part b))
      else (case find (\<lambda>symbol. starts_with symbol (c # b)) symbols of
        None \<Rightarrow> Inl (UnexpectedCharacter (i + 1))
      | Some symbol \<Rightarrow> Inr (Symbol symbol, drop (length symbol) (c # b))))"

lemma lex_string_length: "lex_string q b v = Inr (w, rest) \<Longrightarrow> length rest < length b"
proof (induction q b v rule: lex_string.induct)
  case (2 q c b v)
  consider "c = q" | "c \<noteq> q" "c \<noteq> CHR 0x5C" | "c \<noteq> q" "c = CHR 0x5C" by blast
  then show ?case
  proof cases
    case 3
    with "2.prems" obtain e b' d r where r: "b = e # b'" "escape e b' = Inr (d, r)"
        "lex_string q r (v @ [d]) = Inr (w, rest)"
      by (auto simp: and_then_Inr split: list.splits)
    with "2.IH"(2) [of e b' "(d, r)" d r] 3 escape_length [OF r(2)] show ?thesis by simp
  qed (use 2 in simp_all)
qed simp

lemma find_symbol_shortens: "find P symbols = Some s \<Longrightarrow> Suc n - length s \<le> n"
  by (auto simp: symbols_def split: if_splits)

lemma lex_token_length: "lex_token c b i = Inr (t, rest) \<Longrightarrow> length rest \<le> length b"
  by (auto simp: lex_token_def and_then_Inr Let_def length_dropWhile_le
      intro: find_symbol_shortens dest: lex_string_length split: if_splits option.splits)

function lex_from :: "string \<Rightarrow> nat \<Rightarrow> nat \<Rightarrow> expr_error + (token \<times> nat) list" where
  "lex_from [] i n = Inr [(EndTok, i)]"
| "lex_from (c # b) i n =
     (if is_whitespace c then lex_from b (i + 1) n
      else and_then (lex_token c b i) (\<lambda>(token, rest).
        and_then (expr_require (n + 1 \<le> 512) ''expression exceeds 512 tokens'') (\<lambda>_.
        and_then (lex_from rest (i + (length (c # b) - length rest)) (n + 1)) (\<lambda>tokens.
          Inr ((token, i) # tokens)))))"
  by pat_completeness auto
termination
  by (relation "measure (\<lambda>(b, i, n). length b)") (auto dest: lex_token_length)

definition lex :: "string \<Rightarrow> expr_error + (token \<times> nat) list" where
  "lex s = lex_from s 0 0"

subsection \<open>What the lexer returns\<close>

text \<open>The tokens end in \<open>EndTok\<close>, which is nowhere else, and there are at most 512 others.\<close>

definition token_list :: "(token \<times> nat) list \<Rightarrow> bool" where
  "token_list ts \<longleftrightarrow> ts \<noteq> [] \<and> fst (last ts) = EndTok \<and> EndTok \<notin> fst ` set (butlast ts)"

lemma token_list_Cons: "t \<noteq> EndTok \<Longrightarrow> token_list ts \<Longrightarrow> token_list ((t, i) # ts)"
  by (auto simp: token_list_def)

lemma lex_token_not_end: "lex_token c b i = Inr (t, rest) \<Longrightarrow> t \<noteq> EndTok"
  by (auto simp: lex_token_def and_then_Inr Let_def split: if_splits option.splits)

lemma lex_from_tokens: "lex_from b i n = Inr ts \<Longrightarrow> token_list ts \<and> length ts + n \<le> max 513 (n + 1)"
proof (induction b i n arbitrary: ts rule: lex_from.induct)
  case (1 i n)
  then show ?case by (auto simp: token_list_def)
next
  case (2 c b i n)
  show ?case
  proof (cases "is_whitespace c")
    case False
    with 2(3) obtain t rest ts' where r: "lex_token c b i = Inr (t, rest)" "n + 1 \<le> 512"
        "lex_from rest (i + (length (c # b) - length rest)) (n + 1) = Inr ts'" "ts = (t, i) # ts'"
      by (auto simp: and_then_Inr expr_require_def split: if_splits)
    from 2(2) [OF False r(1) refl _ r(3)] r(2) have "token_list ts' \<and> length ts' + (n + 1) \<le> max 513 (n + 2)"
      by (simp add: expr_require_def)
    with r(2,4) token_list_Cons [OF lex_token_not_end [OF r(1)]] show ?thesis by auto
  qed (use 2 in simp)
qed

end
