(* ===== verification/Expr_Typing.thy ===== *)
theory Expr_Typing
  imports Expression
begin

section \<open>Type soundness of expressions\<close>

text \<open>
  What compilation's type check promises of evaluation. A checked node evaluates to null or to a
  value of its type, and no type error is left for evaluation to report; every integer stays in
  the range of \<open>i128\<close>.
\<close>

subsection \<open>Well-formed nodes\<close>

definition quantity_ty :: "ty \<Rightarrow> bool" where
  "quantity_ty t \<longleftrightarrow> t \<in> {TNumber, TSize, TDuration, TTimestamp}"

definition wf_value :: "expr_value \<Rightarrow> bool" where
  "wf_value v = (case v of Quantity n t \<Rightarrow> quantity_ty t \<and> i128_fits n | _ \<Rightarrow> True)"

fun wf_node :: "'r node \<Rightarrow> bool" where
  "wf_node (Literal v) \<longleftrightarrow> wf_value v"
| "wf_node (Not n) \<longleftrightarrow> wf_node n"
| "wf_node (Negative n) \<longleftrightarrow> wf_node n"
| "wf_node (Binary _ a b) \<longleftrightarrow> wf_node a \<and> wf_node b"
| "wf_node (In a items) \<longleftrightarrow> wf_node a \<and> list_all wf_node items"
| "wf_node (Between a b c) \<longleftrightarrow> wf_node a \<and> wf_node b \<and> wf_node c"
| "wf_node (Pattern n _) \<longleftrightarrow> wf_node n"
| "wf_node (If a b c) \<longleftrightarrow> wf_node a \<and> wf_node b \<and> wf_node c"
| "wf_node (Coalesce a b) \<longleftrightarrow> wf_node a \<and> wf_node b"
| "wf_node _ \<longleftrightarrow> True"

text \<open>No membership test has an empty list: then the type check visits every node.\<close>

fun lists_filled :: "'r node \<Rightarrow> bool" where
  "lists_filled (Not n) \<longleftrightarrow> lists_filled n"
| "lists_filled (Negative n) \<longleftrightarrow> lists_filled n"
| "lists_filled (Binary _ a b) \<longleftrightarrow> lists_filled a \<and> lists_filled b"
| "lists_filled (In a items) \<longleftrightarrow> lists_filled a \<and> items \<noteq> [] \<and> list_all lists_filled items"
| "lists_filled (Between a b c) \<longleftrightarrow> lists_filled a \<and> lists_filled b \<and> lists_filled c"
| "lists_filled (Pattern n _) \<longleftrightarrow> lists_filled n"
| "lists_filled (If a b c) \<longleftrightarrow> lists_filled a \<and> lists_filled b \<and> lists_filled c"
| "lists_filled (Coalesce a b) \<longleftrightarrow> lists_filled a \<and> lists_filled b"
| "lists_filled _ \<longleftrightarrow> True"

text \<open>Integers as the metadata has them: \<open>i64\<close> seconds, \<open>u32\<close> nanoseconds, \<open>u64\<close> sizes.\<close>

definition time_fits :: "(int \<times> nat) option \<Rightarrow> bool" where
  "time_fits t = (case t of None \<Rightarrow> True | Some (s, n) \<Rightarrow> - (2 ^ 63) \<le> s \<and> s < 2 ^ 63 \<and> n < 2 ^ 32)"

definition count_fits :: "nat option \<Rightarrow> bool" where
  "count_fits n = (case n of None \<Rightarrow> True | Some n \<Rightarrow> n < 2 ^ 64)"

definition file_fits :: "expr_file \<Rightarrow> bool" where
  "file_fits f \<longleftrightarrow> count_fits (f_size f) \<and> time_fits (f_mtime f) \<and> time_fits (f_ctime f) \<and>
     time_fits (f_s3_last_modified f) \<and> count_fits (f_mode f) \<and> count_fits (f_uid f) \<and>
     count_fits (f_gid f) \<and> count_fits (f_device f) \<and> count_fits (f_inode f) \<and> count_fits (f_nlink f)"

definition facts_fit :: "expr_facts \<Rightarrow> bool" where
  "facts_fit facts = (case facts of
     Complete f \<Rightarrow> file_fits f
   | S3Listing n _ t \<Rightarrow> count_fits (Some n) \<and> time_fits t
   | Unread \<Rightarrow> True)"

definition context_fits :: "context_values \<Rightarrow> bool" where
  "context_fits c \<longleftrightarrow> facts_fit (c_src c) \<and> facts_fit (c_dst c) \<and> i128_fits (c_now c)"

subsection \<open>Values\<close>

definition has_ty :: "expr_value \<Rightarrow> ty \<Rightarrow> bool" where
  "has_ty v t \<longleftrightarrow> v = VNull \<or> (wf_value v \<and> value_ty v = t)"

lemma has_ty_Null [simp]: "has_ty VNull t"
  by (simp add: has_ty_def)

lemma has_ty_TNull: "has_ty v TNull \<Longrightarrow> v = VNull"
  by (cases v) (auto simp: has_ty_def value_ty_def wf_value_def quantity_ty_def)

lemma has_ty_VBool [simp]: "has_ty (VBool b) TBool"
  by (simp add: has_ty_def wf_value_def value_ty_def)

lemma common_type_has_ty:
  assumes "common_type a b = Inr t"
  shows "has_ty v a \<Longrightarrow> has_ty v t" "has_ty v b \<Longrightarrow> has_ty v t"
  using assms has_ty_TNull by (fastforce simp: common_type_def split: if_splits)+

lemma quantity_fits: "quantity_ty t \<Longrightarrow> count_fits n \<Longrightarrow> has_ty (quantity (map_option int n) t) t"
  by (auto simp: quantity_def has_ty_def wf_value_def value_ty_def count_fits_def i128_fits_def
      split: option.splits)

lemma nanos_fits: "time_fits (Some t) \<Longrightarrow> i128_fits (nanos t)"
  by (cases t) (auto simp: time_fits_def nanos_def i128_fits_def)

lemma quantity_time_fits:
  "time_fits t \<Longrightarrow> has_ty (quantity (map_option nanos t) TTimestamp) TTimestamp"
  by (auto simp: quantity_def has_ty_def wf_value_def value_ty_def quantity_ty_def nanos_fits
      split: option.splits)

lemma has_ty_VString [simp]: "has_ty (VString s) TString"
  by (simp add: has_ty_def wf_value_def value_ty_def)

lemma file_field_has_ty: "file_fits f \<Longrightarrow> has_ty (file_field f p field) (field_ty field)"
  by (cases field)
    (auto simp: file_field_def file_fits_def quantity_ty_def intro: quantity_fits quantity_time_fits
      split: option.splits)

lemma facts_field_has_ty:
  assumes "facts_fit facts" "facts_field facts p field = Inr v"
  shows "has_ty v (field_ty field)"
proof -
  have d: "file_fits file_default"
    by (simp add: file_fits_def file_default_def count_fits_def time_fits_def)
  show ?thesis
  proof (cases facts)
    case (S3Listing n mk t)
    then show ?thesis
      using assms file_field_has_ty [OF d, of p] quantity_fits [of TSize "Some n"] quantity_time_fits [of t]
      by (cases field) (auto simp: facts_field_def facts_fit_def file_field_def quantity_def quantity_ty_def split: option.splits)
  qed (use assms file_field_has_ty [OF d, of p] file_field_has_ty in
      \<open>auto simp: facts_field_def facts_fit_def split: if_splits\<close>)
qed

lemma facts_field_error: "facts_field facts p field = Inl e \<Longrightarrow> e = NeedMetadata"
  by (cases field; cases facts) (auto simp: facts_field_def split: if_splits)

subsection \<open>Arithmetic\<close>

lemma i128_fits_iff: "i128_fits n \<longleftrightarrow> signed_take_bit 127 n = n"
  by (simp add: i128_fits_def signed_take_bit_int_eq_self_iff)

lemma signed_take_bit_bitwise:
  "signed_take_bit n (a AND b) = signed_take_bit n a AND signed_take_bit n b"
  "signed_take_bit n (a OR b) = signed_take_bit n a OR signed_take_bit n b"
  "signed_take_bit n (a XOR b) = signed_take_bit n a XOR signed_take_bit n b" for a b :: int
  by (rule bit_eqI, auto simp: bit_simps)+

lemma smod_fits:
  assumes "i128_fits a" "i128_fits b" "b \<noteq> 0"
  shows "i128_fits (a smod b)"
proof -
  have "\<bar>a smod b\<bar> < \<bar>b\<bar>"
    using assms(3) by (simp add: signed_modulo_int_def abs_mult abs_mod_less abs_sgn_eq)
  with assms(2) show ?thesis unfolding i128_fits_def by linarith
qed

lemma arith_fits:
  assumes "i128_fits a" "i128_fits b" "arith op a b = Some n"
  shows "i128_fits n"
proof (cases op)
  case OpRem
  with assms show ?thesis by (auto simp: arith_def smod_fits split: if_splits)
next
  case OpBitAnd
  with assms show ?thesis by (auto simp: arith_def i128_fits_iff signed_take_bit_bitwise)
next
  case OpBitOr
  with assms show ?thesis by (auto simp: arith_def i128_fits_iff signed_take_bit_bitwise)
next
  case OpBitXor
  with assms show ?thesis by (auto simp: arith_def i128_fits_iff signed_take_bit_bitwise)
qed (use assms in \<open>auto simp: arith_def checked_def split: if_splits\<close>)

subsection \<open>Soundness\<close>

text \<open>The errors evaluation may still report: a missing value where one is needed, and arithmetic.\<close>

definition runtime_error :: "expr_error \<Rightarrow> bool" where
  "runtime_error e \<longleftrightarrow> e \<in> {NeedMetadata, ExpectedBoolean, CannotNegate, CannotMatch, FieldUnavailable,
     ArithmeticOverflow, OverflowOrDivisionByZero}"

definition sound :: "expr_error + expr_value \<Rightarrow> ty \<Rightarrow> bool" where
  "sound r t = (case r of Inr v \<Rightarrow> has_ty v t | Inl e \<Rightarrow> runtime_error e)"

lemma sound_simps [simp]: "sound (Inr v) t = has_ty v t" "sound (Inl e) t = runtime_error e"
  by (simp_all add: sound_def)

lemma runtime_errors [simp]:
  "runtime_error NeedMetadata" "runtime_error ExpectedBoolean" "runtime_error CannotNegate"
  "runtime_error CannotMatch" "runtime_error FieldUnavailable" "runtime_error ArithmeticOverflow"
  "runtime_error OverflowOrDivisionByZero"
  by (simp_all add: runtime_error_def)

lemma sound_and_then:
  "sound r s \<Longrightarrow> (\<And>v. has_ty v s \<Longrightarrow> sound (f v) t) \<Longrightarrow> sound (and_then r f) t"
  by (cases r) auto

lemma sound_boolean: "(\<And>b. sound (f b) t) \<Longrightarrow> sound (and_then (boolean v) f) t"
  by (cases v) (simp_all add: boolean_def)

text \<open>Which operands each kind of operator is checked for.\<close>

abbreviation "comparison \<equiv> {OpLt, OpLe, OpGt, OpGe}"
abbreviation "arithmetic \<equiv> {OpAdd, OpSub, OpMul, OpDiv, OpRem, OpBitAnd, OpBitOr, OpBitXor}"

lemma binary_type_comparison:
  assumes "op \<in> comparison" "binary_type op a b = Inr t"
  shows "a = b" "quantity_ty a \<or> a = TString" "t = TBool"
  using assms by (auto simp: binary_type_def expr_require_def quantity_ty_def split: if_splits)

lemma binary_type_arithmetic:
  assumes "op \<in> arithmetic" "binary_type op a b = Inr t"
  shows "quantity_ty a" "quantity_ty b" "quantity_ty t"
  using assms by (auto simp: binary_type_def quantity_ty_def countable_ty_def split: if_splits)

lemma quantity_tyE:
  assumes "value_ty v = t" "quantity_ty t"
  obtains n where "v = Quantity n t"
  using assms by (cases v) (auto simp: value_ty_def quantity_ty_def)

lemma string_tyE:
  assumes "wf_value v" "value_ty v = TString"
  obtains s where "v = VString s"
  using assms by (cases v) (auto simp: value_ty_def wf_value_def quantity_ty_def)

lemma ordered_comparison: "op \<in> comparison \<Longrightarrow> \<exists>b. ordered op x y = Some b"
  by (auto simp: ordered_def)

lemma ordered_arithmetic: "op \<in> arithmetic \<Longrightarrow> ordered op x y = None"
  by (auto simp: ordered_def)

lemma binary_sound:
  assumes "has_ty v a" "has_ty w b" "binary_type op a b = Inr t" "op \<notin> {OpAnd, OpOr}"
  shows "sound (binary op v w) t"
proof (cases "op \<in> {OpEq, OpNe} \<or> v = VNull \<or> w = VNull")
  case True
  show ?thesis
  proof (cases "op \<in> {OpEq, OpNe}")
    case eq: True
    then have "t = TBool" using assms(3) by (elim insertE emptyE) (simp_all add: binary_type_def and_then_Inr)
    then show ?thesis using eq by (simp add: binary_def)
  next
    case False
    then have "binary op v w = Inl FieldUnavailable" using True by (simp add: binary_def)
    then show ?thesis by simp
  qed
next
  case False
  then have vw: "wf_value v" "value_ty v = a" "wf_value w" "value_ty w = b" and ne: "v \<noteq> VNull" "w \<noteq> VNull"
    using assms(1,2) by (auto simp: has_ty_def)
  have bin: "binary op v w = (case compare_values op v w of
           Some x \<Rightarrow> Inr (VBool x)
         | None \<Rightarrow> (case (v, w) of
              (Quantity x _, Quantity y _) \<Rightarrow> (case arith op x y of
                   Some n \<Rightarrow> Inr (Quantity n t)
                 | None \<Rightarrow> Inl OverflowOrDivisionByZero)
            | _ \<Rightarrow> Inl ArithmeticRequiresQuantities))"
    using False ne assms(3) vw(2,4) by (simp add: binary_def)
  consider "op \<in> comparison" | "op \<in> arithmetic" using False assms(4) by (cases op) auto
  then show ?thesis
  proof cases
    case 1
    note T = binary_type_comparison [OF 1 assms(3)]
    from T(2) have "\<exists>x. compare_values op v w = Some x"
    proof
      assume q: "quantity_ty a"
      obtain x y where "v = Quantity x a" "w = Quantity y b"
        using quantity_tyE [OF vw(2) q] quantity_tyE [OF vw(4)] q T(1) by metis
      then show ?thesis using ordered_comparison [OF 1] by (simp add: compare_values_def)
    next
      assume "a = TString"
      then obtain x y where "v = VString x" "w = VString y"
        using string_tyE vw T(1) by metis
      then show ?thesis using ordered_comparison [OF 1] by (simp add: compare_values_def)
    qed
    with T(3) show ?thesis by (auto simp: bin)
  next
    case 2
    note T = binary_type_arithmetic [OF 2 assms(3)]
    obtain x y where xy: "v = Quantity x a" "w = Quantity y b"
      using quantity_tyE [OF vw(2) T(1)] quantity_tyE [OF vw(4) T(2)] by metis
    moreover have "i128_fits n" if "arith op x y = Some n" for n
      using arith_fits [OF _ _ that] vw(1,3) xy by (simp add: wf_value_def)
    ultimately show ?thesis unfolding bin using T(3)
      by (auto simp: compare_values_def ordered_arithmetic [OF 2] has_ty_def wf_value_def value_ty_def
          split: option.splits)
  qed
qed

lemma eval_Binary:
  "op \<notin> {OpAnd, OpOr} \<Longrightarrow>
    eval m c (Binary op a b) = and_then (eval m c a) (\<lambda>v. and_then (eval m c b) (\<lambda>w. binary op v w))"
  by (cases op) simp_all

lemma items_tyD:
  assumes "items_ty a items = Inr ()" "b \<in> set items"
  obtains ta tb where "node_ty a = Inr ta" "node_ty b = Inr tb"
  using assms by (induction items) (auto simp: and_then_Inr)

lemma eval_items_sound:
  assumes "\<And>b. b \<in> set items \<Longrightarrow> \<exists>t. sound (eval m c b) t"
  shows "sound (and_then (eval_items m c v items) (\<lambda>x. Inr (VBool x))) TBool"
  using assms
proof (induction items)
  case (Cons b bs)
  then obtain t where "sound (eval m c b) t" by auto
  with Cons show ?case by (cases "eval m c b") (auto simp: binary_def boolean_def)
qed simp

lemma facts_field_sound: "facts_fit facts \<Longrightarrow> sound (facts_field facts p field) (field_ty field)"
  by (cases "facts_field facts p field") (auto dest: facts_field_has_ty facts_field_error)

lemma eval_sound:
  assumes "context_fits c"
  shows "wf_node n \<Longrightarrow> lists_filled n \<Longrightarrow> node_ty n = Inr t \<Longrightarrow> sound (eval m c n) t"
proof (induction n arbitrary: t)
  case (Literal v)
  then show ?case by (simp add: has_ty_def) 
next
  case (Field d f)
  then show ?case using assms facts_field_sound by (auto simp: context_fits_def)
next
  case Now
  then show ?case using assms
    by (auto simp: has_ty_def wf_value_def value_ty_def quantity_ty_def context_fits_def)
next
  case (Not n)
  then have "node_ty n = Inr TBool" "t = TBool" by (auto simp: and_then_Inr expr_require_def split: if_splits)
  with Not show ?case by (auto intro!: sound_and_then sound_boolean)
next
  case (Negative n)
  then have n: "node_ty n = Inr t" and t: "countable_ty t"
    by (auto simp: and_then_Inr expr_require_def split: if_splits)
  show ?case unfolding eval.simps
  proof (rule sound_and_then [OF Negative.IH [OF _ _ n]])
    fix v assume "has_ty v t"
    with t show "sound (case v of Quantity x t \<Rightarrow> (case checked (- x) of
        Some y \<Rightarrow> Inr (Quantity y t) | None \<Rightarrow> Inl ArithmeticOverflow) | _ \<Rightarrow> Inl CannotNegate) t"
      by (cases v) (auto simp: has_ty_def wf_value_def value_ty_def quantity_ty_def countable_ty_def
          checked_def split: option.splits if_splits)
  qed (use Negative.prems in auto)
next
  case (Binary op a b)
  then obtain ta tb where T: "node_ty a = Inr ta" "node_ty b = Inr tb" "binary_type op ta tb = Inr t"
    by (auto simp: and_then_Inr)
  with Binary have ab: "sound (eval m c a) ta" "sound (eval m c b) tb" by simp_all
  show ?case
  proof (cases "op \<in> {OpAnd, OpOr}")
    case True
    then have "t = TBool" using T(3) by (auto simp: binary_type_def and_then_Inr)
    with True ab show ?thesis by (auto intro!: sound_and_then [OF ab(1)] sound_and_then [OF ab(2)] sound_boolean)
  next
    case False
    then show ?thesis
      by (auto simp: eval_Binary intro!: sound_and_then [OF ab(1)] sound_and_then [OF ab(2)] binary_sound [OF _ _ T(3)])
  qed
next
  case (In a items)
  then have ty: "items_ty a items = Inr ()" "t = TBool" by (auto simp: and_then_Inr)
  have "\<exists>t. sound (eval m c b) t" if b: "b \<in> set items" for b
  proof -
    obtain tb where "node_ty b = Inr tb" using items_tyD [OF ty(1) b] by blast
    with In.IH(2) [OF b] In.prems(1,2) b show ?thesis by (auto simp: list_all_iff)
  qed
  note items = eval_items_sound [OF this]
  obtain b where "b \<in> set items" using In.prems(2) by (cases items) auto
  then obtain ta where "node_ty a = Inr ta" using items_tyD [OF ty(1)] by blast
  then have "sound (eval m c a) ta" using In.IH(1) In.prems by simp
  with items ty(2) show ?case by (auto intro: sound_and_then)
next
  case (Between a b d)
  then obtain ta tb td where T: "node_ty a = Inr ta" "node_ty b = Inr tb" "node_ty d = Inr td"
      "binary_type OpGe ta tb = Inr TBool" "binary_type OpLe ta td = Inr TBool" "t = TBool"
    by (auto simp: and_then_Inr binary_type_def)
  with Between have abd: "sound (eval m c a) ta" "sound (eval m c b) tb" "sound (eval m c d) td" by simp_all
  show ?case unfolding eval.simps T(6)
    by (auto intro!: sound_and_then [OF abd(1)] sound_and_then [OF abd(2)] sound_and_then [OF abd(3)]
        sound_and_then [OF binary_sound [OF _ _ T(4)]] sound_and_then [OF binary_sound [OF _ _ T(5)]]
        sound_boolean)
next
  case (Pattern n p)
  then have n: "node_ty n = Inr TString" "t = TBool" by (auto simp: and_then_Inr expr_require_def split: if_splits)
  with Pattern have "sound (eval m c n) TString" by simp
  then show ?case unfolding eval.simps n(2)
    by (rule sound_and_then) (simp split: expr_value.split)
next
  case (If x a b)
  then obtain ta tb where T: "node_ty x = Inr TBool" "node_ty a = Inr ta" "node_ty b = Inr tb"
      "common_type ta tb = Inr t"
    by (auto simp: and_then_Inr expr_require_def split: if_splits)
  with If have s: "sound (eval m c x) TBool" "sound (eval m c a) ta" "sound (eval m c b) tb" by simp_all
  then have "sound (eval m c a) t" "sound (eval m c b) t"
    using common_type_has_ty [OF T(4)] by (auto simp: sound_def split: sum.splits)
  then show ?case unfolding eval.simps by (auto intro!: sound_and_then [OF s(1)] sound_boolean)
next
  case (Coalesce a b)
  then obtain ta tb where T: "node_ty a = Inr ta" "node_ty b = Inr tb" "common_type ta tb = Inr t"
    by (auto simp: and_then_Inr)
  with Coalesce have s: "sound (eval m c a) ta" "sound (eval m c b) tb" by simp_all
  then have "sound (eval m c a) t" "sound (eval m c b) t"
    using common_type_has_ty [OF T(3)] by (auto simp: sound_def split: sum.splits)
  then show ?case unfolding eval.simps by (auto intro!: sound_and_then)
qed

end
