(* ===== verification/Expr_Policy.thy ===== *)
theory Expr_Policy
  imports Expr_Typing
begin

section \<open>Policies over complete and partial metadata\<close>

text \<open>
  The evaluation interface of \<open>src/src/expression/mod.rs\<close> (\<open>Expression\<close>, \<open>Policy\<close>,
  \<open>source_path\<close>) and the S3 objects of \<open>src/src/s3/client.rs\<close> that policies are evaluated on
  before and after their metadata is read.
\<close>

subsection \<open>Evaluation\<close>

definition evaluate ::
  "('r \<Rightarrow> string \<Rightarrow> bool) \<Rightarrow> 'r node \<Rightarrow> expr_file \<Rightarrow> string \<Rightarrow> expr_file \<Rightarrow> string \<Rightarrow> int \<Rightarrow> expr_error + bool"
where
  "evaluate m root src src_path dst dst_path now =
     and_then (eval m \<lparr>c_src = Complete src, c_dst = Complete dst, c_src_path = src_path,
       c_dst_path = dst_path, c_now = now\<rparr> root) boolean"

definition evaluate_known ::
  "('r \<Rightarrow> string \<Rightarrow> bool) \<Rightarrow> 'r node \<Rightarrow> expr_facts \<Rightarrow> string \<Rightarrow> expr_facts \<Rightarrow> string \<Rightarrow> int \<Rightarrow>
    expr_error + bool option"
where
  "evaluate_known m root src src_path dst dst_path now =
     (case eval m \<lparr>c_src = src, c_dst = dst, c_src_path = src_path, c_dst_path = dst_path,
         c_now = now\<rparr> root of
        Inr value' \<Rightarrow> and_then (boolean value') (\<lambda>b. Inr (Some b))
      | Inl error \<Rightarrow> if error = NeedMetadata then Inr None else Inl error)"

record 'r policy =
  selection :: "'r node option"
  update :: "'r node option"
  policy_now :: int

definition policy_uses_source_s3_time :: "'r policy \<Rightarrow> bool" where
  "policy_uses_source_s3_time p \<longleftrightarrow>
     list_ex (\<lambda>e. case e of None \<Rightarrow> False | Some r \<Rightarrow> uses_source_s3_time r) [selection p, update p]"

definition policy_active :: "'r policy \<Rightarrow> bool" where
  "policy_active p \<longleftrightarrow> selection p \<noteq> None \<or> update p \<noteq> None"

definition selects :: "('r \<Rightarrow> string \<Rightarrow> bool) \<Rightarrow> 'r policy \<Rightarrow> expr_file \<Rightarrow> string \<Rightarrow> expr_error + bool" where
  "selects m p src pth =
     (if f_kind src = Some Dir then Inr True
      else with_context ''--where'' (case selection p of
        None \<Rightarrow> Inr True
      | Some e \<Rightarrow> evaluate m e src pth file_default [] (policy_now p)))"

definition selects_known :: "('r \<Rightarrow> string \<Rightarrow> bool) \<Rightarrow> 'r policy \<Rightarrow> expr_facts \<Rightarrow> string \<Rightarrow> expr_error + bool option" where
  "selects_known m p src pth =
     (case src of
        Complete f \<Rightarrow> and_then (selects m p f pth) (\<lambda>b. Inr (Some b))
      | _ \<Rightarrow>
        (case selection p of
           None \<Rightarrow> Inr (Some True)
         | Some expression \<Rightarrow>
           (if (case src of S3Listing _ directory_marker _ \<Rightarrow> directory_marker | _ \<Rightarrow> False)
            then Inr (Some True)
            else with_context ''--where''
              (evaluate_known m expression src pth Unread [] (policy_now p)))))"

definition permits_known ::
  "('r \<Rightarrow> string \<Rightarrow> bool) \<Rightarrow> 'r policy \<Rightarrow> expr_facts \<Rightarrow> string \<Rightarrow> expr_facts \<Rightarrow> string \<Rightarrow> expr_error + bool option"
where
  "permits_known m p src src_path dst dst_path = with_context ''--copy-if'' (case update p of
     None \<Rightarrow> Inr (Some True)
   | Some e \<Rightarrow> evaluate_known m e src src_path dst dst_path (policy_now p))"

definition permits ::
  "('r \<Rightarrow> string \<Rightarrow> bool) \<Rightarrow> 'r policy \<Rightarrow> expr_file \<Rightarrow> string \<Rightarrow> expr_file \<Rightarrow> string \<Rightarrow> expr_error + bool"
where
  "permits m p src src_path dst dst_path = with_context ''--copy-if'' (case update p of
     None \<Rightarrow> Inr True
   | Some e \<Rightarrow> evaluate m e src src_path dst dst_path (policy_now p))"

definition source_path :: "string \<Rightarrow> string \<Rightarrow> string" where
  "source_path root relative =
     (if relative = [] then
        (case find (\<lambda>p. p \<noteq> []) (rev (split_on (CHR ''/'') root)) of None \<Rightarrow> [] | Some p \<Rightarrow> p)
      else relative)"

subsection \<open>S3 objects\<close>

datatype object_kind = ObjFile | ObjDir | ObjSymlink

record object_metadata =
  om_kind :: object_kind
  om_mode :: nat
  om_uid :: nat
  om_gid :: nat
  om_mtime :: int
  om_nsec :: nat

record s3_object =
  obj_key :: string
  obj_size :: nat
  obj_metadata :: "object_metadata option"
  obj_mtime :: int

definition is_directory_marker :: "string \<Rightarrow> nat \<Rightarrow> bool" where
  "is_directory_marker key size' \<longleftrightarrow> size' = 0 \<and> key \<noteq> [] \<and> last key = CHR ''/''"

definition check_marker_kind :: "string \<Rightarrow> nat \<Rightarrow> object_metadata option \<Rightarrow> expr_error + unit" where
  "check_marker_kind key size' metadata =
     (case (map_option om_kind metadata, is_directory_marker key size') of
        (Some ObjDir, False) \<Rightarrow> Inl (Message ''invalid syq directory marker'')
      | (Some ObjFile, True) \<Rightarrow> Inl (Message ''invalid syq object under directory-marker key'')
      | (Some ObjSymlink, True) \<Rightarrow> Inl (Message ''invalid syq object under directory-marker key'')
      | _ \<Rightarrow> Inr ())"

definition object_kind_of :: "s3_object \<Rightarrow> object_kind" where
  "object_kind_of obj = (case obj_metadata obj of
     None \<Rightarrow> if is_directory_marker (obj_key obj) (obj_size obj) then ObjDir else ObjFile
   | Some m \<Rightarrow> om_kind m)"

definition expression_file :: "s3_object \<Rightarrow> expr_file" where
  "expression_file obj = file_default\<lparr>f_exists := True,
     f_kind := Some (case object_kind_of obj of ObjFile \<Rightarrow> File | ObjDir \<Rightarrow> Dir | ObjSymlink \<Rightarrow> Symlink),
     f_size := Some (obj_size obj),
     f_mtime := map_option (\<lambda>m. (om_mtime m, om_nsec m)) (obj_metadata obj),
     f_s3_last_modified := Some (obj_mtime obj, 0),
     f_mode := map_option (\<lambda>m. om_mode m AND 4095) (obj_metadata obj),
     f_uid := map_option om_uid (obj_metadata obj),
     f_gid := map_option om_gid (obj_metadata obj)\<rparr>"

text \<open>What a listing says of an object, as the callers build it from a page of the listing.\<close>

definition listing_facts :: "s3_object \<Rightarrow> expr_facts" where
  "listing_facts obj = S3Listing (obj_size obj) (is_directory_marker (obj_key obj) (obj_size obj))
     (Some (obj_mtime obj, 0))"

subsection \<open>Partial knowledge\<close>

text \<open>\<open>file_of facts f\<close>: reading all metadata of the entry behind the facts gives \<open>f\<close>.\<close>

definition file_of :: "expr_facts \<Rightarrow> expr_file \<Rightarrow> bool" where
  "file_of facts f = (case facts of
     Complete g \<Rightarrow> f = g
   | S3Listing n _ t \<Rightarrow> f_exists f \<and> f_size f = Some n \<and> f_s3_last_modified f = t \<and> f_ctime f = None \<and>
       f_device f = None \<and> f_inode f = None \<and> f_nlink f = None \<and> f_link_target f = None
   | Unread \<Rightarrow> True)"

definition completes :: "context_values \<Rightarrow> expr_file \<Rightarrow> expr_file \<Rightarrow> bool" where
  "completes c src dst \<longleftrightarrow> file_of (c_src c) src \<and> file_of (c_dst c) dst"

abbreviation complete :: "context_values \<Rightarrow> expr_file \<Rightarrow> expr_file \<Rightarrow> context_values" where
  "complete c src dst \<equiv> c\<lparr>c_src := Complete src, c_dst := Complete dst\<rparr>"

definition refines :: "expr_error + 'a \<Rightarrow> expr_error + 'a \<Rightarrow> bool" where
  "refines r r' \<longleftrightarrow> r = Inl NeedMetadata \<or> r = r'"

lemma refines_refl [simp]: "refines r r"
  by (simp add: refines_def)

lemma refines_and_then:
  assumes "refines r r'" "\<And>v. refines (f v) (g v)"
  shows "refines (and_then r f) (and_then r' g)"
proof (cases r)
  case (Inr v)
  with assms(1) have "r' = Inr v" by (simp add: refines_def)
  with Inr assms(2) show ?thesis by simp
qed (use assms(1) in \<open>auto simp: refines_def\<close>)

lemma facts_field_refines:
  assumes "file_of facts f"
  shows "refines (facts_field facts p field) (facts_field (Complete f) p field)"
proof (cases facts)
  case (S3Listing n mk t)
  with assms show ?thesis
    by (cases field) (auto simp: refines_def file_of_def facts_field_def file_field_def quantity_def
        split: option.split)
next
  case Unread
  then show ?thesis
    by (cases field) (simp_all add: refines_def facts_field_def file_field_def)
qed (use assms in \<open>simp add: file_of_def\<close>)

lemma eval_items_refines:
  "(\<And>b. b \<in> set items \<Longrightarrow> refines (eval m c b) (eval m c' b)) \<Longrightarrow>
    refines (eval_items m c v items) (eval_items m c' v items)"
  by (induction items) (auto intro!: refines_and_then)

lemma eval_refines:
  assumes "completes c src dst"
  shows "refines (eval m c n) (eval m (complete c src dst) n)"
proof (induction n)
  case (Field d f)
  then show ?case using assms facts_field_refines by (auto simp: completes_def)
next
  case (Binary op a b)
  then show ?case by (cases "op \<in> {OpAnd, OpOr}") (auto simp: eval_Binary intro!: refines_and_then)
next
  case (In a items)
  then show ?case by (auto intro!: refines_and_then eval_items_refines)
qed (auto intro!: refines_and_then)

lemma evaluate_known_refines:
  assumes "file_of src f" "file_of dst g"
  shows "evaluate_known m e src sp dst dp now = Inr None \<or>
    evaluate_known m e src sp dst dp now = and_then (evaluate m e f sp g dp now) (\<lambda>b. Inr (Some b))"
proof -
  let ?c = "\<lparr>c_src = src, c_dst = dst, c_src_path = sp, c_dst_path = dp, c_now = now\<rparr>"
  have "refines (eval m ?c e) (eval m (complete ?c f g) e)"
    by (rule eval_refines) (simp add: completes_def assms)
  then show ?thesis
    by (cases "eval m (complete ?c f g) e") (auto simp: refines_def evaluate_known_def evaluate_def split: if_splits)
qed

lemma file_of_listing: "file_of (listing_facts obj) (expression_file obj)"
  by (simp add: file_of_def listing_facts_def expression_file_def file_default_def)

lemma check_marker_kind_ok:
  assumes "check_marker_kind (obj_key obj) (obj_size obj) (obj_metadata obj) = Inr ()"
  shows "f_kind (expression_file obj) = Some Dir \<longleftrightarrow> is_directory_marker (obj_key obj) (obj_size obj)"
  using assms
  by (auto simp: check_marker_kind_def expression_file_def object_kind_of_def
      split: option.splits object_kind.splits bool.splits)

subsection \<open>Fields that are not used\<close>

text \<open>Setting the S3 time of the source, where all of its metadata is known.\<close>

definition set_source_s3_time :: "(int \<times> nat) option \<Rightarrow> context_values \<Rightarrow> context_values" where
  "set_source_s3_time t c = (case c_src c of
     Complete f \<Rightarrow> c\<lparr>c_src := Complete (f\<lparr>f_s3_last_modified := t\<rparr>)\<rparr>
   | S3Listing n d _ \<Rightarrow> c\<lparr>c_src := S3Listing n d t\<rparr>
   | Unread \<Rightarrow> c)"

lemma eval_items_cong:
  "(\<And>b. b \<in> set items \<Longrightarrow> eval m c b = eval m c' b) \<Longrightarrow> eval_items m c v items = eval_items m c' v items"
  by (induction items) (simp_all cong: if_cong)

lemma eval_set_source_s3_time:
  "\<not> uses_source_s3_time n \<Longrightarrow> eval m (set_source_s3_time t c) n = eval m c n"
proof (induction n)
  case (Field d f)
  then show ?case
    by (cases d; cases f; cases "c_src c")
      (simp_all add: set_source_s3_time_def facts_field_def file_field_def)
next
  case Now
  then show ?case by (simp add: set_source_s3_time_def split: expr_facts.split)
next
  case (Binary op a b)
  then show ?case by (cases "op \<in> {OpAnd, OpOr}") (auto simp: eval_Binary cong: if_cong)
next
  case (In a items)
  then have "eval_items m (set_source_s3_time t c) v items = eval_items m c v items" for v
    by (intro eval_items_cong) (auto simp: list_ex_iff)
  with In show ?case by simp
qed (simp_all cong: if_cong)

end
