(* ===== verification/Expr_Parser.thy ===== *)
theory Expr_Parser
  imports Expr_Lexer Expr_Policy
begin

section \<open>Parsing expressions\<close>

text \<open>
  The precedence-climbing parser of \<open>src/src/expression/parser.rs\<close> and \<open>Expression::compile\<close>.
  The tokens from \<open>at\<close> on are the list \<open>toks\<close>. A parsing function returns its result and the
  parser it leaves; \<^const>\<open>None\<close> is a panic (an index past the last token) or exhausted fuel, which
  the property of \<open>parse\<close> excludes. The crates \<open>globset\<close>, \<open>regex\<close> and \<open>time\<close> are the fields of
  the parameter \<open>L\<close>.
\<close>

subsection \<open>UTF-8\<close>

definition in_bytes :: "nat \<Rightarrow> nat \<Rightarrow> char \<Rightarrow> bool" where
  "in_bytes lo hi c \<longleftrightarrow> lo \<le> byte c \<and> byte c \<le> hi"

fun utf8_valid :: "string \<Rightarrow> bool" where
  "utf8_valid [] \<longleftrightarrow> True"
| "utf8_valid (a # s) \<longleftrightarrow>
     (if byte a < 128 then utf8_valid s
      else case s of
        [] \<Rightarrow> False
      | b # s1 \<Rightarrow>
        if in_bytes 194 223 a then continuation_byte b \<and> utf8_valid s1
        else (case s1 of
          [] \<Rightarrow> False
        | c # s2 \<Rightarrow>
          if in_bytes 224 239 a then
            (if byte a = 224 then in_bytes 160 191 b
             else if byte a = 237 then in_bytes 128 159 b else continuation_byte b) \<and>
            continuation_byte c \<and> utf8_valid s2
          else (case s2 of
            [] \<Rightarrow> False
          | d # s3 \<Rightarrow>
            in_bytes 240 244 a \<and>
            (if byte a = 240 then in_bytes 144 191 b
             else if byte a = 244 then in_bytes 128 143 b else continuation_byte b) \<and>
            continuation_byte c \<and> continuation_byte d \<and> utf8_valid s3)))"

subsection \<open>The parser's state\<close>

record parser =
  toks :: "(token \<times> nat) list"
  p_depth :: nat
  p_destination :: bool

type_synonym 'a parse = "parser \<Rightarrow> ((expr_error + 'a) \<times> parser) option"

record 'r libraries =
  lib_glob :: "string \<Rightarrow> expr_error + string"
  lib_regex :: "string \<Rightarrow> expr_error + 'r"
  lib_time :: "string \<Rightarrow> expr_error + int"

definition p_result :: "expr_error + 'a \<Rightarrow> 'a parse" where
  "p_result r = (\<lambda>st. Some (r, st))"

definition p_return :: "'a \<Rightarrow> 'a parse" where
  "p_return v = p_result (Inr v)"

definition p_bail :: "expr_error \<Rightarrow> 'a parse" where
  "p_bail e = p_result (Inl e)"

definition p_bind :: "'a parse \<Rightarrow> ('a \<Rightarrow> 'b parse) \<Rightarrow> 'b parse" where
  "p_bind p f = (\<lambda>st. case p st of
     None \<Rightarrow> None
   | Some (Inl e, st') \<Rightarrow> Some (Inl e, st')
   | Some (Inr v, st') \<Rightarrow> f v st')"

definition p_peek :: "token parse" where
  "p_peek = (\<lambda>st. case toks st of [] \<Rightarrow> None | (t, _) # _ \<Rightarrow> Some (Inr t, st))"

definition p_take :: "token parse" where
  "p_take = p_bind p_peek (\<lambda>v st. Some (Inr v, if v \<noteq> EndTok then st\<lparr>toks := tl (toks st)\<rparr> else st))"

definition p_is :: "string \<Rightarrow> bool parse" where
  "p_is s = p_bind p_peek (\<lambda>t. p_return (t = Word s \<or> t = Symbol s))"

definition p_eat :: "string \<Rightarrow> bool parse" where
  "p_eat s = p_bind (p_is s) (\<lambda>b. if b then p_bind p_take (\<lambda>_. p_return True) else p_return False)"

definition p_expect :: "string \<Rightarrow> unit parse" where
  "p_expect s = p_bind (p_eat s) (\<lambda>b. if b then p_return () else p_bail (ExpectedToken s))"

definition p_leave :: "'a \<Rightarrow> 'a parse" where
  "p_leave v = (\<lambda>st. Some (Inr v, st\<lparr>p_depth := p_depth st - 1\<rparr>))"

definition p_pattern :: "'r libraries \<Rightarrow> 'r node \<Rightarrow> bool \<Rightarrow> 'r node parse" where
  "p_pattern L left glob = p_bind p_take (\<lambda>t. case t of
     StringTok pattern \<Rightarrow>
       if \<not> utf8_valid pattern then p_bail (Message ''pattern must be UTF-8'')
       else p_bind (p_result (if glob then lib_glob L pattern else Inr pattern)) (\<lambda>pattern.
         p_bind (p_result (with_context ''invalid pattern'' (lib_regex L pattern))) (\<lambda>regex.
           p_return (Pattern left regex)))
   | _ \<Rightarrow> p_bail (Message ''pattern must be a quoted literal''))"

definition word_precedence :: "(string \<times> (nat \<times> binop option)) list" where
  "word_precedence = [(''or'', 1, Some OpOr), (''and'', 2, Some OpAnd), (''in'', 3, None),
     (''between'', 3, None), (''glob'', 3, None), (''matches'', 3, None), (''is'', 3, None), (''not'', 3, None)]"

definition symbol_precedence :: "(string \<times> (nat \<times> binop option)) list" where
  "symbol_precedence = [(''='', 3, Some OpEq), (''=='', 3, Some OpEq), (''!='', 3, Some OpNe),
     (''<>'', 3, Some OpNe), (''<'', 3, Some OpLt), (''<='', 3, Some OpLe), (''>'', 3, Some OpGt),
     (''>='', 3, Some OpGe), (''=~'', 3, None), (''|'', 4, Some OpBitOr), (''^'', 5, Some OpBitXor),
     (''&'', 6, Some OpBitAnd), (''+'', 7, Some OpAdd), (''-'', 7, Some OpSub), (''*'', 8, Some OpMul),
     (''/'', 8, Some OpDiv), (''%'', 8, Some OpRem)]"

definition precedence :: "token \<Rightarrow> nat \<times> binop option" where
  "precedence t = (case t of
     Word s \<Rightarrow> (case map_of word_precedence s of None \<Rightarrow> (0, None) | Some p \<Rightarrow> p)
   | Symbol s \<Rightarrow> (case map_of symbol_precedence s of None \<Rightarrow> (0, None) | Some p \<Rightarrow> p)
   | _ \<Rightarrow> (0, None))"

definition word_field :: "bool \<Rightarrow> string \<Rightarrow> expr_error + 'r node" where
  "word_field destination w =
     (if CHR ''.'' \<notin> set w then Inl (Message ''expected src.FIELD, dst.FIELD, or a quoted string'')
      else let (side, field) = split_dot w in
        and_then (expr_require (side = ''src'' \<or> side = ''dst'') ''field must start with src. or dst.'') (\<lambda>_.
        and_then (expr_require (side \<noteq> ''dst'' \<or> destination) ''--where accepts source fields only'') (\<lambda>_.
        and_then (field_parse field) (\<lambda>f. Inr (Field (side = ''dst'') f)))))"

definition p_timestamp :: "'r libraries \<Rightarrow> 'r node parse" where
  "p_timestamp L = p_bind (p_expect ''('') (\<lambda>_. p_bind p_take (\<lambda>t. case t of
     StringTok v \<Rightarrow> p_bind (p_expect '')'') (\<lambda>_.
       if \<not> utf8_valid v then p_bail (Message ''invalid utf-8'')
       else p_bind (p_result (with_context ''invalid RFC 3339 timestamp'' (lib_time L v))) (\<lambda>time.
         p_return (Literal (Quantity time TTimestamp))))
   | _ \<Rightarrow> p_bail (Message ''timestamp requires a quoted RFC 3339 literal'')))"

subsection \<open>The grammar\<close>

fun expression :: "'r libraries \<Rightarrow> nat \<Rightarrow> nat \<Rightarrow> 'r node parse"
  and operators :: "'r libraries \<Rightarrow> nat \<Rightarrow> nat \<Rightarrow> 'r node \<Rightarrow> 'r node parse"
  and special_form :: "'r libraries \<Rightarrow> nat \<Rightarrow> bool \<Rightarrow> token \<Rightarrow> 'r node \<Rightarrow> 'r node parse"
  and in_items :: "'r libraries \<Rightarrow> nat \<Rightarrow> string \<Rightarrow> 'r node list parse"
  and prefix_form :: "'r libraries \<Rightarrow> nat \<Rightarrow> 'r node parse"
where
  "expression L 0 mn = (\<lambda>st. None)"
| "expression L (Suc fuel) mn = (\<lambda>st.
     let st = st\<lparr>p_depth := p_depth st + 1\<rparr> in
     if p_depth st \<le> 64 then
       p_bind (prefix_form L fuel) (\<lambda>left. p_bind (operators L fuel mn left) p_leave) st
     else Some (Inl (Message ''expression nesting exceeds 64 levels''), st))"
| "operators L 0 mn left = (\<lambda>st. None)"
| "operators L (Suc fuel) mn left = p_bind p_peek (\<lambda>t.
     let (prec, op) = precedence t in
     if prec = 0 \<or> prec < mn then p_return left
     else p_bind p_take (\<lambda>token.
       case op of
         Some op \<Rightarrow> p_bind (expression L fuel (prec + 1)) (\<lambda>right.
           operators L fuel mn (Binary op left right))
       | None \<Rightarrow>
         let negate = (token = Word ''not'') in
         p_bind (if negate then p_take else p_return token) (\<lambda>special.
         p_bind (special_form L fuel negate special left) (\<lambda>n.
           operators L fuel mn (if negate then Not n else n)))))"
| "special_form L 0 negate special left = (\<lambda>st. None)"
| "special_form L (Suc fuel) negate special left =
     (if special = Word ''in'' then
        p_bind (p_eat ''['') (\<lambda>bracket.
        p_bind (if bracket then p_return '']'' else p_bind (p_expect ''('') (\<lambda>_. p_return '')'')) (\<lambda>close.
        p_bind (p_eat close) (\<lambda>none.
          if none then p_return (In left [])
          else p_bind (in_items L fuel close) (\<lambda>items. p_return (In left items)))))
      else if special = Word ''between'' then
        p_bind (expression L fuel 4) (\<lambda>low. p_bind (p_expect ''and'') (\<lambda>_.
        p_bind (expression L fuel 4) (\<lambda>high. p_return (Between left low high))))
      else if special = Word ''is'' \<and> \<not> negate then
        p_bind (p_eat ''not'') (\<lambda>neg. p_bind (p_expect ''null'') (\<lambda>_.
          p_return (Binary (if neg then OpNe else OpEq) left (Literal VNull))))
      else if special = Word ''glob'' \<or> special = Word ''matches'' then
        p_pattern L left (special = Word ''glob'')
      else if special = Symbol ''=~'' \<and> \<not> negate then p_pattern L left False
      else p_bail (Message ''expected in, between, glob, or matches after not''))"
| "in_items L 0 close = (\<lambda>st. None)"
| "in_items L (Suc fuel) close = p_bind (expression L fuel 0) (\<lambda>item. p_bind (p_eat close) (\<lambda>last_item.
     if last_item then p_return [item]
     else p_bind (p_expect '','') (\<lambda>_. p_bind (in_items L fuel close) (\<lambda>items. p_return (item # items)))))"
| "prefix_form L 0 = (\<lambda>st. None)"
| "prefix_form L (Suc fuel) = p_bind p_take (\<lambda>t. case t of
     StringTok v \<Rightarrow> p_return (Literal (VString v))
   | NumberTok v \<Rightarrow> p_bind (p_result (number v)) (\<lambda>n. p_return (Literal n))
   | Symbol s \<Rightarrow>
       if s = ''('' then p_bind (expression L fuel 0) (\<lambda>n. p_bind (p_expect '')'') (\<lambda>_. p_return n))
       else if s = ''-'' then p_bind (expression L fuel 9) (\<lambda>n. p_return (Negative n))
       else p_bail (Message ''expected a value, field, or parenthesized expression'')
   | Word w \<Rightarrow>
       if w = ''not'' then p_bind (expression L fuel 3) (\<lambda>n. p_return (Not n))
       else if w = ''true'' \<or> w = ''false'' then p_return (Literal (VBool (w = ''true'')))
       else if w = ''null'' then p_return (Literal VNull)
       else if w = ''now'' then p_return Now
       else if w = ''timestamp'' then p_timestamp L
       else if w = ''if'' \<or> w = ''coalesce'' then
         p_bind (p_expect ''('') (\<lambda>_. p_bind (expression L fuel 0) (\<lambda>a. p_bind (p_expect '','') (\<lambda>_.
         p_bind (expression L fuel 0) (\<lambda>b.
           if w = ''if'' then
             p_bind (p_expect '','') (\<lambda>_. p_bind (expression L fuel 0) (\<lambda>c.
             p_bind (p_expect '')'') (\<lambda>_. p_return (If a b c))))
           else p_bind (p_expect '')'') (\<lambda>_. p_return (Coalesce a b))))))
       else (\<lambda>st. p_result (word_field (p_destination st) w) st)
   | EndTok \<Rightarrow> p_bail (Message ''expected a value, field, or parenthesized expression''))"

text \<open>Fuel for the nesting of calls: each call level takes a token, and at most four levels share one.\<close>

definition parse :: "'r libraries \<Rightarrow> string \<Rightarrow> bool \<Rightarrow> (expr_error + 'r node) option" where
  "parse L text' destination =
     (if length text' \<le> 65536 then
        (case lex text' of
           Inl e \<Rightarrow> Some (Inl e)
         | Inr tokens \<Rightarrow>
           (case expression L (4 * length tokens + 1) 0
               \<lparr>toks = tokens, p_depth = 0, p_destination = destination\<rparr> of
              None \<Rightarrow> None
            | Some (Inl e, st) \<Rightarrow>
              (case toks st of [] \<Rightarrow> None | (_, i) # _ \<Rightarrow> Some (Inl (AtByte (i + 1) e)))
            | Some (Inr result, st) \<Rightarrow>
              (case toks st of
                 [] \<Rightarrow> None
               | (t, _) # _ \<Rightarrow> Some (and_then
                   (expr_require (t = EndTok) ''unexpected tokens after expression'') (\<lambda>_. Inr result)))))
      else Some (Inl (Message ''expression exceeds 64 KiB'')))"

definition compile :: "'r libraries \<Rightarrow> string \<Rightarrow> bool \<Rightarrow> (expr_error + 'r node) option" where
  "compile L text' destination = map_option (\<lambda>parsed.
     and_then parsed (\<lambda>root. and_then (node_ty root) (\<lambda>t.
       and_then (expr_require (t = TBool) ''expression must produce a boolean'') (\<lambda>_. Inr root))))
     (parse L text' destination)"

definition compile_option :: "'r libraries \<Rightarrow> string \<Rightarrow> string option \<Rightarrow> bool \<Rightarrow> (expr_error + 'r node option) option" where
  "compile_option L option_name text' destination = (case text' of
     None \<Rightarrow> Some (Inr None)
   | Some s \<Rightarrow> map_option (\<lambda>r. and_then (with_context option_name r) (\<lambda>e. Inr (Some e)))
       (compile L s destination))"

text \<open>\<open>Policy::compile\<close>; the time the command started is an argument.\<close>

definition policy_compile ::
  "'r libraries \<Rightarrow> int \<Rightarrow> string option \<Rightarrow> string option \<Rightarrow> (expr_error + 'r policy) option" where
  "policy_compile L now sel upd = do {
     s \<leftarrow> compile_option L ''--where'' sel False;
     (case s of
        Inl e \<Rightarrow> Some (Inl e)
      | Inr s \<Rightarrow> do {
          u \<leftarrow> compile_option L ''--copy-if'' upd True;
          Some (and_then u (\<lambda>u. Inr \<lparr>selection = s, update = u, policy_now = now\<rparr>)) }) }"

end
