(* ===== verification/Expr_Compile.thy ===== *)
theory Expr_Compile
  imports Expr_Parser
begin

section \<open>What compilation guarantees\<close>

text \<open>
  Every call of the parser returns, on every text; the node it returns has at most as many parts
  as the text has tokens, only well-formed literals, and only fields of the sides it may use.
\<close>

subsection \<open>Nodes\<close>

fun nodes :: "'r node \<Rightarrow> nat" where
  "nodes (Not n) = 1 + nodes n"
| "nodes (Negative n) = 1 + nodes n"
| "nodes (Binary _ a b) = 1 + nodes a + nodes b"
| "nodes (In a items) = 1 + nodes a + sum_list (map nodes items)"
| "nodes (Between a b c) = 1 + nodes a + nodes b + nodes c"
| "nodes (Pattern n _) = 1 + nodes n"
| "nodes (If a b c) = 1 + nodes a + nodes b + nodes c"
| "nodes (Coalesce a b) = 1 + nodes a + nodes b"
| "nodes _ = 1"

fun source_only :: "'r node \<Rightarrow> bool" where
  "source_only (Field d _) \<longleftrightarrow> \<not> d"
| "source_only (Not n) \<longleftrightarrow> source_only n"
| "source_only (Negative n) \<longleftrightarrow> source_only n"
| "source_only (Binary _ a b) \<longleftrightarrow> source_only a \<and> source_only b"
| "source_only (In a items) \<longleftrightarrow> source_only a \<and> list_all source_only items"
| "source_only (Between a b c) \<longleftrightarrow> source_only a \<and> source_only b \<and> source_only c"
| "source_only (Pattern n _) \<longleftrightarrow> source_only n"
| "source_only (If a b c) \<longleftrightarrow> source_only a \<and> source_only b \<and> source_only c"
| "source_only (Coalesce a b) \<longleftrightarrow> source_only a \<and> source_only b"
| "source_only _ \<longleftrightarrow> True"

text \<open>The crate \<open>time\<close> represents years up to 9999, so its nanoseconds fit \<open>i128\<close>.\<close>

definition times_fit :: "'r libraries \<Rightarrow> bool" where
  "times_fit L \<longleftrightarrow> (\<forall>s t. lib_time L s = Inr t \<longrightarrow> i128_fits t)"

definition node_ok :: "'r libraries \<Rightarrow> bool \<Rightarrow> 'r node \<Rightarrow> bool" where
  "node_ok L destination n \<longleftrightarrow> (times_fit L \<longrightarrow> wf_node n) \<and> (destination \<or> source_only n)"

lemma node_ok_simps [simp]:
  "node_ok L d (Not n) \<longleftrightarrow> node_ok L d n"
  "node_ok L d (Negative n) \<longleftrightarrow> node_ok L d n"
  "node_ok L d (Binary op a b) \<longleftrightarrow> node_ok L d a \<and> node_ok L d b"
  "node_ok L d (In a items) \<longleftrightarrow> node_ok L d a \<and> list_all (node_ok L d) items"
  "node_ok L d (Between a b c) \<longleftrightarrow> node_ok L d a \<and> node_ok L d b \<and> node_ok L d c"
  "node_ok L d (Pattern n r) \<longleftrightarrow> node_ok L d n"
  "node_ok L d (If a b c) \<longleftrightarrow> node_ok L d a \<and> node_ok L d b \<and> node_ok L d c"
  "node_ok L d (Coalesce a b) \<longleftrightarrow> node_ok L d a \<and> node_ok L d b"
  "node_ok L d (Literal v) \<longleftrightarrow> (times_fit L \<longrightarrow> wf_value v)"
  "node_ok L d Now"
  by (auto simp: node_ok_def list_all_iff)

lemma wf_value_simps [simp]: "wf_value VNull" "wf_value (VBool b)" "wf_value (VString s)"
  by (simp_all add: wf_value_def)

lemma precedence_EndTok [simp]: "precedence EndTok = (0, None)"
  by (simp add: precedence_def)

subsection \<open>Number literals\<close>

lemma checked_fits: "checked n = Some m \<Longrightarrow> m = n \<and> i128_fits m"
  by (auto simp: checked_def split: if_splits)

lemma i128_from_str_radix_fits: "i128_from_str_radix r s = Some n \<Longrightarrow> i128_fits n"
  by (auto simp: i128_from_str_radix_def Let_def split: list.splits if_splits option.splits prod.splits
      dest: checked_fits)

lemma suffix_ty: "map_of suffixes s = Some (m, t) \<Longrightarrow> quantity_ty t"
  by (auto simp: suffixes_def quantity_ty_def split: if_splits)

lemma div_le_int: "0 \<le> n \<Longrightarrow> 0 < k \<Longrightarrow> n div k \<le> n" for n k :: int
  using zdiv_mono2 [of n 1 k] by simp

lemma sdiv_fits:
  assumes "i128_fits n" "0 < k"
  shows "i128_fits (n sdiv k)"
proof (cases "0 \<le> n")
  case True
  then have "n sdiv k = n div k" "0 \<le> n div k" "n div k \<le> n"
    using assms(2) by (auto simp: signed_divide_int_def sgn_if div_le_int pos_imp_zdiv_nonneg_iff)
  with assms(1) show ?thesis unfolding i128_fits_def by linarith
next
  case False
  then have "n sdiv k = - (- n div k)" "0 \<le> - n div k" "- n div k \<le> - n"
    using assms(2) by (auto simp: signed_divide_int_def sgn_if div_le_int pos_imp_zdiv_nonneg_iff)
  with assms(1) False show ?thesis unfolding i128_fits_def by linarith
qed

lemma scaled_fits: "scaled w sc f m = Some n \<Longrightarrow> i128_fits n"
  by (auto simp: scaled_def bind_eq_Some_conv dest: checked_fits)

lemma decimal_number_wf:
  assumes "decimal_number s = Inr v"
  shows "wf_value v"
proof -
  obtain m t n k where "map_of suffixes (dropWhile (\<lambda>c. is_digit c \<or> c = CHR ''.'') s) = Some (m, t)"
      "i128_fits n" "v = Quantity (n sdiv (10 ^ k)) t"
    using assms by (auto simp: decimal_number_def Let_def and_then_Inr split: option.splits prod.splits
        dest!: scaled_fits)
  then show ?thesis using suffix_ty by (auto simp: wf_value_def intro: sdiv_fits)
qed

lemma number_wf: "number s = Inr v \<Longrightarrow> wf_value v"
  unfolding number_def
  by (auto simp: decimal_number_wf split: if_splits option.splits)
    (auto simp: wf_value_def quantity_ty_def intro: i128_from_str_radix_fits)

subsection \<open>Running the parser\<close>

definition parser_ok :: "parser \<Rightarrow> bool" where
  "parser_ok st \<longleftrightarrow> token_list (toks st)"

text \<open>
  \<open>returns p st Q\<close>: from \<open>st\<close> the parsing function \<open>p\<close> returns; the parser it leaves is well
  formed, and on success the result satisfies \<open>Q\<close>.
\<close>

definition returns :: "'a parse \<Rightarrow> parser \<Rightarrow> ('a \<Rightarrow> parser \<Rightarrow> bool) \<Rightarrow> bool" where
  "returns p st Q = (case p st of
     None \<Rightarrow> False
   | Some (Inl e, st') \<Rightarrow> parser_ok st'
   | Some (Inr v, st') \<Rightarrow> parser_ok st' \<and> Q v st')"

lemma returns_mono: "returns p st Q \<Longrightarrow> (\<And>v st'. parser_ok st' \<Longrightarrow> Q v st' \<Longrightarrow> R v st') \<Longrightarrow> returns p st R"
  by (auto simp: returns_def split: option.splits sum.splits)

lemma returns_bind:
  assumes "returns p st (\<lambda>v st'. returns (f v) st' Q)"
  shows "returns (p_bind p f) st Q"
proof -
  from assms obtain r st' where r: "p st = Some (r, st')"
    by (cases "p st") (auto simp: returns_def)
  with assms show ?thesis by (cases r) (simp_all add: returns_def p_bind_def)
qed

lemma returnsE:
  assumes "returns p st Q"
  obtains r st' where "p st = Some (r, st')" "parser_ok st'" "\<And>v. r = Inr v \<Longrightarrow> Q v st'"
proof -
  obtain r st' where r: "p st = Some (r, st')" using assms by (cases "p st") (auto simp: returns_def)
  with assms that show thesis by (cases r) (auto simp: returns_def)
qed

lemma returns_return: "parser_ok st \<Longrightarrow> Q v st \<Longrightarrow> returns (p_return v) st Q"
  by (simp add: returns_def p_return_def p_result_def)

lemma returns_bail: "parser_ok st \<Longrightarrow> returns (p_bail e) st Q"
  by (simp add: returns_def p_bail_def p_result_def)

lemma returns_result: "parser_ok st \<Longrightarrow> (\<And>v. r = Inr v \<Longrightarrow> Q v st) \<Longrightarrow> returns (p_result r) st Q"
  by (cases r) (simp_all add: returns_def p_result_def)

lemma parser_ok_depth [simp]: "parser_ok (st\<lparr>p_depth := d\<rparr>) = parser_ok st"
  by (simp add: parser_ok_def)

lemma returns_leave: "parser_ok st \<Longrightarrow> Q v (st\<lparr>p_depth := p_depth st - 1\<rparr>) \<Longrightarrow> returns (p_leave v) st Q"
  by (simp add: returns_def p_leave_def)

text \<open>How a parser moved: it took \<open>n\<close> tokens or more and kept the rest of its state.\<close>

definition moved :: "nat \<Rightarrow> parser \<Rightarrow> parser \<Rightarrow> bool" where
  "moved n st st' \<longleftrightarrow> length (toks st') + n \<le> length (toks st) \<and> p_destination st' = p_destination st"

lemma moved_refl [simp]: "moved 0 st st"
  by (simp add: moved_def)

lemma moved_trans: "moved n a b \<Longrightarrow> moved m b c \<Longrightarrow> moved (n + m) a c"
  by (simp add: moved_def)

lemma returns_peek: "parser_ok st \<Longrightarrow> (\<And>t. t = fst (hd (toks st)) \<Longrightarrow> Q t st) \<Longrightarrow> returns p_peek st Q"
  by (cases "toks st") (auto simp: returns_def p_peek_def parser_ok_def token_list_def)

lemma token_list_tl: "token_list ((t, i) # ts) \<Longrightarrow> t \<noteq> EndTok \<Longrightarrow> token_list ts"
  by (cases ts) (auto simp: token_list_def)

lemma returns_take:
  assumes "parser_ok st" "\<And>t st'. t = fst (hd (toks st)) \<Longrightarrow> moved (if t = EndTok then 0 else 1) st st' \<Longrightarrow> parser_ok st' \<Longrightarrow> Q t st'"
  shows "returns p_take st Q"
proof (cases "toks st")
  case Nil
  then show ?thesis using assms(1) by (simp add: parser_ok_def token_list_def)
next
  case (Cons x ts)
  obtain t i where x: "x = (t, i)" by (cases x)
  have "parser_ok (st\<lparr>toks := ts\<rparr>)" if "t \<noteq> EndTok"
    using assms(1) Cons x that token_list_tl [of t i ts] by (simp add: parser_ok_def)
  with Cons x assms show ?thesis
    by (auto simp: returns_def p_take_def p_bind_def p_peek_def moved_def)
qed

lemma returns_eat:
  assumes "parser_ok st" "\<And>b st'. parser_ok st' \<Longrightarrow> moved (if b then 1 else 0) st st' \<Longrightarrow> Q b st'"
  shows "returns (p_eat s) st Q"
  unfolding p_eat_def p_is_def
  using assms
  by (intro returns_bind returns_peek returns_return)
    (auto intro!: returns_bind returns_return returns_take)

lemma returns_expect:
  assumes "parser_ok st" "\<And>st'. parser_ok st' \<Longrightarrow> moved 1 st st' \<Longrightarrow> Q () st'"
  shows "returns (p_expect s) st Q"
  unfolding p_expect_def
  using assms by (intro returns_bind returns_eat) (auto intro: returns_return returns_bail)

subsection \<open>The grammar returns\<close>

text \<open>Success after taking at least \<open>k\<close> tokens and adding at most one part per token taken.\<close>

definition parsed :: "'r libraries \<Rightarrow> nat \<Rightarrow> parser \<Rightarrow> 'r node \<Rightarrow> parser \<Rightarrow> bool" where
  "parsed L base st n st' \<longleftrightarrow> node_ok L (p_destination st) n \<and>
     nodes n + length (toks st') \<le> base + length (toks st) \<and>
     length (toks st') \<le> length (toks st) \<and> p_destination st' = p_destination st"

lemma returns_pattern:
  assumes "parser_ok st" "node_ok L (p_destination st) left"
  shows "returns (p_pattern L left glob) st (parsed L (nodes left) st)"
  unfolding p_pattern_def
proof (rule returns_bind, rule returns_take [OF assms(1)])
  fix t st'
  assume "moved (if t = EndTok then 0 else 1) st st'" "parser_ok st'"
  with assms(2) show "returns (case t of
     StringTok pattern \<Rightarrow>
       if \<not> utf8_valid pattern then p_bail (Message ''pattern must be UTF-8'')
       else p_bind (p_result (if glob then lib_glob L pattern else Inr pattern)) (\<lambda>pattern.
         p_bind (p_result (with_context ''invalid pattern'' (lib_regex L pattern))) (\<lambda>regex.
           p_return (Pattern left regex)))
   | _ \<Rightarrow> p_bail (Message ''pattern must be a quoted literal'')) st' (parsed L (nodes left) st)"
    by (cases t) (auto simp: parsed_def moved_def node_ok_def
        intro!: returns_bail returns_bind returns_result returns_return)
qed

lemma with_context_Inr: "with_context c r = Inr v \<longleftrightarrow> r = Inr v"
  by (cases r) (simp_all add: with_context_def)

lemmas returns_rules = returns_bind returns_return returns_bail returns_expect returns_eat returns_take
  returns_result

lemma returns_timestamp:
  assumes "parser_ok st"
  shows "returns (p_timestamp L) st (parsed L 1 st)"
  unfolding p_timestamp_def using assms
  by (auto simp: with_context_Inr parsed_def moved_def node_ok_def times_fit_def wf_value_def quantity_ty_def
      intro!: returns_rules split: token.split if_splits)

lemma word_field_ok:
  "word_field d w = Inr n \<Longrightarrow> node_ok L d n \<and> nodes n = 1"
  by (auto simp: word_field_def and_then_Inr node_ok_def expr_require_def Let_def split: if_splits prod.splits)

definition expression_spec :: "'r libraries \<Rightarrow> nat \<Rightarrow> bool" where
  "expression_spec L f \<longleftrightarrow> (\<forall>mn st. parser_ok st \<longrightarrow> 4 * length (toks st) + 1 \<le> f \<longrightarrow>
     returns (expression L f mn) st (\<lambda>n st'. parsed L 0 st n st' \<and> length (toks st') < length (toks st)))"

definition operators_spec :: "'r libraries \<Rightarrow> nat \<Rightarrow> bool" where
  "operators_spec L f \<longleftrightarrow> (\<forall>mn left st. parser_ok st \<longrightarrow> node_ok L (p_destination st) left \<longrightarrow>
     4 * length (toks st) + 1 \<le> f \<longrightarrow> returns (operators L f mn left) st (parsed L (nodes left) st))"

definition special_spec :: "'r libraries \<Rightarrow> nat \<Rightarrow> bool" where
  "special_spec L f \<longleftrightarrow> (\<forall>negate special left st. parser_ok st \<longrightarrow> node_ok L (p_destination st) left \<longrightarrow>
     4 * length (toks st) + 3 \<le> f \<longrightarrow>
     returns (special_form L f negate special left) st
       (\<lambda>n st'. special \<noteq> EndTok \<and> parsed L (nodes left + 1) st n st'))"

definition items_spec :: "'r libraries \<Rightarrow> nat \<Rightarrow> bool" where
  "items_spec L f \<longleftrightarrow> (\<forall>close st. parser_ok st \<longrightarrow> 4 * length (toks st) + 2 \<le> f \<longrightarrow>
     returns (in_items L f close) st (\<lambda>ns st'. list_all (node_ok L (p_destination st)) ns \<and>
       sum_list (map nodes ns) + length (toks st') \<le> length (toks st) \<and> p_destination st' = p_destination st))"

definition prefix_spec :: "'r libraries \<Rightarrow> nat \<Rightarrow> bool" where
  "prefix_spec L f \<longleftrightarrow> (\<forall>st. parser_ok st \<longrightarrow> 4 * length (toks st) \<le> f \<longrightarrow>
     returns (prefix_form L f) st (\<lambda>n st'. parsed L 0 st n st' \<and> length (toks st') < length (toks st)))"

lemma returns_expression:
  assumes "expression_spec L f" "parser_ok st" "4 * length (toks st) + 1 \<le> f"
    "\<And>n st'. parser_ok st' \<Longrightarrow> parsed L 0 st n st' \<Longrightarrow> length (toks st') < length (toks st) \<Longrightarrow> Q n st'"
  shows "returns (expression L f mn) st Q"
  using assms(1-3) unfolding expression_spec_def by (blast intro: returns_mono assms(4))

lemma returns_operators:
  assumes "operators_spec L f" "parser_ok st" "node_ok L (p_destination st) left"
    "4 * length (toks st) + 1 \<le> f"
    "\<And>n st'. parser_ok st' \<Longrightarrow> parsed L (nodes left) st n st' \<Longrightarrow> Q n st'"
  shows "returns (operators L f mn left) st Q"
  using assms(1-4) unfolding operators_spec_def by (blast intro: returns_mono assms(5))

lemma returns_special:
  assumes "special_spec L f" "parser_ok st" "node_ok L (p_destination st) left"
    "4 * length (toks st) + 3 \<le> f"
    "\<And>n st'. parser_ok st' \<Longrightarrow> special \<noteq> EndTok \<Longrightarrow> parsed L (nodes left + 1) st n st' \<Longrightarrow> Q n st'"
  shows "returns (special_form L f negate special left) st Q"
  using assms(1-4) unfolding special_spec_def by (blast intro: returns_mono assms(5))

lemma returns_items:
  assumes "items_spec L f" "parser_ok st" "4 * length (toks st) + 2 \<le> f"
    "\<And>ns st'. parser_ok st' \<Longrightarrow> list_all (node_ok L (p_destination st)) ns \<Longrightarrow>
      sum_list (map nodes ns) + length (toks st') \<le> length (toks st) \<Longrightarrow>
      p_destination st' = p_destination st \<Longrightarrow> Q ns st'"
  shows "returns (in_items L f close) st Q"
  using assms(1-3) unfolding items_spec_def by (blast intro: returns_mono assms(4))

lemma returns_prefix:
  assumes "prefix_spec L f" "parser_ok st" "4 * length (toks st) \<le> f"
    "\<And>n st'. parser_ok st' \<Longrightarrow> parsed L 0 st n st' \<Longrightarrow> length (toks st') < length (toks st) \<Longrightarrow> Q n st'"
  shows "returns (prefix_form L f) st Q"
  using assms(1-3) unfolding prefix_spec_def by (blast intro: returns_mono assms(4))

lemma items_step:
  assumes "expression_spec L f" "items_spec L f"
  shows "items_spec L (Suc f)"
  unfolding items_spec_def in_items.simps using assms
  by (auto simp: parsed_def moved_def intro!: returns_rules returns_expression returns_items)

lemma returns_pattern_rule:
  assumes "parser_ok st" "node_ok L (p_destination st) left"
    "\<And>n st'. parser_ok st' \<Longrightarrow> parsed L (nodes left) st n st' \<Longrightarrow> Q n st'"
  shows "returns (p_pattern L left glob) st Q"
  using returns_pattern [OF assms(1,2)] by (rule returns_mono) (rule assms(3))

lemma special_in:
  assumes "items_spec L f" "parser_ok st" "node_ok L (p_destination st) left" "4 * length (toks st) + 2 \<le> f"
  shows "returns (special_form L (Suc f) negate (Word ''in'') left) st (parsed L (nodes left + 1) st)"
  using assms
  by (auto simp: parsed_def moved_def intro!: returns_rules returns_items)

lemma special_between:
  assumes "expression_spec L f" "parser_ok st" "node_ok L (p_destination st) left" "4 * length (toks st) + 2 \<le> f"
  shows "returns (special_form L (Suc f) negate (Word ''between'') left) st (parsed L (nodes left + 1) st)"
  using assms
  by (auto simp: parsed_def moved_def intro!: returns_rules returns_expression)

lemma special_is:
  assumes "parser_ok st" "node_ok L (p_destination st) left"
  shows "returns (special_form L (Suc f) False (Word ''is'') left) st (parsed L (nodes left + 1) st)"
  using assms
  by (auto simp: parsed_def moved_def intro!: returns_rules)

lemma special_step:
  assumes "expression_spec L f" "items_spec L f"
  shows "special_spec L (Suc f)"
proof -
  have "returns (special_form L (Suc f) negate special left) st
      (\<lambda>n st'. special \<noteq> EndTok \<and> parsed L (nodes left + 1) st n st')"
    if st: "parser_ok st" "node_ok L (p_destination st) left" "4 * length (toks st) + 3 \<le> Suc f"
    for negate special left st
  proof -
    have f: "4 * length (toks st) + 2 \<le> f" using st(3) by simp
    consider "special = Word ''in''" | "special = Word ''between''" | "special = Word ''is'' \<and> \<not> negate"
      | "special = Word ''glob'' \<or> special = Word ''matches''" | "special = Symbol ''=~'' \<and> \<not> negate"
      | (other) "special \<noteq> Word ''in''" "special \<noteq> Word ''between''" "\<not> (special = Word ''is'' \<and> \<not> negate)"
        "\<not> (special = Word ''glob'' \<or> special = Word ''matches'')" "\<not> (special = Symbol ''=~'' \<and> \<not> negate)"
      by blast
    then show ?thesis
    proof cases
      case 1
      with special_in [OF assms(2) st(1,2) f] show ?thesis by (auto elim!: returns_mono)
    next
      case 2
      with special_between [OF assms(1) st(1,2) f] show ?thesis by (auto elim!: returns_mono)
    next
      case 3
      with special_is [OF st(1,2)] show ?thesis by (auto elim!: returns_mono simp del: special_form.simps)
    next
      case 4
      then have "special_form L (Suc f) negate special left = p_pattern L left (special = Word ''glob'')"
        by (elim disjE) simp_all
      with 4 show ?thesis using st(1,2)
        by (simp only:) (rule returns_pattern_rule, auto simp: parsed_def)
    next
      case 5
      then have "special_form L (Suc f) negate special left = p_pattern L left False" by simp
      with 5 show ?thesis using st(1,2)
        by (simp only:) (rule returns_pattern_rule, auto simp: parsed_def)
    next
      case other
      then show ?thesis unfolding special_form.simps by (simp only: if_False) (rule returns_bail [OF st(1)])
    qed
  qed
  then show ?thesis unfolding special_spec_def by blast
qed

lemma expression_step:
  assumes "prefix_spec L f" "operators_spec L f"
  shows "expression_spec L (Suc f)"
proof -
  have "returns (expression L (Suc f) mn) st (\<lambda>n st'. parsed L 0 st n st' \<and> length (toks st') < length (toks st))"
    if "parser_ok st" "4 * length (toks st) + 1 \<le> Suc f" for mn st
  proof -
    let ?st = "st\<lparr>p_depth := p_depth st + 1\<rparr>"
    have "returns (p_bind (prefix_form L f) (\<lambda>left. p_bind (operators L f mn left) p_leave)) ?st
         (\<lambda>n st'. parsed L 0 st n st' \<and> length (toks st') < length (toks st))"
      using that assms
      by (auto simp: parsed_def intro!: returns_bind returns_prefix returns_operators returns_leave)
    with that(1) show ?thesis by (auto simp: returns_def Let_def parser_ok_def)
  qed
  then show ?thesis by (simp add: expression_spec_def)
qed

lemma operators_step:
  assumes "expression_spec L f" "operators_spec L f" "special_spec L f"
  shows "operators_spec L (Suc f)"
  unfolding operators_spec_def operators.simps using assms
  by (auto simp: parsed_def moved_def Let_def
      intro!: returns_rules returns_peek returns_expression returns_operators returns_special
      split: prod.split option.split if_splits)

lemma returns_if_word:
  assumes "expression_spec L f" "parser_ok st" "4 * length (toks st) + 1 \<le> f"
  shows "returns (p_bind (p_expect ''('') (\<lambda>_. p_bind (expression L f 0) (\<lambda>a. p_bind (p_expect '','') (\<lambda>_.
         p_bind (expression L f 0) (\<lambda>b.
           if cond then
             p_bind (p_expect '','') (\<lambda>_. p_bind (expression L f 0) (\<lambda>c.
             p_bind (p_expect '')'') (\<lambda>_. p_return (If a b c))))
           else p_bind (p_expect '')'') (\<lambda>_. p_return (Coalesce a b))))))) st (parsed L 1 st)"
  using assms by (auto simp: parsed_def moved_def intro!: returns_rules returns_expression)

lemma returns_word_field:
  "parser_ok st \<Longrightarrow> returns (\<lambda>st. p_result (word_field (p_destination st) w) st) st (parsed L 1 st)"
  using word_field_ok [of "p_destination st" w _ L]
  by (auto simp: returns_def p_result_def parsed_def split: sum.splits)

lemma returns_if: "(b \<Longrightarrow> returns p st Q) \<Longrightarrow> (\<not> b \<Longrightarrow> returns q st Q) \<Longrightarrow> returns (if b then p else q) st Q"
  by simp

lemma prefix_word:
  assumes "expression_spec L f" "parser_ok st" "4 * length (toks st) + 1 \<le> f"
  shows "returns (if w = ''not'' then p_bind (expression L f 3) (\<lambda>n. p_return (Not n))
       else if w = ''true'' \<or> w = ''false'' then p_return (Literal (VBool (w = ''true'')))
       else if w = ''null'' then p_return (Literal VNull)
       else if w = ''now'' then p_return Now
       else if w = ''timestamp'' then p_timestamp L
       else if w = ''if'' \<or> w = ''coalesce'' then
         p_bind (p_expect ''('') (\<lambda>_. p_bind (expression L f 0) (\<lambda>a. p_bind (p_expect '','') (\<lambda>_.
         p_bind (expression L f 0) (\<lambda>b.
           if w = ''if'' then
             p_bind (p_expect '','') (\<lambda>_. p_bind (expression L f 0) (\<lambda>c.
             p_bind (p_expect '')'') (\<lambda>_. p_return (If a b c))))
           else p_bind (p_expect '')'') (\<lambda>_. p_return (Coalesce a b))))))
       else (\<lambda>st. p_result (word_field (p_destination st) w) st)) st (parsed L 1 st)"
proof -
  note rules = returns_timestamp [OF assms(2)] returns_if_word [OF assms] returns_word_field [OF assms(2)]
  have n: "returns (p_bind (expression L f 3) (\<lambda>n. p_return (Not n))) st (parsed L 1 st)"
    using assms by (auto simp: parsed_def intro!: returns_rules returns_expression)
  have l: "returns (p_return (Literal v)) st (parsed L 1 st)" if "wf_value v" for v
    using assms(2) that by (auto simp: parsed_def intro!: returns_return)
  have now: "returns (p_return Now) st (parsed L 1 st)"
    using assms(2) by (auto simp: parsed_def intro!: returns_return)
  show ?thesis by (intro returns_if n l now rules wf_value_simps)
qed

lemma prefix_symbol:
  assumes "expression_spec L f" "parser_ok st" "4 * length (toks st) + 1 \<le> f"
  shows "returns (if s = ''('' then p_bind (expression L f 0) (\<lambda>n. p_bind (p_expect '')'') (\<lambda>_. p_return n))
       else if s = ''-'' then p_bind (expression L f 9) (\<lambda>n. p_return (Negative n))
       else p_bail (Message ''expected a value, field, or parenthesized expression'')) st (parsed L 1 st)"
  using assms by (auto simp: parsed_def moved_def intro!: returns_rules returns_expression)

lemma prefix_step:
  assumes "expression_spec L f"
  shows "prefix_spec L (Suc f)"
proof -
  have "returns (prefix_form L (Suc f)) st (\<lambda>n st'. parsed L 0 st n st' \<and> length (toks st') < length (toks st))"
    if st: "parser_ok st" "4 * length (toks st) \<le> Suc f" for st
    unfolding prefix_form.simps
  proof (rule returns_bind, rule returns_take [OF st(1)], goal_cases)
    case (1 t st')
    show ?case
    proof (cases t)
      case EndTok
      then show ?thesis using 1 by (simp add: returns_bail)
    next
      case (Word w)
      then have m: "moved 1 st st'" and f: "4 * length (toks st') + 1 \<le> f" using 1 st(2) by (auto simp: moved_def)
      show ?thesis unfolding Word token.case
        by (rule returns_mono [OF prefix_word [OF assms 1(3) f]]) (use m in \<open>auto simp: parsed_def moved_def\<close>)
    next
      case (Symbol s)
      then have m: "moved 1 st st'" and f: "4 * length (toks st') + 1 \<le> f" using 1 st(2) by (auto simp: moved_def)
      show ?thesis unfolding Symbol token.case
        by (rule returns_mono [OF prefix_symbol [OF assms 1(3) f]]) (use m in \<open>auto simp: parsed_def moved_def\<close>)
    qed (use 1 in \<open>auto simp: parsed_def moved_def number_wf intro!: returns_rules\<close>)
  qed
  then show ?thesis by (simp add: prefix_spec_def)
qed

lemma grammar_returns:
  "expression_spec L f \<and> operators_spec L f \<and> special_spec L f \<and> items_spec L f \<and> prefix_spec L f"
proof (induction f)
  case 0
  have "toks st \<noteq> []" if "parser_ok st" for st
    using that by (simp add: parser_ok_def token_list_def)
  then show ?case
    by (auto simp: expression_spec_def operators_spec_def special_spec_def items_spec_def prefix_spec_def)
next
  case (Suc f)
  then show ?case
    by (simp add: expression_step operators_step special_step items_step prefix_step)
qed

lemma parse_returns:
  "\<exists>r. parse L s d = Some r \<and> (\<forall>n. r = Inr n \<longrightarrow> node_ok L d n \<and> nodes n \<le> 512)"
proof (cases "length s \<le> 65536 \<and> (\<exists>ts. lex s = Inr ts)")
  case True
  then obtain ts where ts: "lex s = Inr ts" by blast
  then have tl: "token_list ts" "length ts \<le> 513"
    using lex_from_tokens [of s 0 0 ts] by (simp_all add: lex_def)
  let ?st = "\<lparr>toks = ts, p_depth = 0, p_destination = d\<rparr>"
  have "returns (expression L (4 * length ts + 1) 0) ?st
      (\<lambda>n st'. parsed L 0 ?st n st' \<and> length (toks st') < length (toks ?st))"
    by (rule returns_expression) (simp_all del: expression.simps add: grammar_returns parser_ok_def tl(1))
  then obtain r st' where run: "expression L (4 * length ts + 1) 0 ?st = Some (r, st')" and ok: "parser_ok st'"
    and r: "\<And>n. r = Inr n \<Longrightarrow> parsed L 0 ?st n st'"
    by (elim returnsE) blast
  obtain t i rest where "toks st' = (t, i) # rest"
    using ok by (cases "toks st'") (auto simp: parser_ok_def token_list_def)
  with True ts run r tl(2) show ?thesis
    by (cases r) (auto simp: parse_def parsed_def and_then_Inr simp del: expression.simps)
next
  case False
  then show ?thesis by (auto simp: parse_def split: sum.splits)
qed

subsection \<open>Source fields only\<close>

lemma eval_source_only:
  "source_only n \<Longrightarrow> eval m (c\<lparr>c_dst := dst, c_dst_path := p\<rparr>) n = eval m c n"
proof (induction n)
  case (Binary op a b)
  then show ?case by (cases "op \<in> {OpAnd, OpOr}") (auto simp: eval_Binary cong: if_cong)
next
  case (In a items)
  then have "eval_items m (c\<lparr>c_dst := dst, c_dst_path := p\<rparr>) v items = eval_items m c v items" for v
    by (intro eval_items_cong) (auto simp: list_all_iff)
  with In show ?case by simp
qed (simp_all cong: if_cong)

subsection \<open>String literals\<close>

text \<open>A string literal for any bytes: every byte as a \<open>\\x\<close> escape, in double quotes.\<close>

definition byte_escape :: "char \<Rightarrow> string" where
  "byte_escape c = [CHR 0x5C, CHR ''x'', hex_digit (byte c div 16), hex_digit (byte c mod 16)]"

definition quoted :: "string \<Rightarrow> string" where
  "quoted s = CHR 0x22 # concat (map byte_escape s) @ [CHR 0x22]"

lemma hex_digit_value: "n < 16 \<Longrightarrow> to_digit 16 (hex_digit n) = Some n"
  by (auto simp: hex_digit_def to_digit_def is_digit_def byte_char_of Let_def)

lemma hex_digit_plus: "n < 16 \<Longrightarrow> hex_digit n \<noteq> CHR ''+''"
proof -
  assume "n < 16"
  then have "byte (hex_digit n) \<noteq> 43" by (auto simp: hex_digit_def byte_char_of)
  then show ?thesis by (auto simp: byte_def)
qed

lemma byte_escape_value:
  "u8_from_str_radix 16 [hex_digit (byte c div 16), hex_digit (byte c mod 16)] = Some (byte c)"
  using byte_less [of c] hex_digit_plus [of "byte c div 16"]
  by (simp add: u8_from_str_radix_def hex_digit_value)

lemma lex_string_escaped:
  "rest = [] \<or> \<not> continuation_byte (hd rest) \<Longrightarrow>
    lex_string (CHR 0x22) (byte_escape c @ rest) v = lex_string (CHR 0x22) rest (v @ [c])"
  by (auto simp: byte_escape_def escape_def get_two_def byte_escape_value) (simp add: byte_def)+

lemma lex_string_quoted:
  "lex_string (CHR 0x22) (concat (map byte_escape s) @ CHR 0x22 # rest) v = Inr (v @ s, rest)"
proof (induction s arbitrary: v)
  case (Cons c s)
  have "\<not> continuation_byte (hd (concat (map byte_escape s) @ CHR 0x22 # rest))"
    by (cases s) (simp_all add: byte_escape_def continuation_byte_def byte_def)
  with Cons show ?case by (simp add: lex_string_escaped)
qed simp

end
