(* ===== verification/Expr_Props.thy ===== *)
theory Expr_Props
  imports Expr_Compile
begin

section \<open>Properties of expressions\<close>

text \<open>
  The properties of the expression language: compilation returns and accepts only source fields
  for \<open>--where\<close>, checked expressions fail only for missing values and arithmetic, evaluation on a
  listing agrees with evaluation on full metadata, and literals mean what they say.
\<close>

subsection \<open>Decimal quantities\<close>

lemma to_digit_10: "is_digit c \<Longrightarrow> \<exists>d < 10. to_digit 10 c = Some d"
  by (auto simp: to_digit_def is_digit_def Let_def)

lemma digits_value_some:
  "list_all is_digit cs \<Longrightarrow> \<exists>n. digits_value 10 cs acc = Some n \<and> n < (acc + 1) * 10 ^ length cs"
proof (induction cs arbitrary: acc)
  case (Cons c cs)
  then obtain d where d: "d < 10" "to_digit 10 c = Some d" using to_digit_10 by auto
  with Cons obtain n where n: "digits_value 10 cs (acc * 10 + d) = Some n"
      "n < (acc * 10 + d + 1) * 10 ^ length cs"
    by fastforce
  note n(2)
  also have "(acc * 10 + d + 1) * 10 ^ length cs \<le> (acc + 1) * 10 * 10 ^ length cs"
    using d(1) by (intro mult_right_mono) auto
  also have "\<dots> = (acc + 1) * 10 ^ length (c # cs)" by (simp only: length_Cons power_Suc mult.assoc)
  finally have "n < (acc + 1) * 10 ^ length (c # cs)" .
  with n(1) d(2) show ?case by simp
qed simp

lemma digits_no_sign: "is_digit c \<Longrightarrow> c \<noteq> CHR ''+'' \<and> c \<noteq> CHR ''-''"
  by (auto simp: is_digit_def byte_def)

lemma from_str_radix_digits:
  assumes "list_all is_digit cs" "cs \<noteq> []" "digits_value 10 cs 0 = Some n"
  shows "i128_from_str_radix 10 cs = checked (int n)"
  using assms by (cases cs) (auto simp: i128_from_str_radix_def dest: digits_no_sign)

lemma split_dot_digits:
  assumes "split_dot (takeWhile (\<lambda>c. is_digit c \<or> c = CHR ''.'') s) = (whole, fraction)"
    "CHR ''.'' \<notin> set fraction"
  shows "list_all is_digit whole" "list_all is_digit fraction"
proof -
  let ?ds = "takeWhile (\<lambda>c. is_digit c \<or> c = CHR ''.'') s"
  have ds: "c \<in> set ?ds \<Longrightarrow> is_digit c \<or> c = CHR ''.''" for c by (auto dest: set_takeWhileD)
  have w: "whole = takeWhile (\<lambda>c. c \<noteq> CHR ''.'') ?ds" and f: "fraction = drop 1 (dropWhile (\<lambda>c. c \<noteq> CHR ''.'') ?ds)"
    using assms(1) by (simp_all add: split_dot_def)
  show "list_all is_digit whole"
    unfolding w list_all_iff using ds by (meson set_takeWhileD)
  have "set fraction \<subseteq> set ?ds" unfolding f by (meson order_trans set_drop_subset set_dropWhileD subsetI)
  with ds assms(2) show "list_all is_digit fraction" by (auto simp: list_all_iff)
qed

lemma scaled_value:
  assumes "scaled w sc fraction m = Some n" "list_all is_digit fraction" "length fraction \<le> 18"
    "digits_value 10 fraction 0 = Some f"
  shows "n = (w * sc + int f) * m"
proof (cases "fraction = []")
  case True
  with assms show ?thesis by (auto simp: scaled_def bind_eq_Some_conv dest!: checked_fits)
next
  case False
  have "f < 10 ^ length fraction" using digits_value_some [OF assms(2), of 0] assms(4) by simp
  also have "\<dots> \<le> 10 ^ 18" using assms(3) by (intro power_increasing) simp_all
  finally have "i128_from_str_radix 10 fraction = Some (int f)"
    by (simp add: from_str_radix_digits [OF assms(2) False assms(4)] checked_def i128_fits_def)
  with False assms(1) show ?thesis by (auto simp: scaled_def bind_eq_Some_conv dest!: checked_fits)
qed

lemma smod_zero: "0 \<le> n \<Longrightarrow> 0 < k \<Longrightarrow> n smod k = 0 \<Longrightarrow> n sdiv k * k = n" for n k :: int
  by (auto simp: signed_divide_int_def signed_modulo_int_def sgn_if split: if_splits)

subsection \<open>An example\<close>

text \<open>Libraries that accept everything, and the expression \<open>src.size > 10B\<close> compiled with them.\<close>

definition sample_libraries :: "unit libraries" where
  "sample_libraries = \<lparr>lib_glob = Inr, lib_regex = (\<lambda>_. Inr ()), lib_time = (\<lambda>_. Inr 0)\<rparr>"

definition sample_node :: "unit node" where
  "sample_node = Binary OpGt (Field False FSize) (Literal (Quantity 10 TSize))"

lemmas lexer_evals = lex_def lex_token_def is_whitespace_def is_digit_def is_alpha_def
  is_alphanumeric_def byte_def symbols_def starts_with_def expr_require_def Let_def

lemmas number_evals = number_def decimal_number_def suffixes_def i128_from_str_radix_def scaled_def
  checked_def i128_fits_def signed_divide_int_def signed_modulo_int_def split_dot_def to_digit_def

lemmas parser_evals = p_bind_def p_take_def p_peek_def p_result_def p_return_def p_leave_def
  precedence_def word_precedence_def symbol_precedence_def word_field_def split_dot_def
  field_parse_def field_names_def expr_require_def Let_def

lemmas fuel_numerals = expression.simps(2) [where fuel = "pred_numeral k" for k, folded numeral_eq_Suc]
  operators.simps(2) [where fuel = "pred_numeral k" for k, folded numeral_eq_Suc]
  prefix_form.simps(2) [where fuel = "pred_numeral k" for k, folded numeral_eq_Suc]

lemma sample_tokens: "lex ''src.size > 10B'' =
    Inr [(Word ''src.size'', 0), (Symbol ''>'', 9), (NumberTok ''10B'', 11), (EndTok, 14)]"
  by (simp add: lexer_evals)

lemma sample_number: "number ''10B'' = Inr (Quantity 10 TSize)" "decimal_number ''1.5KiB'' = Inr (Quantity 1536 TSize)"
  by (simp_all add: number_evals lexer_evals)

lemma sample_compiled: "compile sample_libraries ''src.size > 10B'' False = Some (Inr sample_node)"
  by (simp add: compile_def parse_def sample_tokens sample_number(1) parser_evals fuel_numerals
      binary_type_def value_ty_def sample_node_def)

definition sample_object :: s3_object where
  "sample_object = \<lparr>obj_key = ''a'', obj_size = 20, obj_metadata = None, obj_mtime = 0\<rparr>"

lemmas file_evals = expression_file_def file_default_def object_kind_of_def is_directory_marker_def
  file_field_def facts_field_def quantity_def listing_facts_def sample_object_def

subsection \<open>The properties\<close>

text \<open>C34. Compiling an expression always ends with a node or an error: for every text, every regex,
  glob and time library and both kinds of expression it neither panics on a token index nor
  recurses without end, and an accepted expression has at most 512 parts.\<close>

theorem compile_returns:
  "\<exists>r. compile L text' destination = Some r \<and> (case r of Inl e \<Rightarrow> True | Inr n \<Rightarrow> nodes n \<le> 512)"
proof -
  obtain r where "parse L text' destination = Some r" "\<forall>n. r = Inr n \<longrightarrow> nodes n \<le> 512"
    using parse_returns by blast
  then show ?thesis by (auto simp: compile_def and_then_Inr split: sum.split)
qed

lemma compile_Inr:
  assumes "compile L text' d = Some (Inr n)"
  shows "node_ok L d n" "node_ty n = Inr TBool"
  using assms parse_returns [of L text' d]
  by (auto simp: compile_def and_then_Inr expr_require_def split: if_splits)

text \<open>A \<open>--where\<close> expression reads the source only: evaluating an expression compiled without
  destination fields gives the same result for any two destinations.\<close>

lemma where_ignores_destination:
  assumes "compile L text' False = Some (Inr n)"
  shows "evaluate m n src sp dst dp now = evaluate m n src sp dst' dp' now"
proof -
  have "source_only n" using compile_Inr(1) [OF assms] by (simp add: node_ok_def)
  from eval_source_only [OF this, where m = m and c = "\<lparr>c_src = Complete src, c_dst = Complete dst,
      c_src_path = sp, c_dst_path = dp, c_now = now\<rparr>" and dst = "Complete dst'" and p = dp']
  show ?thesis by (simp add: evaluate_def)
qed




text \<open>C36. Evaluation on partial metadata is exact: when it decides, it decides as evaluation on the
  full metadata of the same entries does, with the same value or the same error.\<close>

theorem known_evaluation_exact:
  assumes "file_of src f" "file_of dst g"
  shows "evaluate_known m e src sp dst dp now = Inr None \<or>
    evaluate_known m e src sp dst dp now = and_then (evaluate m e f sp g dp now) (\<lambda>b. Inr (Some b))"
  by (rule evaluate_known_refines [OF assms])

theorem known_evaluation_exact_witness:
  "evaluate_known (\<lambda>_ _. True) sample_node (listing_facts sample_object) [] Unread [] 0 = Inr (Some True) \<and>
    evaluate (\<lambda>_ _. True) sample_node (expression_file sample_object) [] file_default [] 0 = Inr True"
proof -
  have k: "evaluate_known (\<lambda>_ _. True) sample_node (listing_facts sample_object) [] Unread [] 0 = Inr (Some True)"
    by (simp add: evaluate_known_def sample_node_def file_evals binary_def binary_type_def value_ty_def
        expr_require_def compare_values_def ordered_def boolean_def)
  have "file_of Unread file_default" by (simp add: file_of_def)
  from known_evaluation_exact [OF file_of_listing this, of "\<lambda>_ _. True" sample_node sample_object "[]" "[]" 0] k
  show ?thesis by (auto simp: eq_commute [of "Inr (Some True)"] and_then_Inr)
qed



text \<open>Times the policy does not use do not matter: when no expression of a policy names the S3
  time of the source, both decisions are the same whatever that time is.\<close>

lemma unused_s3_time_ignored:
  assumes "\<not> policy_uses_source_s3_time p"
  shows "selects m p (f\<lparr>f_s3_last_modified := t\<rparr>) sp = selects m p f sp \<and>
    permits m p (f\<lparr>f_s3_last_modified := t\<rparr>) sp g dp = permits m p f sp g dp"
proof -
  have "evaluate m e (f\<lparr>f_s3_last_modified := t\<rparr>) sp g dp now = evaluate m e f sp g dp now"
    if "\<not> uses_source_s3_time e" for e g dp now
    using eval_set_source_s3_time [OF that, where m = m and t = t and c = "\<lparr>c_src = Complete f,
      c_dst = Complete g, c_src_path = sp, c_dst_path = dp, c_now = now\<rparr>"]
    by (simp add: evaluate_def set_source_s3_time_def)
  with assms show ?thesis
    by (auto simp: policy_uses_source_s3_time_def selects_def permits_def split: option.splits)
qed

text \<open>Any byte string can be written as a literal: the lexer reads the text that escapes every
  byte as one string token with exactly those bytes.\<close>

lemma lex_quoted_string: "lex (quoted s) = Inr [(StringTok s, 0), (EndTok, length (quoted s))]"
  using lex_string_quoted [of s "[]" "[]"]
  by (simp add: lex_def quoted_def lex_token_def is_whitespace_def byte_def expr_require_def)

text \<open>Decimal quantities are exact: a number with a unit is accepted only if it is a whole
  number of the base unit, and its value is then exactly the written decimal times the unit.\<close>

lemma decimal_quantity_exact:
  assumes "decimal_number s = Inr (Quantity n t)"
  shows "\<exists>whole fraction w f unit.
    split_dot (takeWhile (\<lambda>c. is_digit c \<or> c = CHR ''.'') s) = (whole, fraction) \<and>
    digits_value 10 whole 0 = Some w \<and> digits_value 10 fraction 0 = Some f \<and>
    map_of suffixes (dropWhile (\<lambda>c. is_digit c \<or> c = CHR ''.'') s) = Some (unit, t) \<and>
    n * 10 ^ length fraction = (int w * 10 ^ length fraction + int f) * unit"
proof -
  obtain whole fraction where sp: "split_dot (takeWhile (\<lambda>c. is_digit c \<or> c = CHR ''.'') s) = (whole, fraction)"
    by fastforce
  from assms obtain unit w' q where r: "map_of suffixes (dropWhile (\<lambda>c. is_digit c \<or> c = CHR ''.'') s) = Some (unit, t)"
      "length fraction \<le> 18" "CHR ''.'' \<notin> set fraction" "i128_from_str_radix 10 whole = Some w'"
      "scaled w' (10 ^ length fraction) fraction unit = Some q" "q smod 10 ^ length fraction = 0"
      "n = q sdiv 10 ^ length fraction"
    by (auto simp: decimal_number_def Let_def sp and_then_Inr expr_require_def split: option.splits if_splits)
  note D = split_dot_digits [OF sp r(3)]
  obtain w f where wf: "digits_value 10 whole 0 = Some w" "digits_value 10 fraction 0 = Some f"
    using digits_value_some [OF D(1), of 0] digits_value_some [OF D(2), of 0] by blast
  have "whole \<noteq> []" using r(4) by (auto simp: i128_from_str_radix_def)
  then have w': "w' = int w"
    using r(4) from_str_radix_digits [OF D(1) _ wf(1)] by (auto simp: checked_def split: if_splits)
  have q: "q = (int w * 10 ^ length fraction + int f) * unit"
    using scaled_value [OF r(5) D(2) r(2) wf(2)] w' by simp
  have "0 < unit" using r(1) by (auto simp: suffixes_def split: if_splits)
  then have "0 \<le> q" by (simp add: q)
  from smod_zero [OF this _ r(6)] q r(1,7) sp wf show ?thesis by auto
qed

text \<open>An escape of one hexadecimal digit after a plus sign is accepted: the lexer reads the
  literal with the escape \<open>\\x+5\<close> as the byte 5, where the language asks for two digits.\<close>

lemma plus_sign_escape_accepted:
  "lex [CHR 0x22, CHR 0x5C, CHR ''x'', CHR ''+'', CHR ''5'', CHR 0x22] = Inr [(StringTok [CHR 0x05], 0), (EndTok, 6)]"
  by (simp add: lexer_evals escape_def get_two_def u8_from_str_radix_def to_digit_def continuation_byte_def
      char_of_def bit_Suc_0_iff)

end
