(* ===== verification/Hashing.thy ===== *)
theory Hashing
  imports Bytes
begin

section \<open>File checksums\<close>

text \<open>
  \<open>src/src/hashing.rs\<close>: the four hash algorithms, their streaming form, the digests a user or a
  signed mapping expects of a file, and the check of a file against them. The hash functions
  themselves are third-party code: an \<open>engine\<close> per algorithm is a parameter, and
  \<open>engine_streams\<close> and \<open>engine_width\<close> state what their documentation promises, that feeding the
  input in pieces gives the digest of the whole and that digests have a fixed width.

  A reader is the list of the results of its successive calls of \<open>read\<close>; an empty read or the end
  of the list is the end of the file.
\<close>

subsection \<open>Algorithms\<close>

datatype hash_algorithm = Blake3 | Sha256 | Md5 | Xxh3

datatype hash_error =
    UnknownAlgorithm string
  | MalformedHash hash_algorithm nat
  | HashMismatch hash_algorithm string string
  | ConflictingHashes hash_algorithm
  | MissingColon
  | InvalidHashSet
  | DuplicateAlgorithm
  | ReadFailed string

fun algorithm_as_str :: "hash_algorithm \<Rightarrow> string" where
  "algorithm_as_str Blake3 = ''blake3''"
| "algorithm_as_str Sha256 = ''sha256''"
| "algorithm_as_str Md5 = ''md5''"
| "algorithm_as_str Xxh3 = ''xxh3-128''"

fun output_len :: "hash_algorithm \<Rightarrow> nat" where
  "output_len Blake3 = 32"
| "output_len Sha256 = 32"
| "output_len Md5 = 16"
| "output_len Xxh3 = 16"

definition algorithm_from_str :: "string \<Rightarrow> hash_error + hash_algorithm" where
  "algorithm_from_str s =
     (if s = ''blake3'' then Inr Blake3
      else if s = ''sha256'' then Inr Sha256
      else if s = ''md5'' then Inr Md5
      else if s = ''xxh3-128'' then Inr Xxh3
      else Inl (UnknownAlgorithm s))"

subsection \<open>Hashers\<close>

record ('s, 'o) engine =
  eng_new :: 's
  eng_update :: "'s \<Rightarrow> string \<Rightarrow> 's"
  eng_finalize :: "'s \<Rightarrow> 'o"
  eng_hash :: "string \<Rightarrow> 'o"

record ('b, 's, 'm, 'x) hash_library =
  lib_blake3 :: "('b, string) engine"
  lib_sha256 :: "('s, string) engine"
  lib_md5 :: "('m, string) engine"
  lib_xxh3 :: "('x, nat) engine"

text \<open>\<open>u128::to_be_bytes\<close>.\<close>

definition to_be_bytes :: "nat \<Rightarrow> string" where
  "to_be_bytes n = map (\<lambda>i. char_of (n div 256 ^ (15 - i) mod 256)) [0..<16]"

text \<open>The fixed-width digest: the short ones are padded with zeros.\<close>

definition padded :: "string \<Rightarrow> string" where
  "padded d = d @ replicate (32 - length d) (CHR 0x00)"

fun algorithm_hash :: "('b, 's, 'm, 'x) hash_library \<Rightarrow> hash_algorithm \<Rightarrow> string \<Rightarrow> string" where
  "algorithm_hash L Blake3 bs = eng_hash (lib_blake3 L) bs"
| "algorithm_hash L Sha256 bs = eng_hash (lib_sha256 L) bs"
| "algorithm_hash L Md5 bs = padded (eng_hash (lib_md5 L) bs)"
| "algorithm_hash L Xxh3 bs = padded (to_be_bytes (eng_hash (lib_xxh3 L) bs))"

datatype ('b, 's, 'm, 'x) hasher = HBlake3 'b | HSha256 's | HMd5 'm | HXxh3 'x

fun algorithm_hasher :: "('b, 's, 'm, 'x) hash_library \<Rightarrow> hash_algorithm \<Rightarrow> ('b, 's, 'm, 'x) hasher" where
  "algorithm_hasher L Blake3 = HBlake3 (eng_new (lib_blake3 L))"
| "algorithm_hasher L Sha256 = HSha256 (eng_new (lib_sha256 L))"
| "algorithm_hasher L Md5 = HMd5 (eng_new (lib_md5 L))"
| "algorithm_hasher L Xxh3 = HXxh3 (eng_new (lib_xxh3 L))"

fun hasher_update :: "('b, 's, 'm, 'x) hash_library \<Rightarrow> ('b, 's, 'm, 'x) hasher \<Rightarrow> string \<Rightarrow>
    ('b, 's, 'm, 'x) hasher" where
  "hasher_update L (HBlake3 h) bs = HBlake3 (eng_update (lib_blake3 L) h bs)"
| "hasher_update L (HSha256 h) bs = HSha256 (eng_update (lib_sha256 L) h bs)"
| "hasher_update L (HMd5 h) bs = HMd5 (eng_update (lib_md5 L) h bs)"
| "hasher_update L (HXxh3 h) bs = HXxh3 (eng_update (lib_xxh3 L) h bs)"

fun hasher_finalize :: "('b, 's, 'm, 'x) hash_library \<Rightarrow> ('b, 's, 'm, 'x) hasher \<Rightarrow> string" where
  "hasher_finalize L (HBlake3 h) = eng_finalize (lib_blake3 L) h"
| "hasher_finalize L (HSha256 h) = eng_finalize (lib_sha256 L) h"
| "hasher_finalize L (HMd5 h) = padded (eng_finalize (lib_md5 L) h)"
| "hasher_finalize L (HXxh3 h) = padded (to_be_bytes (eng_finalize (lib_xxh3 L) h))"

subsection \<open>Policies\<close>

record hash_policy =
  hp_algorithm :: hash_algorithm
  hp_transfer_integrity :: bool
  hp_transfer_hash_type :: "hash_algorithm option"

definition payload_algorithm :: "hash_policy \<Rightarrow> hash_algorithm" where
  "payload_algorithm p =
     (case hp_transfer_hash_type p of Some a \<Rightarrow> a | None \<Rightarrow> hp_algorithm p)"

subsection \<open>Digests\<close>

record digest =
  dg_algorithm :: hash_algorithm
  dg_value :: string

text \<open>The hashing of a copy, from the three command-line arguments it reads.\<close>

record copy_hashing =
  ch_policy :: hash_policy
  ch_expected_hash :: "digest option"

definition copy_hashing_from_args ::
  "hash_algorithm \<Rightarrow> bool \<Rightarrow> hash_algorithm option \<Rightarrow> copy_hashing" where
  "copy_hashing_from_args algorithm transfer_integrity transfer_hash_type =
     \<lparr>ch_policy = \<lparr>hp_algorithm = algorithm, hp_transfer_integrity = transfer_integrity,
        hp_transfer_hash_type = transfer_hash_type\<rparr>,
      ch_expected_hash = None\<rparr>"

definition digest_new :: "hash_algorithm \<Rightarrow> string \<Rightarrow> hash_error + digest" where
  "digest_new a v =
     (if length v \<noteq> output_len a * 2 \<or> \<not> list_all is_ascii_hexdigit v
      then Inl (MalformedHash a (output_len a * 2))
      else Inr \<lparr>dg_algorithm = a, dg_value = map ascii_lowercase v\<rparr>)"

definition digest_validate :: "digest \<Rightarrow> hash_error + unit" where
  "digest_validate d = map_sum id (\<lambda>_. ()) (digest_new (dg_algorithm d) (dg_value d))"

definition digest_from_hash :: "hash_algorithm \<Rightarrow> string \<Rightarrow> digest" where
  "digest_from_hash a h = \<lparr>dg_algorithm = a, dg_value = concat (map hex_byte (take (output_len a) h))\<rparr>"

definition digest_hash_bytes ::
  "('b, 's, 'm, 'x) hash_library \<Rightarrow> hash_algorithm \<Rightarrow> string \<Rightarrow> digest" where
  "digest_hash_bytes L a bs = digest_from_hash a (algorithm_hash L a bs)"

definition digest_verify :: "digest \<Rightarrow> string \<Rightarrow> hash_error + unit" where
  "digest_verify d actual =
     (let actual = digest_from_hash (dg_algorithm d) actual
      in if actual \<noteq> d then Inl (HashMismatch (dg_algorithm d) (dg_value d) (dg_value actual))
         else Inr ())"

definition digest_from_str :: "string \<Rightarrow> hash_error + digest" where
  "digest_from_str s =
     (case split_once (CHR '':'') s of
        None \<Rightarrow> Inl MissingColon
      | Some (a, v) \<Rightarrow> and_then (algorithm_from_str a) (\<lambda>a. digest_new a v))"

definition digest_display :: "digest \<Rightarrow> string" where
  "digest_display d = algorithm_as_str (dg_algorithm d) @ '':'' @ dg_value d"

subsection \<open>Checking a file\<close>

type_synonym reader = "(string + string) list"

fun read_into :: "('h \<Rightarrow> string \<Rightarrow> 'h) \<Rightarrow> reader \<Rightarrow> 'h \<Rightarrow> hash_error + 'h" where
  "read_into update [] h = Inr h"
| "read_into update (Inl e # r) h = Inl (ReadFailed e)"
| "read_into update (Inr bs # r) h = (if bs = [] then Inr h else read_into update r (update h bs))"

definition digest_verify_reader ::
  "('b, 's, 'm, 'x) hash_library \<Rightarrow> digest \<Rightarrow> reader \<Rightarrow> hash_error + unit" where
  "digest_verify_reader L d r =
     and_then (read_into (hasher_update L) r (algorithm_hasher L (dg_algorithm d)))
       (\<lambda>h. digest_verify d (hasher_finalize L h))"

datatype expected_hashes = Single digest | Multiple "digest list"

fun collect_distinct :: "digest list \<Rightarrow> digest list \<Rightarrow> hash_error + digest list" where
  "collect_distinct [] known = Inr known"
| "collect_distinct (d # ds) known =
     (case find (\<lambda>p. dg_algorithm p = dg_algorithm d) known of
        Some p \<Rightarrow> if p \<noteq> d then Inl (ConflictingHashes (dg_algorithm d)) else collect_distinct ds known
      | None \<Rightarrow> collect_distinct ds (known @ [d]))"

definition expected_collect :: "digest list \<Rightarrow> hash_error + expected_hashes option" where
  "expected_collect ds =
     and_then (collect_distinct ds [])
       (\<lambda>known. Inr (case known of
          [] \<Rightarrow> None
        | [d] \<Rightarrow> Some (Single d)
        | _ \<Rightarrow> Some (Multiple known)))"

fun check_set :: "digest list \<Rightarrow> digest list \<Rightarrow> hash_error + unit" where
  "check_set before [] = Inr ()"
| "check_set before (d # ds) =
     and_then (digest_validate d) (\<lambda>_.
       if list_all (\<lambda>p. dg_algorithm p \<noteq> dg_algorithm d) before then check_set (before @ [d]) ds
       else Inl DuplicateAlgorithm)"

fun verify_all :: "('b, 's, 'm, 'x) hash_library \<Rightarrow>
    (digest \<times> ('b, 's, 'm, 'x) hasher) list \<Rightarrow> hash_error + unit" where
  "verify_all L [] = Inr ()"
| "verify_all L ((d, h) # ps) =
     and_then (digest_verify d (hasher_finalize L h)) (\<lambda>_. verify_all L ps)"

fun expected_verify_reader ::
  "('b, 's, 'm, 'x) hash_library \<Rightarrow> expected_hashes \<Rightarrow> reader \<Rightarrow> hash_error + unit" where
  "expected_verify_reader L (Single d) r = digest_verify_reader L d r"
| "expected_verify_reader L (Multiple ds) r =
     (if \<not> (2 \<le> length ds \<and> length ds \<le> 4) then Inl InvalidHashSet
      else and_then (check_set [] ds) (\<lambda>_.
        and_then (read_into (\<lambda>hs bs. map (\<lambda>h. hasher_update L h bs) hs) r
            (map (\<lambda>d. algorithm_hasher L (dg_algorithm d)) ds))
          (\<lambda>hs. verify_all L (zip ds hs))))"

subsection \<open>Streaming\<close>

definition engine_streams :: "('s, 'o) engine \<Rightarrow> bool" where
  "engine_streams e \<longleftrightarrow>
     (\<forall>chunks. eng_finalize e (foldl (eng_update e) (eng_new e) chunks) = eng_hash e (concat chunks))"

definition library_streams :: "('b, 's, 'm, 'x) hash_library \<Rightarrow> bool" where
  "library_streams L \<longleftrightarrow> engine_streams (lib_blake3 L) \<and> engine_streams (lib_sha256 L) \<and>
     engine_streams (lib_md5 L) \<and> engine_streams (lib_xxh3 L)"

lemma foldl_hasher_update:
  "foldl (hasher_update L) (HBlake3 b) cs = HBlake3 (foldl (eng_update (lib_blake3 L)) b cs)"
  "foldl (hasher_update L) (HSha256 s) cs = HSha256 (foldl (eng_update (lib_sha256 L)) s cs)"
  "foldl (hasher_update L) (HMd5 m) cs = HMd5 (foldl (eng_update (lib_md5 L)) m cs)"
  "foldl (hasher_update L) (HXxh3 x) cs = HXxh3 (foldl (eng_update (lib_xxh3 L)) x cs)"
  by (induction cs arbitrary: b s m x) simp_all

lemma hasher_streams:
  "library_streams L \<Longrightarrow>
     hasher_finalize L (foldl (hasher_update L) (algorithm_hasher L a) cs) = algorithm_hash L a (concat cs)"
  by (cases a) (simp_all add: foldl_hasher_update library_streams_def engine_streams_def)

lemma foldl_map_update:
  "foldl (\<lambda>hs bs. map (\<lambda>h. u h bs) hs) (map f ds) cs = map (\<lambda>d. foldl u (f d) cs) ds"
  by (induction cs arbitrary: f) (simp_all add: comp_def)

text \<open>What a reader delivers before the end of the file, or the error it stops with.\<close>

fun reader_chunks :: "reader \<Rightarrow> string + string list" where
  "reader_chunks [] = Inr []"
| "reader_chunks (Inl e # r) = Inl e"
| "reader_chunks (Inr bs # r) = (if bs = [] then Inr [] else map_sum id ((#) bs) (reader_chunks r))"

definition reader_contents :: "reader \<Rightarrow> string + string" where
  "reader_contents r = map_sum id concat (reader_chunks r)"

lemma read_into_chunks:
  "read_into u r h = map_sum ReadFailed (foldl u h) (reader_chunks r)"
  by (induction u r h rule: read_into.induct) (simp_all add: sum.map_comp comp_def)

subsection \<open>Digests of a file\<close>

lemma digest_verify_iff: "digest_verify d h = Inr () \<longleftrightarrow> digest_from_hash (dg_algorithm d) h = d"
  by (simp add: digest_verify_def Let_def)

lemma verify_all_iff:
  "verify_all L ps = Inr () \<longleftrightarrow>
     (\<forall>(d, h) \<in> set ps. digest_from_hash (dg_algorithm d) (hasher_finalize L h) = d)"
  by (induction L ps rule: verify_all.induct) (auto simp: and_then_Inr digest_verify_iff)

lemma check_set_iff:
  "check_set before ds = Inr () \<longleftrightarrow> list_all (\<lambda>d. digest_validate d = Inr ()) ds \<and>
     distinct (map dg_algorithm ds) \<and>
     (\<forall>d \<in> set ds. \<forall>p \<in> set before. dg_algorithm p \<noteq> dg_algorithm d)"
  by (induction before ds rule: check_set.induct) (auto simp: and_then_Inr list_all_iff split: if_splits)

lemma distinct_algorithms: "distinct (map dg_algorithm ds) \<Longrightarrow> length ds \<le> 4"
proof -
  assume "distinct (map dg_algorithm ds)"
  then have "length ds = card (dg_algorithm ` set ds)"
    using distinct_card [of "map dg_algorithm ds"] by simp
  also have "\<dots> \<le> card {Blake3, Sha256, Md5, Xxh3}"
    using hash_algorithm.exhaust by (intro card_mono) blast+
  finally show ?thesis by simp
qed

lemma collect_distinct_ok:
  assumes "collect_distinct ds known = Inr out" "distinct (map dg_algorithm known)"
  shows "set out = set known \<union> set ds \<and> distinct (map dg_algorithm out)"
  using assms
proof (induction ds known rule: collect_distinct.induct)
  case (2 d ds known)
  show ?case
  proof (cases "find (\<lambda>p. dg_algorithm p = dg_algorithm d) known")
    case None
    then have "dg_algorithm d \<notin> dg_algorithm ` set known" by (auto simp: find_None_iff)
    with 2 None show ?thesis by auto
  next
    case (Some p)
    then have "p \<in> set known" by (auto simp: find_Some_iff)
    with 2 Some show ?thesis by (auto split: if_splits)
  qed
qed simp

lemma collect_distinct_conflict:
  assumes "collect_distinct ds known = Inl e"
  shows "\<exists>d \<in> set known \<union> set ds. \<exists>d' \<in> set known \<union> set ds. dg_algorithm d = dg_algorithm d' \<and> d \<noteq> d'"
  using assms
proof (induction ds known rule: collect_distinct.induct)
  case (2 d ds known)
  show ?case
  proof (cases "find (\<lambda>p. dg_algorithm p = dg_algorithm d) known")
    case None
    with 2 show ?thesis by auto
  next
    case (Some p)
    then have "p \<in> set known" "dg_algorithm p = dg_algorithm d" by (auto simp: find_Some_iff)
    with 2 Some show ?thesis by (auto split: if_splits)
  qed
qed simp

lemma expected_verify_iff:
  assumes L: "library_streams L" and r: "reader_contents r = Inr bs"
    and ds: "distinct (map dg_algorithm ds)" "list_all (\<lambda>d. digest_validate d = Inr ()) ds"
    and e: "e = (case ds of [d] \<Rightarrow> Single d | _ \<Rightarrow> Multiple ds)" "ds \<noteq> []"
  shows "expected_verify_reader L e r = Inr () \<longleftrightarrow>
    (\<forall>d \<in> set ds. digest_hash_bytes L (dg_algorithm d) bs = d)"
proof -
  obtain cs where cs: "reader_chunks r = Inr cs" "bs = concat cs"
    using r by (cases "reader_chunks r") (auto simp: reader_contents_def)
  show ?thesis
  proof (cases "length ds = 1")
    case True
    then obtain d where "ds = [d]" by (auto simp: length_Suc_conv)
    with e cs show ?thesis
      by (simp add: digest_verify_reader_def read_into_chunks hasher_streams [OF L]
          digest_verify_iff digest_hash_bytes_def)
  next
    case False
    with e have "e = Multiple ds" "2 \<le> length ds"
      by (auto split: list.splits simp: Suc_le_eq)
    with ds cs show ?thesis
      by (auto simp: distinct_algorithms read_into_chunks foldl_map_update check_set_iff
          verify_all_iff zip_map2 zip_same_conv_map and_then_Inr hasher_streams [OF L] digest_hash_bytes_def)
  qed
qed

subsection \<open>Digests as text\<close>

lemma lowercase_hexdigit:
  assumes "is_ascii_hexdigit c"
  shows "is_ascii_hexdigit (ascii_lowercase c)" "ascii_lowercase (ascii_lowercase c) = ascii_lowercase c"
  using assms by (auto simp: is_ascii_hexdigit_def is_digit_def ascii_lowercase_def byte_char_of)

lemma digest_new_idem:
  assumes "digest_new a v = Inr d"
  shows "digest_new (dg_algorithm d) (dg_value d) = Inr d"
  using assms
  by (auto simp: digest_new_def list_all_iff lowercase_hexdigit split: if_splits)

lemma digest_new_valid: "digest_new a v = Inr d \<Longrightarrow> digest_validate d = Inr ()"
  by (simp add: digest_validate_def digest_new_idem)

lemma algorithm_str_roundtrip: "algorithm_from_str (algorithm_as_str a) = Inr a"
  by (cases a) (simp_all add: algorithm_from_str_def)

lemma algorithm_str_no_colon: "CHR '':'' \<notin> set (algorithm_as_str a)"
  by (cases a) simp_all

lemma to_be_bytes_length [simp]: "length (to_be_bytes n) = 16"
  by (simp add: to_be_bytes_def)

lemma digest_from_hash_valid:
  "output_len a \<le> length h \<Longrightarrow> digest_validate (digest_from_hash a h) = Inr ()"
  using hex_bytes_digits [of _ "take (output_len a) h"]
  by (auto simp: digest_validate_def digest_from_hash_def digest_new_def list_all_iff)

text \<open>An engine that hashes by truncation, for concrete inputs.\<close>

definition sample_engine :: "(string \<Rightarrow> 'o) \<Rightarrow> (string, 'o) engine" where
  "sample_engine f = \<lparr>eng_new = [], eng_update = (@), eng_finalize = f, eng_hash = f\<rparr>"

definition sample_cut :: "nat \<Rightarrow> string \<Rightarrow> string" where
  "sample_cut n s = take n (s @ replicate n (CHR 0x00))"

definition sample_library :: "(string, string, string, string) hash_library" where
  "sample_library = \<lparr>lib_blake3 = sample_engine (sample_cut 32), lib_sha256 = sample_engine (sample_cut 32),
     lib_md5 = sample_engine (sample_cut 16), lib_xxh3 = sample_engine length\<rparr>"

lemma foldl_append: "foldl (@) s cs = s @ concat cs"
  by (induction cs arbitrary: s) simp_all

lemma sample_engine_streams: "engine_streams (sample_engine f)"
  by (simp add: engine_streams_def sample_engine_def foldl_append)

lemma sample_library_streams: "library_streams sample_library"
  by (simp add: library_streams_def sample_library_def sample_engine_streams)

subsection \<open>The properties\<close>

text \<open>C39. A file passes the expected hashes of its group exactly when every one of them is the hash of
  the whole file under its algorithm: collecting the digests (which merges equal ones and refuses
  two different ones of one algorithm) and reading the file once, however the reads are cut,
  succeeds if and only if each expected digest equals the digest of the contents. The bound of
  four digests never refuses a collected set.\<close>

theorem expected_hashes_exact:
  assumes "library_streams L" "reader_contents r = Inr bs"
    "list_all (\<lambda>d. digest_validate d = Inr ()) ds"
  shows "and_then (expected_collect ds) (\<lambda>e. case e of
      None \<Rightarrow> Inr () | Some e \<Rightarrow> expected_verify_reader L e r) = Inr () \<longleftrightarrow>
    (\<forall>d \<in> set ds. digest_hash_bytes L (dg_algorithm d) bs = d)"
proof (cases "collect_distinct ds []")
  case (Inl e)
  then obtain d d' where "d \<in> set ds" "d' \<in> set ds" "dg_algorithm d = dg_algorithm d'" "d \<noteq> d'"
    using collect_distinct_conflict by fastforce
  with Inl show ?thesis by (auto simp: expected_collect_def) metis
next
  case (Inr out)
  then have out: "set out = set ds" "distinct (map dg_algorithm out)"
    using collect_distinct_ok [OF Inr] by simp_all
  show ?thesis
  proof (cases "out = []")
    case False
    define e where "e = (case out of [d] \<Rightarrow> Single d | _ \<Rightarrow> Multiple out)"
    have "expected_collect ds = Inr (Some e)"
      using Inr False by (auto simp: expected_collect_def e_def split: list.splits)
    moreover have "list_all (\<lambda>d. digest_validate d = Inr ()) out"
      using assms(3) out(1) by (simp add: list_all_iff)
    ultimately show ?thesis
      using expected_verify_iff [OF assms(1,2) out(2) _ e_def False] out(1) by simp
  qed (use out Inr in \<open>simp add: expected_collect_def\<close>)
qed

theorem expected_hashes_exact_witness:
  "let ds = [digest_hash_bytes sample_library Md5 ''ab'', digest_hash_bytes sample_library Sha256 ''ab'']
   in and_then (expected_collect ds) (\<lambda>e. case e of
        None \<Rightarrow> Inr () | Some e \<Rightarrow> expected_verify_reader sample_library e [Inr ''a'', Inr ''b'']) = Inr ()"
proof -
  let ?ds = "[digest_hash_bytes sample_library Md5 ''ab'', digest_hash_bytes sample_library Sha256 ''ab'']"
  have "reader_contents [Inr ''a'', Inr ''b''] = Inr ''ab''" by (simp add: reader_contents_def)
  moreover have "list_all (\<lambda>d. digest_validate d = Inr ()) ?ds"
    by (simp add: digest_hash_bytes_def digest_from_hash_valid sample_library_def sample_engine_def
        sample_cut_def padded_def)
  ultimately show ?thesis
    using expected_hashes_exact [OF sample_library_streams, of "[Inr ''a'', Inr ''b'']" "''ab''" ?ds]
    by (simp add: digest_hash_bytes_def digest_from_hash_def)
qed

text \<open>C40. A digest prints and parses back to itself: whatever text \<open>Digest::new\<close> accepted, in
  either case of its hexadecimal digits, the form \<open>algorithm:hex\<close> that is displayed parses to the
  same digest.\<close>

theorem digest_text_roundtrip:
  assumes "digest_new a v = Inr d"
  shows "digest_from_str (digest_display d) = Inr d"
  using digest_new_idem [OF assms]
  by (simp add: digest_from_str_def digest_display_def split_once_append algorithm_str_no_colon
      algorithm_str_roundtrip)

theorem digest_text_roundtrip_witness:
  "digest_from_str (digest_display \<lparr>dg_algorithm = Md5, dg_value = replicate 32 (CHR ''a'')\<rparr>) =
     Inr \<lparr>dg_algorithm = Md5, dg_value = replicate 32 (CHR ''a'')\<rparr>"
proof -
  have "ascii_lowercase (CHR ''A'') = CHR ''a''"
    by (subst byte_inject [symmetric]) (simp add: ascii_lowercase_def byte_def)
  then have "digest_new Md5 (replicate 32 (CHR ''A'')) =
      Inr \<lparr>dg_algorithm = Md5, dg_value = replicate 32 (CHR ''a'')\<rparr>"
    by (simp add: digest_new_def list_all_iff is_ascii_hexdigit_def byte_def)
  then show ?thesis by (rule digest_text_roundtrip)
qed

end
