(* ===== verification/Manifest.thy ===== *)
theory Manifest
  imports Hashing Proto_Types "HOL-Library.Word"
begin

unbundle bit_operations_syntax

section \<open>Mapping manifests\<close>

text \<open>
  \<open>src/src/mapping.rs\<close> up to \<open>Authorization\<close>, and \<open>src/src/mapping/metadata.rs\<close>: the entries of a
  \<open>--mapping\<close> manifest, their validation, and the reading of a whole manifest with the checks that
  run before anything is written.

  A line of the manifest is JSON: \<open>serde_json\<close> and \<open>base64\<close> are third-party code, the two fields of
  \<open>wire_library\<close>. A \<open>HashMap\<close> is iterated in an order its documentation leaves open: the order is
  the argument \<open>order\<close> of \<open>validate_destinations\<close>, a listing of the keys. The texts of the
  errors are the constructors of \<open>mapping_error\<close>.
\<close>

subsection \<open>Explicit metadata\<close>

definition flag_mode :: "8 word" where "flag_mode = 1"
definition flag_owner :: "8 word" where "flag_owner = 2"
definition flag_group :: "8 word" where "flag_group = 4"
definition flag_times :: "8 word" where "flag_times = 8"
definition flag_receiver_mode :: "8 word" where "flag_receiver_mode = 16"
definition flag_mode_mask :: "8 word" where "flag_mode_mask = flag_mode OR flag_receiver_mode"
definition flag_require_owner :: "8 word" where "flag_require_owner = 32"
definition flag_require_group :: "8 word" where "flag_require_group = 64"
definition flag_report_identity :: "8 word" where "flag_report_identity = 128"

lemmas flag_defs = flag_mode_def flag_owner_def flag_group_def flag_times_def flag_receiver_mode_def
  flag_mode_mask_def flag_require_owner_def flag_require_group_def flag_report_identity_def

record metadata =
  md_mode :: "nat option"
  md_uid :: "nat option"
  md_gid :: "nat option"
  md_mtime :: "int option"
  md_mtime_nsec :: "nat option"

record meta =
  meta_mode :: nat
  meta_uid :: nat
  meta_gid :: nat
  meta_mtime :: int
  meta_mtime_nsec :: nat
  meta_inode :: "inode_metadata option"

datatype declared_kind = DeclFile | DeclDir | DeclSymlink | DeclSpecial

datatype mapping_error =
    JsonError string
  | UnknownKind string
  | ModeBits | ReservedUid | ReservedGid | NsecRange | NsecWithoutMtime | ModeOnSymlink
  | HashError hash_error
  | HashNeedsFile
  | InvalidBase64 string
  | UnknownEncoding string string
  | EmptyPath string | AbsolutePath string path_bytes | NulPath string | UnsafePath string path_bytes
  | NotUtf8
  | AtLine nat mapping_error
  | DuplicateDestination nat path_bytes
  | AncestorKind nat path_bytes path_bytes declared_kind
  | RestrictedLine nat | RestrictedDestination nat
  | DestinationTooLong
  | DuplicateEntry path_bytes
  | AncestorNotDirectory
  | EntryLimit
  | AdmissionClosed | AlreadyClosed
  | ChunkOutOfOrder | ChunkTooLarge | LengthOverflow | ExceedsSignedLength | LineTooLong
  | DigestMismatch
  | NotVerified
  | OutsideDestination

definition u32_max :: nat where
  "u32_max = 4294967295"

definition metadata_validate :: "metadata \<Rightarrow> mapping_error + unit" where
  "metadata_validate m =
     (if \<not> (case md_mode m of None \<Rightarrow> True | Some v \<Rightarrow> v \<le> 4095) then Inl ModeBits
      else if md_uid m = Some u32_max then Inl ReservedUid
      else if md_gid m = Some u32_max then Inl ReservedGid
      else if \<not> (case md_mtime_nsec m of None \<Rightarrow> True | Some ns \<Rightarrow> ns < 1000000000) then Inl NsecRange
      else if \<not> (md_mtime_nsec m = None \<or> md_mtime m \<noteq> None) then Inl NsecWithoutMtime
      else Inr ())"

definition metadata_validate_kind :: "metadata \<Rightarrow> kind \<Rightarrow> mapping_error + unit" where
  "metadata_validate_kind m k =
     (if k \<noteq> Symlink \<or> md_mode m = None then Inr () else Inl ModeOnSymlink)"

definition metadata_flags :: "metadata \<Rightarrow> 8 word" where
  "metadata_flags m =
     (if md_mode m \<noteq> None then flag_mode else 0) OR
     (if md_uid m \<noteq> None then flag_owner else 0) OR
     (if md_gid m \<noteq> None then flag_group else 0) OR
     (if md_mtime m \<noteq> None then flag_times else 0)"

definition metadata_apply_flags :: "metadata \<Rightarrow> 8 word" where
  "metadata_apply_flags m =
     metadata_flags m
     OR (if md_uid m \<noteq> None then flag_require_owner else 0)
     OR (if md_gid m \<noteq> None then flag_require_group else 0)"

definition metadata_apply :: "metadata \<Rightarrow> meta \<Rightarrow> meta" where
  "metadata_apply m t =
     (let t = (case md_mode m of None \<Rightarrow> t | Some v \<Rightarrow> t\<lparr>meta_mode := v\<rparr>);
          t = (case md_uid m of None \<Rightarrow> t | Some v \<Rightarrow> t\<lparr>meta_uid := v\<rparr>);
          t = (case md_gid m of None \<Rightarrow> t | Some v \<Rightarrow> t\<lparr>meta_gid := v\<rparr>)
      in case md_mtime m of
           None \<Rightarrow> t
         | Some v \<Rightarrow> t\<lparr>meta_mtime := v,
             meta_mtime_nsec := (case md_mtime_nsec m of None \<Rightarrow> 0 | Some ns \<Rightarrow> ns)\<rparr>)"

subsection \<open>Entries\<close>

fun declared_matches :: "declared_kind \<Rightarrow> kind \<Rightarrow> bool" where
  "declared_matches DeclFile k \<longleftrightarrow> k = File"
| "declared_matches DeclDir k \<longleftrightarrow> k = Dir"
| "declared_matches DeclSymlink k \<longleftrightarrow> k = Symlink"
| "declared_matches DeclSpecial k \<longleftrightarrow> k \<in> {Fifo, Socket, CharDev, BlockDev}"

fun declared_label :: "declared_kind \<Rightarrow> string" where
  "declared_label DeclFile = ''file''"
| "declared_label DeclDir = ''dir''"
| "declared_label DeclSymlink = ''symlink''"
| "declared_label DeclSpecial = ''special''"

record manifest_entry =
  me_src :: path_bytes
  me_dst :: path_bytes
  me_kind :: "declared_kind option"
  me_expected_hash :: "digest option"
  me_metadata :: "metadata option"

record wire_path =
  wp_encoding :: string
  wp_value :: string
  wp_display :: "string option"

record 'p wire_entry =
  we_src :: 'p
  we_dst :: 'p
  we_kind :: "string option"
  we_expected_hash :: "digest option"
  we_metadata :: "metadata option"
  we_size :: "nat option"
  we_mtime :: "int option"
  we_s3_last_modified :: "int option"

record wire_library =
  json_entry :: "string \<Rightarrow> string + wire_path wire_entry"
  base64_decode :: "string \<Rightarrow> string + string"

definition validate_manifest_path :: "path_bytes \<Rightarrow> string \<Rightarrow> mapping_error + unit" where
  "validate_manifest_path p which =
     (if p = [] then Inl (EmptyPath which)
      else if p ! 0 = CHR ''/'' then Inl (AbsolutePath which p)
      else if CHR 0x00 \<in> set p then Inl (NulPath which)
      else if list_ex (\<lambda>c. c = [] \<or> c = ''.'' \<or> c = ''..'') (split_on (CHR ''/'') p)
      then Inl (UnsafePath which p)
      else Inr ())"

definition wire_path_decode :: "wire_library \<Rightarrow> wire_path \<Rightarrow> string \<Rightarrow> mapping_error + path_bytes" where
  "wire_path_decode L w which =
     and_then
       (if wp_encoding w = ''utf-8'' then Inr (wp_value w)
        else if wp_encoding w = ''base64'' then
          (case base64_decode L (wp_value w) of Inl e \<Rightarrow> Inl (InvalidBase64 which) | Inr bs \<Rightarrow> Inr bs)
        else Inl (UnknownEncoding which (wp_encoding w)))
       (\<lambda>bs. and_then (validate_manifest_path bs which) (\<lambda>_. Inr bs))"

definition wire_kind :: "string option \<Rightarrow> mapping_error + declared_kind option" where
  "wire_kind k = (case k of
       None \<Rightarrow> Inr None
     | Some s \<Rightarrow>
         if s = ''file'' then Inr (Some DeclFile)
         else if s = ''dir'' then Inr (Some DeclDir)
         else if s = ''symlink'' then Inr (Some DeclSymlink)
         else if s = ''special'' then Inr (Some DeclSpecial)
         else Inl (UnknownKind s))"

definition wire_entry_validate :: "'p wire_entry \<Rightarrow> mapping_error + declared_kind option" where
  "wire_entry_validate w =
     and_then (wire_kind (we_kind w)) (\<lambda>kind.
     and_then (case we_metadata w of
         None \<Rightarrow> Inr ()
       | Some m \<Rightarrow> and_then (metadata_validate m) (\<lambda>_.
           if kind = Some DeclSymlink then metadata_validate_kind m Symlink else Inr ())) (\<lambda>_.
     and_then (case we_expected_hash w of
         None \<Rightarrow> Inr ()
       | Some d \<Rightarrow> and_then (map_sum HashError id (digest_validate d)) (\<lambda>_.
           if (case kind of None \<Rightarrow> False | Some k \<Rightarrow> k \<noteq> DeclFile) then Inl HashNeedsFile
           else Inr ())) (\<lambda>_.
     Inr kind)))"

definition parse_manifest_entry :: "wire_library \<Rightarrow> string \<Rightarrow> mapping_error + manifest_entry" where
  "parse_manifest_entry L text =
     and_then (map_sum JsonError id (json_entry L text)) (\<lambda>w.
     and_then (wire_entry_validate w) (\<lambda>kind.
     and_then (wire_path_decode L (we_src w) ''src'') (\<lambda>src.
     and_then (wire_path_decode L (we_dst w) ''dst'') (\<lambda>dst.
     Inr \<lparr>me_src = src, me_dst = dst, me_kind = kind, me_expected_hash = we_expected_hash w,
       me_metadata = we_metadata w\<rparr>))))"

subsection \<open>Manifests\<close>

definition CHUNK_BYTES :: nat where
  "CHUNK_BYTES = 1024 * 1024"

definition MAX_PATH_BYTES :: nat where
  "MAX_PATH_BYTES = 4096"

record mapping_input =
  mi_contents :: string
  mi_restricted_bounds_error :: "mapping_error option"

record parsed_manifest =
  pm_input :: mapping_input
  pm_entries :: "(nat \<times> manifest_entry) list"

text \<open>The text of a line, and whether an entry of this kind is declared as something else than a directory.\<close>

definition line_text :: "string \<Rightarrow> string" where
  "line_text l = trim_end_matches (CHR 0x0D) (trim_end_matches (CHR 0x0A) l)"

definition not_dir :: "declared_kind option \<Rightarrow> bool" where
  "not_dir k = (case k of None \<Rightarrow> False | Some k \<Rightarrow> k \<noteq> DeclDir)"

text \<open>The path up to each of its slashes.\<close>

definition ancestors :: "path_bytes \<Rightarrow> path_bytes list" where
  "ancestors p = map (\<lambda>i. take i p) (filter (\<lambda>i. p ! i = CHR ''/'') [0..<length p])"

fun declare_destinations ::
  "(nat \<times> path_bytes \<times> declared_kind option) list \<Rightarrow>
   (path_bytes \<rightharpoonup> nat \<times> declared_kind option) \<Rightarrow>
   mapping_error + (path_bytes \<rightharpoonup> nat \<times> declared_kind option)" where
  "declare_destinations [] declared = Inr declared"
| "declare_destinations ((line, p, kind) # es) declared =
     (if declared p \<noteq> None then Inl (DuplicateDestination line p)
      else declare_destinations es (declared(p \<mapsto> (line, kind))))"

fun check_ancestors ::
  "(path_bytes \<rightharpoonup> nat \<times> declared_kind option) \<Rightarrow> nat \<Rightarrow> path_bytes \<Rightarrow> path_bytes list \<Rightarrow>
   mapping_error + unit" where
  "check_ancestors declared line p [] = Inr ()"
| "check_ancestors declared line p (a # as) =
     (case declared a of
        Some (_, Some k) \<Rightarrow>
          if k \<noteq> DeclDir then Inl (AncestorKind line a p k)
          else check_ancestors declared line p as
      | _ \<Rightarrow> check_ancestors declared line p as)"

fun check_declared ::
  "(path_bytes \<rightharpoonup> nat \<times> declared_kind option) \<Rightarrow> path_bytes list \<Rightarrow> mapping_error + unit" where
  "check_declared declared [] = Inr ()"
| "check_declared declared (p # ps) =
     and_then (check_ancestors declared
         (case declared p of Some (line, _) \<Rightarrow> line | None \<Rightarrow> 0) p (ancestors p))
       (\<lambda>_. check_declared declared ps)"

definition validate_destinations ::
  "(path_bytes set \<Rightarrow> path_bytes list) \<Rightarrow> (nat \<times> path_bytes \<times> declared_kind option) list \<Rightarrow>
   mapping_error + unit" where
  "validate_destinations order es =
     and_then (declare_destinations es Map.empty)
       (\<lambda>declared. check_declared declared (order (dom declared)))"

definition parsed_manifest_new ::
  "(path_bytes set \<Rightarrow> path_bytes list) \<Rightarrow> string \<Rightarrow> (nat \<times> manifest_entry) list \<Rightarrow>
   mapping_error option \<Rightarrow> mapping_error + parsed_manifest" where
  "parsed_manifest_new order contents es restricted =
     and_then (validate_destinations order (map (\<lambda>(line, e). (line, me_dst e, me_kind e)) es))
       (\<lambda>_. Inr \<lparr>pm_input = \<lparr>mi_contents = contents, mi_restricted_bounds_error = restricted\<rparr>,
                pm_entries = es\<rparr>)"

text \<open>The loop of \<open>read_mapping_manifest\<close>; the first bound exceeded is kept.\<close>

definition first_error :: "bool \<Rightarrow> mapping_error \<Rightarrow> mapping_error option \<Rightarrow> mapping_error option" where
  "first_error b e r = (if b \<and> r = None then Some e else r)"

function read_lines ::
  "wire_library \<Rightarrow> string \<Rightarrow> nat \<Rightarrow> mapping_error option \<Rightarrow> (nat \<times> manifest_entry) list \<Rightarrow>
   mapping_error + (nat \<times> manifest_entry) list \<times> mapping_error option" where
  "read_lines L rest n restricted es =
     (if rest = [] then Inr (es, restricted)
      else let (l, rest') = next_line rest in
        if \<not> utf8_valid l then Inl NotUtf8
        else let n = n + 1; restricted = first_error (length l > CHUNK_BYTES) (RestrictedLine n) restricted in
          if line_text l = [] then read_lines L rest' n restricted es
          else (case parse_manifest_entry L (line_text l) of
              Inl e \<Rightarrow> Inl (AtLine n e)
            | Inr e \<Rightarrow> read_lines L rest' n
                (first_error (length (me_dst e) > MAX_PATH_BYTES) (RestrictedDestination n) restricted)
                (es @ [(n, e)])))"
  by pat_completeness auto
termination
  by (relation "measure (\<lambda>(L, rest, n, r, es). length rest)")
    (use next_line_shorter in \<open>auto, metis snd_conv, metis snd_conv\<close>)

definition read_mapping_manifest ::
  "(path_bytes set \<Rightarrow> path_bytes list) \<Rightarrow> wire_library \<Rightarrow> string \<Rightarrow> mapping_error + parsed_manifest" where
  "read_mapping_manifest order L contents =
     and_then (read_lines L contents 0 None [])
       (\<lambda>(es, restricted). parsed_manifest_new order contents es restricted)"

record authorization =
  au_bytes :: nat
  au_digest :: string

definition authorization_from_contents :: "('s, string) engine \<Rightarrow> string \<Rightarrow> authorization" where
  "authorization_from_contents B contents =
     \<lparr>au_bytes = length contents, au_digest = eng_hash B contents\<rparr>"

definition validate_restricted_bounds :: "mapping_input \<Rightarrow> mapping_error + unit" where
  "validate_restricted_bounds i =
     (case mi_restricted_bounds_error i of Some e \<Rightarrow> Inl e | None \<Rightarrow> Inr ())"

definition input_authorization :: "('s, string) engine \<Rightarrow> mapping_input \<Rightarrow> mapping_error + authorization" where
  "input_authorization B i =
     and_then (validate_restricted_bounds i) (\<lambda>_. Inr (authorization_from_contents B (mi_contents i)))"

subsection \<open>What the checks accept\<close>

lemma in_ancestors: "a \<in> set (ancestors d) \<longleftrightarrow> (\<exists>rest. d = a @ CHR ''/'' # rest)"
proof
  assume "a \<in> set (ancestors d)"
  then obtain i where i: "i < length d" "d ! i = CHR ''/''" "a = take i d"
    by (auto simp: ancestors_def)
  then show "\<exists>rest. d = a @ CHR ''/'' # rest" using id_take_nth_drop [of i d] by auto
next
  assume "\<exists>rest. d = a @ CHR ''/'' # rest"
  then obtain rest where "d = a @ CHR ''/'' # rest" ..
  then have "length a < length d" "d ! length a = CHR ''/''" "a = take (length a) d"
    by simp_all
  then show "a \<in> set (ancestors d)" unfolding ancestors_def by (auto intro!: image_eqI)
qed

lemma ancestors_irrefl: "d \<notin> set (ancestors d)"
  by (auto simp: in_ancestors)

text \<open>No entry with another entry below it is declared as something else than a directory.\<close>

definition conflict_free :: "(path_bytes \<times> declared_kind option) list \<Rightarrow> bool" where
  "conflict_free ds \<longleftrightarrow>
     (\<forall>(a, k) \<in> set ds. \<forall>(d, _) \<in> set ds. a \<in> set (ancestors d) \<longrightarrow> \<not> not_dir k)"

definition lists_keys :: "('k set \<Rightarrow> 'k list) \<Rightarrow> bool" where
  "lists_keys order \<longleftrightarrow> (\<forall>S. finite S \<longrightarrow> set (order S) = S)"

lemma declare_destinations_iff:
  "declare_destinations es m = Inr m' \<longleftrightarrow>
     distinct (map (fst \<circ> snd) es) \<and> (fst \<circ> snd) ` set es \<inter> dom m = {} \<and>
     m' = m ++ map_of (map (\<lambda>(l, p, k). (p, (l, k))) es)"
proof (induction es m rule: declare_destinations.induct)
  case (2 line p kind es m)
  let ?f = "map_of (map (\<lambda>(l, p, k). (p, (l, k))) es)"
  have dom: "dom ?f = (fst \<circ> snd) ` set es"
    by (force simp: dom_map_of_conv_image_fst)
  have add: "m(p \<mapsto> (line, kind)) ++ ?f = m ++ ?f(p \<mapsto> (line, kind))" if "p \<notin> dom ?f"
    using that by (auto simp: map_add_def fun_eq_iff split: option.splits)
  show ?case
  proof (cases "m p")
    case None
    then have IH: "declare_destinations es (m(p \<mapsto> (line, kind))) = Inr m' \<longleftrightarrow>
        distinct (map (fst \<circ> snd) es) \<and> (fst \<circ> snd) ` set es \<inter> dom (m(p \<mapsto> (line, kind))) = {} \<and>
        m' = m(p \<mapsto> (line, kind)) ++ ?f"
      using 2 by (simp add: fun_upd_def comp_def)
    from None have "declare_destinations ((line, p, kind) # es) m = Inr m' \<longleftrightarrow>
        distinct (map (fst \<circ> snd) es) \<and> dom ?f \<inter> insert p (dom m) = {} \<and>
        m' = m(p \<mapsto> (line, kind)) ++ ?f"
      by (simp add: dom IH)
    also have "\<dots> \<longleftrightarrow> p \<notin> dom ?f \<and> distinct (map (fst \<circ> snd) es) \<and> dom ?f \<inter> dom m = {} \<and>
        m' = m ++ ?f(p \<mapsto> (line, kind))"
      by (cases "p \<in> dom ?f") (use add in \<open>simp_all only: add Int_insert_right if_True if_False
          insert_not_empty simp_thms not_False_eq_True not_True_eq_False\<close>)
    also have "\<dots> \<longleftrightarrow> distinct (map (fst \<circ> snd) ((line, p, kind) # es)) \<and>
        (fst \<circ> snd) ` set ((line, p, kind) # es) \<inter> dom m = {} \<and>
        m' = m ++ map_of (map (\<lambda>(l, p, k). (p, (l, k))) ((line, p, kind) # es))"
      using None by (auto simp: dom)
    finally show ?thesis .
  qed auto
qed auto

lemma check_ancestors_iff:
  "check_ancestors m line p as = Inr () \<longleftrightarrow>
     (\<forall>a \<in> set as. \<forall>l k. m a = Some (l, k) \<longrightarrow> \<not> not_dir k)"
  by (induction m line p as rule: check_ancestors.induct)
    (auto simp: not_dir_def split: option.splits)

lemma check_declared_iff:
  "check_declared m ps = Inr () \<longleftrightarrow>
     (\<forall>p \<in> set ps. \<forall>a \<in> set (ancestors p). \<forall>l k. m a = Some (l, k) \<longrightarrow> \<not> not_dir k)"
  by (induction m ps rule: check_declared.induct) (auto simp: and_then_Inr check_ancestors_iff)

lemma validate_destinations_iff:
  assumes "lists_keys order"
  shows "validate_destinations order es = Inr () \<longleftrightarrow>
    distinct (map fst (map snd es)) \<and> conflict_free (map snd es)"
proof (cases "distinct (map (fst \<circ> snd) es)")
  case True
  define m where "m = map_of (map (\<lambda>(l, p, k). (p, (l, k))) es)"
  have m: "m a = Some (l, k) \<longleftrightarrow> (l, a, k) \<in> set es" for a l k
    unfolding m_def using True
    by (subst map_of_eq_Some_iff) (force simp: comp_def case_prod_beta)+
  have "declare_destinations es Map.empty = Inr m"
    using True by (simp add: declare_destinations_iff m_def)
  moreover have "finite (dom m)" by (simp add: m_def finite_dom_map_of)
  ultimately have "validate_destinations order es = Inr () \<longleftrightarrow>
      (\<forall>p \<in> dom m. \<forall>a \<in> set (ancestors p). \<forall>l k. m a = Some (l, k) \<longrightarrow> \<not> not_dir k)"
    using assms by (simp add: validate_destinations_def check_declared_iff lists_keys_def)
  also have "\<dots> \<longleftrightarrow> conflict_free (map snd es)"
    unfolding conflict_free_def dom_def by (force simp: m)
  finally show ?thesis using True by simp
next
  case False
  then show ?thesis
    by (cases "declare_destinations es Map.empty")
      (auto simp: validate_destinations_def declare_destinations_iff)
qed

subsection \<open>Reading line by line\<close>

text \<open>The entry of a line, if it has one, and the entries of a manifest.\<close>

definition line_entry :: "wire_library \<Rightarrow> string \<Rightarrow> mapping_error + manifest_entry option" where
  "line_entry L l =
     (if \<not> utf8_valid l then Inl NotUtf8
      else if line_text l = [] then Inr None
      else map_sum id Some (parse_manifest_entry L (line_text l)))"

fun manifest_entries :: "wire_library \<Rightarrow> string list \<Rightarrow> manifest_entry list option" where
  "manifest_entries L [] = Some []"
| "manifest_entries L (l # ls) =
     (case line_entry L l of
        Inl _ \<Rightarrow> None
      | Inr None \<Rightarrow> manifest_entries L ls
      | Inr (Some e) \<Rightarrow> map_option ((#) e) (manifest_entries L ls))"

definition within_bounds :: "string list \<Rightarrow> manifest_entry list \<Rightarrow> bool" where
  "within_bounds ls es \<longleftrightarrow>
     (\<forall>l \<in> set ls. length l \<le> CHUNK_BYTES) \<and> (\<forall>e \<in> set es. length (me_dst e) \<le> MAX_PATH_BYTES)"

lemma first_error_None [simp]: "first_error b e r = None \<longleftrightarrow> \<not> b \<and> r = None"
  by (auto simp: first_error_def)

lemma read_lines_spec:
  "case manifest_entries L (split_inclusive (CHR 0x0A) rest) of
     None \<Rightarrow> \<exists>e. read_lines L rest n r es = Inl e
   | Some new \<Rightarrow> \<exists>es' r'. read_lines L rest n r es = Inr (es', r') \<and> map snd es' = map snd es @ new \<and>
       (r' = None \<longleftrightarrow> r = None \<and> within_bounds (split_inclusive (CHR 0x0A) rest) new)"
proof (induction L rest n r es rule: read_lines.induct)
  case (1 L rest n r es)
  show ?case
  proof (cases "rest = []")
    case False
    obtain l rest' where line: "next_line rest = (l, rest')" by fastforce
    define ls where "ls = split_inclusive (CHR 0x0A) rest'"
    have split: "split_inclusive (CHR 0x0A) rest = l # ls"
      using split_inclusive_lines [OF False] line by (simp add: ls_def)
    note IH = "1.IH" [OF False line [symmetric] refl]
    consider (bad) e where "line_entry L l = Inl e" | (none) "line_entry L l = Inr None"
      | (some) e where "line_entry L l = Inr (Some e)"
      by (metis old.sum.exhaust option.exhaust)
    then show ?thesis
    proof cases
      case bad
      then show ?thesis using False line
        by (subst read_lines.simps)
          (auto simp: split line_entry_def Let_def split: if_splits sum.splits)
    next
      case none
      then have l: "utf8_valid l" "line_text l = []"
        by (auto simp: line_entry_def split: if_splits sum.splits)
          (metis map_sum.simps old.sum.exhaust option.distinct(1) sum.inject(2) sum.simps(4))+
      with IH(1) [OF _ refl refl] show ?thesis using False line none
        by (subst read_lines.simps)
          (auto simp: split ls_def within_bounds_def Let_def split: option.splits)
    next
      case some
      then have l: "utf8_valid l" "line_text l \<noteq> []" "parse_manifest_entry L (line_text l) = Inr e"
        by (auto simp: line_entry_def split: if_splits)
          (cases "parse_manifest_entry L (line_text l)"; simp)+
      with IH(2) [OF _ refl refl] show ?thesis using False line some
        by (subst read_lines.simps)
          (fastforce simp: split ls_def within_bounds_def Let_def split: option.splits)
    qed
  qed (simp add: within_bounds_def)
qed

end
