(* ===== verification/Admission.thy ===== *)
theory Admission
  imports Manifest
begin

section \<open>Admitting a signed mapping\<close>

text \<open>
  The rest of \<open>src/src/mapping.rs\<close>: the index of the destinations a restricted receiver allows, the
  admission that receives the manifest in chunks and opens the index once the whole matches the
  signed length and digest, and the sender's loop.

  An operation on \<open>&mut self\<close> that returns a \<open>Result\<close> gives the result and the state it leaves, also
  when it fails. The connection of \<open>send\<close> is a parameter: a function from the connection's state and
  a chunk to a result and the next state.
\<close>

type_synonym 's outcome = "(mapping_error + unit) \<times> 's"

definition chain :: "'s outcome \<Rightarrow> ('s \<Rightarrow> 's outcome) \<Rightarrow> 's outcome" where
  "chain r f = (case r of (Inl e, s) \<Rightarrow> (Inl e, s) | (Inr _, s) \<Rightarrow> f s)"

lemma chain_simps [simp]: "chain (Inl e, s) f = (Inl e, s)" "chain (Inr u, s) f = f s"
  by (simp_all add: chain_def)

lemma chain_Inr: "chain r f = (Inr u, s') \<longleftrightarrow> (\<exists>s. r = (Inr (), s) \<and> f s = (Inr u, s'))"
  by (cases r; cases "fst r") auto

subsection \<open>The index of destinations\<close>

record permissions_index =
  px_expected_hashes :: "path_bytes \<rightharpoonup> digest"
  px_metadata :: "path_bytes \<rightharpoonup> metadata"
  px_entries :: "path_bytes \<rightharpoonup> declared_kind option"
  px_parents :: "path_bytes set"

definition permissions_new :: permissions_index where
  "permissions_new =
     \<lparr>px_expected_hashes = Map.empty, px_metadata = Map.empty, px_entries = Map.empty,
      px_parents = {[]}\<rparr>"

definition check_limit :: "nat \<Rightarrow> permissions_index \<Rightarrow> permissions_index outcome" where
  "check_limit max_entries p =
     (if card (dom (px_entries p)) + card (px_parents p) > max_entries then (Inl EntryLimit, p)
      else (Inr (), p))"

fun insert_parents ::
  "nat \<Rightarrow> path_bytes list \<Rightarrow> permissions_index \<Rightarrow> permissions_index outcome" where
  "insert_parents max_entries [] p = (Inr (), p)"
| "insert_parents max_entries (parent # ps) p =
     (if (case px_entries p parent of None \<Rightarrow> False | Some k \<Rightarrow> not_dir k)
      then (Inl AncestorNotDirectory, p)
      else if px_entries p parent = None then
        chain (check_limit max_entries (p\<lparr>px_parents := insert parent (px_parents p)\<rparr>))
          (insert_parents max_entries ps)
      else insert_parents max_entries ps p)"

definition record_entry :: "manifest_entry \<Rightarrow> permissions_index \<Rightarrow> permissions_index" where
  "record_entry e p =
     (let p = p\<lparr>px_parents := px_parents p - {me_dst e}\<rparr>;
          p = (case me_expected_hash e of
                 None \<Rightarrow> p
               | Some d \<Rightarrow> p\<lparr>px_expected_hashes := (px_expected_hashes p)(me_dst e \<mapsto> d)\<rparr>);
          p = (case me_metadata e of
                 None \<Rightarrow> p
               | Some m \<Rightarrow> p\<lparr>px_metadata := (px_metadata p)(me_dst e \<mapsto> m)\<rparr>)
      in p\<lparr>px_entries := (px_entries p)(me_dst e \<mapsto> me_kind e)\<rparr>)"

definition permissions_insert ::
  "nat \<Rightarrow> manifest_entry \<Rightarrow> permissions_index \<Rightarrow> permissions_index outcome" where
  "permissions_insert max_entries e p =
     (if length (me_dst e) > MAX_PATH_BYTES then (Inl DestinationTooLong, p)
      else if px_entries p (me_dst e) \<noteq> None then (Inl (DuplicateEntry (me_dst e)), p)
      else if not_dir (me_kind e) \<and> me_dst e \<in> px_parents p then (Inl AncestorNotDirectory, p)
      else chain (insert_parents max_entries (ancestors (me_dst e)) p)
        (\<lambda>p. check_limit max_entries (record_entry e p)))"

definition permissions_allows :: "permissions_index \<Rightarrow> path_bytes \<Rightarrow> bool option \<Rightarrow> bool" where
  "permissions_allows p q directory \<longleftrightarrow>
     px_entries p q \<noteq> None \<or> (directory \<noteq> Some False \<and> q \<in> px_parents p)"

definition implicit_directory :: "permissions_index \<Rightarrow> path_bytes \<Rightarrow> bool" where
  "implicit_directory p q \<longleftrightarrow> q \<in> px_parents p"

definition permissions_metadata :: "permissions_index \<Rightarrow> path_bytes \<Rightarrow> metadata option" where
  "permissions_metadata p q = px_metadata p q"

subsection \<open>Receiving the manifest\<close>

record 's admission =
  ad_authorization :: authorization
  ad_received :: nat
  ad_hasher :: 's
  ad_line :: string
  ad_max_entries :: nat
  ad_pending :: "permissions_index option"
  ad_permissions :: "permissions_index option"

definition admission_new :: "('s, string) engine \<Rightarrow> authorization \<Rightarrow> nat \<Rightarrow> 's admission" where
  "admission_new B a max_entries =
     \<lparr>ad_authorization = a, ad_received = 0, ad_hasher = eng_new B, ad_line = [],
      ad_max_entries = max_entries, ad_pending = Some permissions_new, ad_permissions = None\<rparr>"

definition finish_line :: "wire_library \<Rightarrow> 's admission \<Rightarrow> 's admission outcome" where
  "finish_line L s =
     (if \<not> utf8_valid (ad_line s) then (Inl NotUtf8, s)
      else if line_text (ad_line s) \<noteq> [] then
        (case ad_pending s of
           None \<Rightarrow> (Inl AdmissionClosed, s)
         | Some p \<Rightarrow>
           (case parse_manifest_entry L (line_text (ad_line s)) of
              Inl e \<Rightarrow> (Inl e, s)
            | Inr e \<Rightarrow>
              (case permissions_insert (ad_max_entries s) e p of
                 (Inl err, p) \<Rightarrow> (Inl err, s\<lparr>ad_pending := Some p\<rparr>)
               | (Inr _, p) \<Rightarrow> (Inr (), s\<lparr>ad_pending := Some p, ad_line := []\<rparr>))))
      else (Inr (), s\<lparr>ad_line := []\<rparr>))"

fun append_parts :: "wire_library \<Rightarrow> string list \<Rightarrow> 's admission \<Rightarrow> 's admission outcome" where
  "append_parts L [] s = (Inr (), s)"
| "append_parts L (part # ps) s =
     (if length (ad_line s) + length part > CHUNK_BYTES then (Inl LineTooLong, s)
      else let s = s\<lparr>ad_line := ad_line s @ part\<rparr> in
        if part \<noteq> [] \<and> last part = CHR 0x0A then chain (finish_line L s) (append_parts L ps)
        else append_parts L ps s)"

definition append_finish ::
  "wire_library \<Rightarrow> ('s, string) engine \<Rightarrow> 's admission \<Rightarrow> 's admission outcome" where
  "append_finish L B s =
     (if ad_received s \<noteq> au_bytes (ad_authorization s) \<or>
         eng_finalize B (ad_hasher s) \<noteq> au_digest (ad_authorization s)
      then (Inl DigestMismatch, s)
      else chain (finish_line L s) (\<lambda>s.
        (Inr (), s\<lparr>ad_permissions := ad_pending s, ad_pending := None, ad_line := []\<rparr>)))"

definition append_body ::
  "wire_library \<Rightarrow> ('s, string) engine \<Rightarrow> 's admission \<Rightarrow> nat \<Rightarrow> string \<Rightarrow> bool \<Rightarrow>
   's admission outcome" where
  "append_body L B s offset data finish =
     (if offset \<noteq> ad_received s then (Inl ChunkOutOfOrder, s)
      else if length data > CHUNK_BYTES then (Inl ChunkTooLarge, s)
      else (case uadd offset (length data) of
          None \<Rightarrow> (Inl LengthOverflow, s)
        | Some finish_at \<Rightarrow>
          if finish_at > au_bytes (ad_authorization s) then (Inl ExceedsSignedLength, s)
          else chain (append_parts L (split_inclusive (CHR 0x0A) data) s) (\<lambda>s.
            let s = s\<lparr>ad_hasher := eng_update B (ad_hasher s) data, ad_received := finish_at\<rparr>
            in if finish then append_finish L B s else (Inr (), s))))"

definition admission_append ::
  "wire_library \<Rightarrow> ('s, string) engine \<Rightarrow> 's admission \<Rightarrow> nat \<Rightarrow> string \<Rightarrow> bool \<Rightarrow>
   's admission outcome" where
  "admission_append L B s offset data finish =
     (if ad_pending s = None then (Inl AlreadyClosed, s)
      else (case append_body L B s offset data finish of
          (Inl e, s) \<Rightarrow> (Inl e, s\<lparr>ad_pending := None, ad_line := []\<rparr>)
        | (Inr _, s) \<Rightarrow> (Inr (), s)))"

definition admission_permissions :: "'s admission \<Rightarrow> mapping_error + permissions_index" where
  "admission_permissions s =
     (case ad_permissions s of None \<Rightarrow> Inl NotVerified | Some p \<Rightarrow> Inr p)"

definition admission_expected_hash ::
  "'s admission \<Rightarrow> path_bytes \<Rightarrow> mapping_error + digest option" where
  "admission_expected_hash s q =
     and_then (admission_permissions s) (\<lambda>p. Inr (px_expected_hashes p q))"

subsection \<open>Sending the manifest\<close>

function send_from ::
  "('c \<Rightarrow> nat \<Rightarrow> string \<Rightarrow> bool \<Rightarrow> ('e + unit) \<times> 'c) \<Rightarrow> string \<Rightarrow> nat \<Rightarrow> 'c \<Rightarrow> ('e + unit) \<times> 'c" where
  "send_from call contents offset c =
     (let upto = min (offset + CHUNK_BYTES) (length contents);
          finish = (upto = length contents)
      in case call c offset (take (upto - offset) (drop offset contents)) finish of
           (Inl e, c) \<Rightarrow> (Inl e, c)
         | (Inr _, c) \<Rightarrow> if finish then (Inr (), c) else send_from call contents upto c)"
  by pat_completeness auto
termination
  by (relation "measure (\<lambda>(call, contents, offset, c). length contents - offset)")
    (auto simp: CHUNK_BYTES_def min_def split: if_splits)

definition send ::
  "('c \<Rightarrow> nat \<Rightarrow> string \<Rightarrow> bool \<Rightarrow> ('e + unit) \<times> 'c) \<Rightarrow> string \<Rightarrow> 'c \<Rightarrow> ('e + unit) \<times> 'c" where
  "send call contents c = send_from call contents 0 c"

subsection \<open>The index a list of entries gives\<close>

definition entry_at :: "manifest_entry list \<Rightarrow> path_bytes \<rightharpoonup> manifest_entry" where
  "entry_at es = map_of (map (\<lambda>e. (me_dst e, e)) es)"

definition dsts :: "manifest_entry list \<Rightarrow> path_bytes set" where
  "dsts es = me_dst ` set es"

text \<open>The directories above the destinations, the container itself first.\<close>

definition dirs_above :: "path_bytes set \<Rightarrow> path_bytes set" where
  "dirs_above D = insert [] (\<Union>d \<in> D. set (ancestors d))"

definition index_of :: "manifest_entry list \<Rightarrow> permissions_index" where
  "index_of es =
     \<lparr>px_expected_hashes = (\<lambda>q. Option.bind (entry_at es q) me_expected_hash),
      px_metadata = (\<lambda>q. Option.bind (entry_at es q) me_metadata),
      px_entries = (\<lambda>q. map_option me_kind (entry_at es q)),
      px_parents = dirs_above (dsts es) - dsts es\<rparr>"

definition consistent :: "manifest_entry list \<Rightarrow> bool" where
  "consistent es \<longleftrightarrow> distinct (map me_dst es) \<and> conflict_free (map (\<lambda>e. (me_dst e, me_kind e)) es)"

definition index_size :: "manifest_entry list \<Rightarrow> nat" where
  "index_size es = card (dirs_above (dsts es) \<union> dsts es)"

definition fits :: "nat \<Rightarrow> manifest_entry list \<Rightarrow> bool" where
  "fits max_entries es \<longleftrightarrow> es = [] \<or> index_size es \<le> max_entries"

lemma finite_dsts [simp]: "finite (dsts es)"
  by (simp add: dsts_def)

lemma finite_above [simp]: "finite D \<Longrightarrow> finite (dirs_above D)"
  by (simp add: dirs_above_def)

lemma dsts_simps [simp]: "dsts [] = {}" "dsts (es @ [e]) = insert (me_dst e) (dsts es)"
  by (auto simp: dsts_def)

lemma above_insert: "dirs_above (insert d D) = set (ancestors d) \<union> dirs_above D"
  by (auto simp: dirs_above_def)

lemma dom_entry_at [simp]: "dom (entry_at es) = dsts es"
  by (force simp: entry_at_def dsts_def dom_map_of_conv_image_fst)

lemma entry_at_None: "entry_at es q = None \<longleftrightarrow> q \<notin> dsts es"
  by (metis domIff dom_entry_at)

lemma entry_at_Some:
  "distinct (map me_dst es) \<Longrightarrow> entry_at es q = Some e \<longleftrightarrow> e \<in> set es \<and> me_dst e = q"
  by (auto simp: entry_at_def map_of_eq_Some_iff comp_def)

lemma entry_at_snoc:
  assumes "me_dst e \<notin> dsts es"
  shows "entry_at (es @ [e]) = (entry_at es)(me_dst e \<mapsto> e)"
proof
  fix q
  have "entry_at (es @ [e]) q =
      (case entry_at es q of None \<Rightarrow> if q = me_dst e then Some e else None | Some x \<Rightarrow> Some x)"
    by (simp add: entry_at_def map_of_append map_add_def split: option.split)
  with assms show "entry_at (es @ [e]) q = ((entry_at es)(me_dst e \<mapsto> e)) q"
    using entry_at_None [of es "me_dst e"] by (simp split: option.split)
qed

lemma permissions_new_index: "permissions_new = index_of []"
  by (simp add: permissions_new_def index_of_def entry_at_def dirs_above_def fun_eq_iff)

lemma index_entries_dom: "dom (px_entries (index_of es)) = dsts es"
  using dom_entry_at [of es] by (auto simp: index_of_def dom_def)

lemma index_ancestor_not_dir:
  assumes "consistent es"
  shows "(case px_entries (index_of es) a of None \<Rightarrow> False | Some k \<Rightarrow> not_dir k) \<longleftrightarrow>
    (\<exists>e \<in> set es. me_dst e = a \<and> not_dir (me_kind e))"
proof (cases "entry_at es a")
  case None
  then show ?thesis using entry_at_None [of es a] by (auto simp: index_of_def dsts_def)
next
  case (Some e)
  have "(\<exists>e' \<in> set es. me_dst e' = a \<and> not_dir (me_kind e')) \<longleftrightarrow> not_dir (me_kind e)"
    using assms Some entry_at_Some [of es a] unfolding consistent_def by (metis option.inject)
  with Some show ?thesis by (simp add: index_of_def)
qed

text \<open>
  Inserting the ancestors of a destination: it succeeds when none is declared as a file and the
  index stays within the limit, and then adds those that are no entries.
\<close>

lemma insert_parents_ok:
  assumes "finite (px_parents p)" "finite (dom (px_entries p))" "dom (px_entries p) \<inter> px_parents p = {}"
    and "\<And>a. a \<in> set as \<Longrightarrow> \<not> (case px_entries p a of None \<Rightarrow> False | Some k \<Rightarrow> not_dir k)"
    and "card (dom (px_entries p) \<union> px_parents p \<union> set as) \<le> n"
  shows "insert_parents n as p =
    (Inr (), p\<lparr>px_parents := px_parents p \<union> (set as - dom (px_entries p))\<rparr>)"
  using assms
proof (induction n as p rule: insert_parents.induct)
  case (2 n a as p)
  show ?case
  proof (cases "px_entries p a")
    case None
    let ?p = "p\<lparr>px_parents := insert a (px_parents p)\<rparr>"
    have "card (dom (px_entries p) \<union> insert a (px_parents p)) \<le>
        card (dom (px_entries p) \<union> px_parents p \<union> set (a # as))"
      using 2 by (intro card_mono) auto
    moreover have "card (dom (px_entries p) \<union> insert a (px_parents p)) =
        card (dom (px_entries p)) + card (insert a (px_parents p))"
      using 2 None by (intro card_Un_disjoint) auto
    ultimately have "check_limit n ?p = (Inr (), ?p)"
      using 2 by (simp add: check_limit_def)
    moreover have "dom (px_entries p) \<union> insert a (px_parents p) \<union> set as =
        dom (px_entries p) \<union> px_parents p \<union> set (a # as)" by auto
    ultimately show ?thesis
      using 2 None by (simp add: insert_Diff_if domIff)
  next
    case (Some k)
    then have a: "a \<in> dom (px_entries p)" by auto
    then have "dom (px_entries p) \<union> px_parents p \<union> set (a # as) = dom (px_entries p) \<union> px_parents p \<union> set as"
      by auto
    moreover have k: "\<not> not_dir k" using "2.prems"(4) [of a] Some by simp
    ultimately have "insert_parents n as p =
        (Inr (), p\<lparr>px_parents := px_parents p \<union> (set as - dom (px_entries p))\<rparr>)"
      using 2 Some by auto
    with Some a k show ?thesis by (auto simp: insert_Diff_if)
  qed
qed simp

lemma insert_parents_result:
  assumes "insert_parents n as p = (Inr u, p')"
  shows "p' = p\<lparr>px_parents := px_parents p \<union> (set as - dom (px_entries p))\<rparr> \<and>
    (\<forall>a \<in> set as. \<not> (case px_entries p a of None \<Rightarrow> False | Some k \<Rightarrow> not_dir k))"
  using assms
proof (induction n as p rule: insert_parents.induct)
  case (2 n a as p)
  show ?case
  proof (cases "px_entries p a")
    case None
    let ?p = "p\<lparr>px_parents := insert a (px_parents p)\<rparr>"
    have "insert_parents n as ?p = (Inr u, p')"
      using 2 None by (auto simp: chain_Inr check_limit_def split: if_splits)
    from "2.IH"(1) [OF _ _ this] have "p' = ?p\<lparr>px_parents := px_parents ?p \<union> (set as - dom (px_entries ?p))\<rparr>"
      "\<forall>a \<in> set as. \<not> (case px_entries p a of None \<Rightarrow> False | Some k \<Rightarrow> not_dir k)"
      using None by auto
    with None show ?thesis by (auto simp: domIff insert_Diff_if)
  next
    case (Some k)
    with 2 show ?thesis by (auto simp: insert_Diff_if split: if_splits)
  qed
qed simp

lemma index_parents: "px_parents (index_of es) = dirs_above (dsts es) - dsts es"
  by (simp add: index_of_def)

lemma index_count:
  "card (dom (px_entries (index_of es))) + card (px_parents (index_of es)) = index_size es"
proof -
  have "card (dsts es \<union> (dirs_above (dsts es) - dsts es)) = card (dsts es) + card (dirs_above (dsts es) - dsts es)"
    by (intro card_Un_disjoint) auto
  then show ?thesis
    by (simp add: index_entries_dom index_parents index_size_def Un_Diff_cancel Un_commute)
qed

lemma check_limit_index:
  "check_limit n (index_of es) = (if index_size es > n then (Inl EntryLimit, index_of es)
     else (Inr (), index_of es))"
  by (simp add: check_limit_def index_count)

lemma consistent_snoc:
  assumes "me_dst e \<noteq> []"
  shows "consistent (es @ [e]) \<longleftrightarrow> consistent es \<and> me_dst e \<notin> dsts es \<and>
    \<not> (not_dir (me_kind e) \<and> me_dst e \<in> dirs_above (dsts es)) \<and>
    (\<forall>e' \<in> set es. me_dst e' \<in> set (ancestors (me_dst e)) \<longrightarrow> \<not> not_dir (me_kind e'))"
  using assms ancestors_irrefl [of "me_dst e"]
  unfolding consistent_def conflict_free_def dirs_above_def dsts_def by auto

lemma record_entry_index:
  assumes "me_dst e \<notin> dsts es"
  shows "record_entry e ((index_of es)\<lparr>px_parents :=
      px_parents (index_of es) \<union> (set (ancestors (me_dst e)) - dsts es)\<rparr>) = index_of (es @ [e])"
proof -
  have "dirs_above (dsts (es @ [e])) - dsts (es @ [e]) =
      (dirs_above (dsts es) - dsts es) \<union> (set (ancestors (me_dst e)) - dsts es) - {me_dst e}"
    by (auto simp: above_insert)
  moreover have "entry_at es (me_dst e) = None" using assms by (simp add: entry_at_None)
  ultimately show ?thesis
    by (auto simp: record_entry_def index_of_def entry_at_snoc [OF assms] Let_def fun_eq_iff split: option.splits)
qed

text \<open>
  Inserting an entry into the index of entries that are consistent: it succeeds exactly when the
  entries stay consistent and the index within the limit, and gives the index with the entry.
\<close>

lemma permissions_insert_result:
  assumes es: "consistent es" and e: "me_dst e \<noteq> []"
    and r: "permissions_insert n e (index_of es) = (Inr u, p')"
  shows "length (me_dst e) \<le> MAX_PATH_BYTES \<and> consistent (es @ [e]) \<and> index_size (es @ [e]) \<le> n \<and>
    p' = index_of (es @ [e])"
proof -
  have new: "me_dst e \<notin> dsts es"
    using r index_entries_dom [of es] by (auto simp: permissions_insert_def split: if_splits)
  obtain p where p: "insert_parents n (ancestors (me_dst e)) (index_of es) = (Inr (), p)"
    using r by (auto simp: permissions_insert_def chain_Inr split: if_splits)
  note res = insert_parents_result [OF p]
  from res have cond: "\<forall>e' \<in> set es. me_dst e' \<in> set (ancestors (me_dst e)) \<longrightarrow> \<not> not_dir (me_kind e')"
    using index_ancestor_not_dir [OF es] by blast
  have p': "p' = index_of (es @ [e])" "index_size (es @ [e]) \<le> n"
    using r p res
    by (auto simp: permissions_insert_def check_limit_index index_entries_dom record_entry_index [OF new]
        split: if_splits)
  have "\<not> (not_dir (me_kind e) \<and> me_dst e \<in> dirs_above (dsts es))" "length (me_dst e) \<le> MAX_PATH_BYTES"
    using r new by (auto simp: permissions_insert_def index_parents split: if_splits)
  with cond new p' show ?thesis by (simp add: consistent_snoc [OF e] es)
qed

lemma permissions_insert_ok:
  assumes e: "me_dst e \<noteq> []" "length (me_dst e) \<le> MAX_PATH_BYTES"
    and c: "consistent (es @ [e])" "index_size (es @ [e]) \<le> n"
  shows "permissions_insert n e (index_of es) = (Inr (), index_of (es @ [e]))"
proof -
  have new: "me_dst e \<notin> dsts es" and es: "consistent es"
    and dir: "\<not> (not_dir (me_kind e) \<and> me_dst e \<in> dirs_above (dsts es))"
    and cond: "\<forall>e' \<in> set es. me_dst e' \<in> set (ancestors (me_dst e)) \<longrightarrow> \<not> not_dir (me_kind e')"
    using c(1) by (simp_all add: consistent_snoc [OF e(1)])
  have "card (dom (px_entries (index_of es)) \<union> px_parents (index_of es) \<union> set (ancestors (me_dst e))) \<le>
      index_size (es @ [e])"
    unfolding index_size_def index_entries_dom index_parents
    by (intro card_mono) (auto simp: above_insert)
  then have "insert_parents n (ancestors (me_dst e)) (index_of es) =
      (Inr (), (index_of es)\<lparr>px_parents := px_parents (index_of es) \<union> (set (ancestors (me_dst e)) - dsts es)\<rparr>)"
    using insert_parents_ok [of "index_of es" "ancestors (me_dst e)" n] index_ancestor_not_dir [OF es] cond c(2)
    by (auto simp: index_entries_dom index_parents)
  moreover have "px_entries (index_of es) (me_dst e) = None"
    using new by (simp add: index_of_def entry_at_None)
  ultimately show ?thesis
    using e dir new c(2)
    by (auto simp: permissions_insert_def check_limit_index
        record_entry_index [OF new, unfolded index_parents] index_parents)
qed

end
