(* ===== verification/Admission_Props.thy ===== *)
theory Admission_Props
  imports Admission "HOL-Library.Char_ord" "HOL-Library.List_Lexorder"
begin

section \<open>Properties of mapping admission\<close>

text \<open>
  However the manifest is cut into chunks, the admission reads the lines of the whole: its state
  after the bytes \<open>t\<close> is determined by \<open>t\<close>. \<open>admit_lines\<close> is the reference, one pass over complete
  lines. The properties: permissions open only for the signed contents, they are exactly the
  entries and the directories above them, and the sender's preflight accepts what the receiver
  admits.
\<close>

subsection \<open>Complete lines\<close>

text \<open>The complete lines of a text and what follows the last of them.\<close>

fun cut_lines :: "string \<Rightarrow> string list \<times> string" where
  "cut_lines [] = ([], [])"
| "cut_lines (x # xs) =
     (case cut_lines xs of (ls, r) \<Rightarrow>
        if x = CHR 0x0A then ([x] # ls, r)
        else (case ls of [] \<Rightarrow> ([], x # r) | l # ls \<Rightarrow> ((x # l) # ls, r)))"

definition whole_lines :: "string \<Rightarrow> string list" where
  "whole_lines t = fst (cut_lines t)"

definition partial_line :: "string \<Rightarrow> string" where
  "partial_line t = snd (cut_lines t)"

lemma partial_line_no_newline: "CHR 0x0A \<notin> set (partial_line t)"
  unfolding partial_line_def by (induction t) (auto split: prod.splits list.splits)

lemma cut_no_newline: "CHR 0x0A \<notin> set p \<Longrightarrow> whole_lines p = [] \<and> partial_line p = p"
  unfolding whole_lines_def partial_line_def by (induction p) (auto split: prod.splits list.splits)

lemma cut_line:
  "CHR 0x0A \<notin> set p \<Longrightarrow> whole_lines (p @ CHR 0x0A # d) = (p @ [CHR 0x0A]) # whole_lines d \<and>
     partial_line (p @ CHR 0x0A # d) = partial_line d"
  unfolding whole_lines_def partial_line_def by (induction p) (auto split: prod.splits)

lemma cut_append:
  "whole_lines (t @ d) = whole_lines t @ whole_lines (partial_line t @ d) \<and>
   partial_line (t @ d) = partial_line (partial_line t @ d)"
proof (induction t rule: length_induct)
  case (1 t)
  show ?case
  proof (cases "CHR 0x0A \<in> set t")
    case True
    then obtain p q where t: "t = p @ CHR 0x0A # q" "CHR 0x0A \<notin> set p"
      by (meson split_list_first)
    with 1 have "whole_lines (q @ d) = whole_lines q @ whole_lines (partial_line q @ d) \<and>
        partial_line (q @ d) = partial_line (partial_line q @ d)" by simp
    with t cut_line [of p q] cut_line [of p "q @ d"] show ?thesis by simp
  next
    case False
    then show ?thesis by (simp add: cut_no_newline)
  qed
qed

lemma split_inclusive_no_newline:
  "CHR 0x0A \<notin> set p \<Longrightarrow> split_inclusive (CHR 0x0A) p = (if p = [] then [] else [p])"
  by (induction p) auto

lemma split_inclusive_line:
  "CHR 0x0A \<notin> set p \<Longrightarrow>
     split_inclusive (CHR 0x0A) (p @ CHR 0x0A # d) = (p @ [CHR 0x0A]) # split_inclusive (CHR 0x0A) d"
  by (induction p) (auto split: list.splits)

lemma split_inclusive_cut:
  "split_inclusive (CHR 0x0A) t =
     whole_lines t @ (if partial_line t = [] then [] else [partial_line t])"
proof (induction t rule: length_induct)
  case (1 t)
  show ?case
  proof (cases "CHR 0x0A \<in> set t")
    case True
    then obtain p q where t: "t = p @ CHR 0x0A # q" "CHR 0x0A \<notin> set p"
      by (meson split_list_first)
    with 1 have "split_inclusive (CHR 0x0A) q =
        whole_lines q @ (if partial_line q = [] then [] else [partial_line q])" by simp
    with t cut_line [of p q] show ?thesis by (simp add: split_inclusive_line)
  next
    case False
    then show ?thesis by (simp add: cut_no_newline split_inclusive_no_newline)
  qed
qed

text \<open>A line that is not complete yet is the beginning of a line of every continuation.\<close>

lemma partial_line_extends:
  assumes "partial_line t \<noteq> []"
  shows "\<exists>l \<in> set (split_inclusive (CHR 0x0A) (t @ d)). length (partial_line t) \<le> length l"
proof -
  let ?p = "partial_line t"
  have "split_inclusive (CHR 0x0A) (t @ d) = whole_lines t @ split_inclusive (CHR 0x0A) (?p @ d)"
    using cut_append [of t d] by (simp add: split_inclusive_cut)
  moreover have "\<exists>x ls. split_inclusive (CHR 0x0A) (?p @ d) = (?p @ x) # ls"
  proof (cases "CHR 0x0A \<in> set d")
    case True
    then obtain a b where "d = a @ CHR 0x0A # b" "CHR 0x0A \<notin> set a" by (meson split_list_first)
    then show ?thesis
      using split_inclusive_line [of "?p @ a" b] partial_line_no_newline [of t] by simp
  next
    case False
    then show ?thesis
      using split_inclusive_no_newline [of "?p @ d"] partial_line_no_newline [of t] assms by simp
  qed
  ultimately show ?thesis by fastforce
qed

subsection \<open>Admitting lines\<close>

fun admit_lines :: "wire_library \<Rightarrow> nat \<Rightarrow> string list \<Rightarrow> permissions_index \<Rightarrow> permissions_index option" where
  "admit_lines L n [] p = Some p"
| "admit_lines L n (l # ls) p =
     (if CHUNK_BYTES < length l then None
      else case line_entry L l of
        Inl _ \<Rightarrow> None
      | Inr None \<Rightarrow> admit_lines L n ls p
      | Inr (Some e) \<Rightarrow> (case permissions_insert n e p of
            (Inl _, _) \<Rightarrow> None
          | (Inr _, p) \<Rightarrow> admit_lines L n ls p))"

lemma admit_lines_append:
  "admit_lines L n (as @ bs) p = Option.bind (admit_lines L n as p) (admit_lines L n bs)"
  by (induction L n as p rule: admit_lines.induct)
    (auto split: sum.splits option.splits prod.splits)

lemma parse_dst:
  assumes "parse_manifest_entry L text = Inr e"
  shows "me_dst e \<noteq> []" "safe_path (me_dst e)" "safe_path (me_src e)"
proof -
  have ok: "q \<noteq> [] \<and> validate_relative_path q = Inr ()" if "validate_manifest_path q w = Inr ()" for q w
    using that by (cases q)
      (auto simp: validate_manifest_path_def validate_relative_path_def starts_with_def split: if_splits)
  have "\<exists>w. validate_manifest_path (me_dst e) w = Inr ()" "\<exists>w. validate_manifest_path (me_src e) w = Inr ()"
    using assms by (auto simp: parse_manifest_entry_def wire_path_decode_def and_then_Inr)
  with ok show "me_dst e \<noteq> []" "safe_path (me_dst e)" "safe_path (me_src e)"
    by (auto simp: validate_ok_safe [symmetric])
qed

lemma line_entry_dst: "line_entry L l = Inr (Some e) \<Longrightarrow> me_dst e \<noteq> [] \<and> safe_path (me_dst e)"
  using parse_dst [of L "line_text l" e]
  by (cases "parse_manifest_entry L (line_text l)") (auto simp: line_entry_def split: if_splits)

text \<open>Admitting lines succeeds exactly for consistent entries within the bounds, and indexes them.\<close>

definition admissible :: "nat \<Rightarrow> manifest_entry list \<Rightarrow> bool" where
  "admissible n es \<longleftrightarrow> consistent es \<and> fits n es \<and> (\<forall>e \<in> set es. length (me_dst e) \<le> MAX_PATH_BYTES)"

lemma consistent_prefix: "consistent (as @ bs) \<Longrightarrow> consistent as"
  by (simp add: consistent_def conflict_free_def ball_Un)

lemma index_size_append: "index_size as \<le> index_size (as @ bs)"
  unfolding index_size_def dsts_def
  by (intro card_mono) (auto simp: dirs_above_def)

lemma admissible_snoc:
  "me_dst e \<noteq> [] \<Longrightarrow> admissible n (es @ [e]) \<longleftrightarrow>
     admissible n es \<and> length (me_dst e) \<le> MAX_PATH_BYTES \<and> consistent (es @ [e]) \<and> index_size (es @ [e]) \<le> n"
  using index_size_append [of es "[e]"]
    consistent_prefix [of es "[e]"]
  by (auto simp: admissible_def fits_def)

lemma admissible_prefix: "admissible n (as @ bs) \<Longrightarrow> admissible n as"
  using index_size_append [of as bs] consistent_prefix [of as bs]
  by (auto simp: admissible_def fits_def)

lemma admit_lines_index:
  assumes "admissible n es"
  shows "admit_lines L n ls (index_of es) =
    (case manifest_entries L ls of
       None \<Rightarrow> None
     | Some new \<Rightarrow>
       if (\<forall>l \<in> set ls. length l \<le> CHUNK_BYTES) \<and> admissible n (es @ new)
       then Some (index_of (es @ new)) else None)"
  using assms
proof (induction ls arbitrary: es)
  case (Cons l ls)
  show ?case
  proof (cases "line_entry L l")
    case (Inr r)
    show ?thesis
    proof (cases r)
      case None
      with Inr Cons show ?thesis by (auto split: option.splits)
    next
      case (Some e)
      with Inr line_entry_dst have e: "me_dst e \<noteq> []" by blast
      have ok: "permissions_insert n e (index_of es) = (Inr (), index_of (es @ [e]))"
        if "admissible n (es @ [e])"
        using that e by (intro permissions_insert_ok) (simp_all add: admissible_snoc)
      have bad: "\<exists>err p. permissions_insert n e (index_of es) = (Inl err, p)" if "\<not> admissible n (es @ [e])"
      proof (cases "permissions_insert n e (index_of es)")
        case (Pair r p)
        then show ?thesis
          using that permissions_insert_result [of es e n _ p] e Cons.prems
          by (cases r) (auto simp: admissible_snoc admissible_def fits_def)
      qed
      show ?thesis
      proof (cases "admissible n (es @ [e])")
        case True
        with Cons.IH [OF True] ok Inr Some show ?thesis by (auto split: option.splits)
      next
        case False
        then have "\<not> admissible n (es @ e # new)" for new
          using admissible_prefix [of n "es @ [e]" new] by auto
        with bad [OF False] Inr Some show ?thesis by (auto split: option.splits)
      qed
    qed
  qed simp
qed simp

subsection \<open>Chunks\<close>

lemma finish_line_pending:
  assumes "ad_pending s = Some p"
  shows "finish_line L s =
    (case line_entry L (ad_line s) of
       Inl e \<Rightarrow> (Inl e, s)
     | Inr None \<Rightarrow> (Inr (), s\<lparr>ad_line := []\<rparr>)
     | Inr (Some e) \<Rightarrow> (case permissions_insert (ad_max_entries s) e p of
           (Inl err, p) \<Rightarrow> (Inl err, s\<lparr>ad_pending := Some p\<rparr>)
         | (Inr _, p) \<Rightarrow> (Inr (), s\<lparr>ad_pending := Some p, ad_line := []\<rparr>)))"
  using assms
  by (cases "parse_manifest_entry L (line_text (ad_line s))")
    (simp_all add: finish_line_def line_entry_def)

lemma finish_line_permissions: "ad_permissions (snd (finish_line L s)) = ad_permissions s"
  by (simp add: finish_line_def split: option.split sum.split prod.split)

lemma append_parts_permissions: "ad_permissions (snd (append_parts L ps s)) = ad_permissions s"
proof (induction L ps s rule: append_parts.induct)
  case (2 L part ps s)
  let ?s = "s\<lparr>ad_line := ad_line s @ part\<rparr>"
  obtain r s' where f: "finish_line L ?s = (r, s')" by fastforce
  then have "ad_permissions s' = ad_permissions s" using finish_line_permissions [of L ?s] by simp
  with 2 f show ?case by (cases r) (auto simp: Let_def)
qed simp

text \<open>
  The index after the complete lines of a text, if they are admitted and what follows them is not
  too long; an outcome that leaves this index, or fails.
\<close>

definition read_upto :: "wire_library \<Rightarrow> nat \<Rightarrow> string \<Rightarrow> permissions_index \<Rightarrow> permissions_index option" where
  "read_upto L n t p =
     (if length (partial_line t) \<le> CHUNK_BYTES then admit_lines L n (whole_lines t) p else None)"

definition settles :: "'s admission outcome \<Rightarrow> 's admission \<Rightarrow> string \<Rightarrow> permissions_index option \<Rightarrow> bool" where
  "settles r s rest q \<longleftrightarrow>
     (case q of
        Some p \<Rightarrow> r = (Inr (), s\<lparr>ad_line := rest, ad_pending := Some p\<rparr>)
      | None \<Rightarrow> \<exists>e s'. r = (Inl e, s'))"

lemma settles_simps:
  "settles r s rest None \<longleftrightarrow> (\<exists>e s'. r = (Inl e, s'))"
  "settles r s rest (Some p) \<longleftrightarrow> r = (Inr (), s\<lparr>ad_line := rest, ad_pending := Some p\<rparr>)"
  by (simp_all add: settles_def)

lemma settles_line [simp]: "settles r (s\<lparr>ad_line := x\<rparr>) rest q \<longleftrightarrow> settles r s rest q"
  by (cases q) (simp_all add: settles_simps)

lemma settles_update [simp]:
  "settles r (s\<lparr>ad_pending := y\<rparr>) rest q \<longleftrightarrow> settles r s rest q"
  by (cases q) (simp_all add: settles_simps)

lemma read_upto_line:
  assumes "CHR 0x0A \<notin> set l"
  shows "read_upto L n (l @ CHR 0x0A # b) p =
    (if CHUNK_BYTES < length (l @ [CHR 0x0A]) then None
     else case line_entry L (l @ [CHR 0x0A]) of
       Inl _ \<Rightarrow> None
     | Inr None \<Rightarrow> read_upto L n b p
     | Inr (Some e) \<Rightarrow> (case permissions_insert n e p of
           (Inl _, _) \<Rightarrow> None
         | (Inr _, p) \<Rightarrow> read_upto L n b p))"
  using cut_line [OF assms, of b]
  by (simp add: read_upto_def split: sum.split option.split prod.split)

lemma append_parts_spec:
  assumes "ad_pending s = Some p" "CHR 0x0A \<notin> set (ad_line s)" "length (ad_line s) \<le> CHUNK_BYTES"
  shows "settles (append_parts L (split_inclusive (CHR 0x0A) data) s) s (partial_line (ad_line s @ data))
    (read_upto L (ad_max_entries s) (ad_line s @ data) p)"
  using assms
proof (induction data arbitrary: s p rule: length_induct)
  case (1 data)
  show ?case
  proof (cases "CHR 0x0A \<in> set data")
    case False
    then have "last data \<noteq> CHR 0x0A" if "data \<noteq> []" using last_in_set [OF that] by auto
    with 1(2-4) False show ?thesis
      using cut_no_newline [of "ad_line s @ data"]
      by (auto simp: split_inclusive_no_newline Let_def read_upto_def settles_simps)
  next
    case True
    then obtain a b where d: "data = a @ CHR 0x0A # b" "CHR 0x0A \<notin> set a" by (meson split_list_first)
    let ?l = "(ad_line s @ a) @ [CHR 0x0A]"
    let ?s = "s\<lparr>ad_line := ?l\<rparr>"
    have l: "CHR 0x0A \<notin> set (ad_line s @ a)" using d 1 by simp
    have IH: "settles (append_parts L (split_inclusive (CHR 0x0A) b) (s\<lparr>ad_pending := Some q, ad_line := []\<rparr>))
        s (partial_line b) (read_upto L (ad_max_entries s) b q)" for q
      using 1(1) [rule_format, of b "s\<lparr>ad_pending := Some q, ad_line := []\<rparr>" q] d by simp
    have step: "append_parts L (split_inclusive (CHR 0x0A) data) s =
        (if CHUNK_BYTES < length ?l then (Inl LineTooLong, s)
         else chain (finish_line L ?s) (append_parts L (split_inclusive (CHR 0x0A) b)))"
      using d by (simp add: split_inclusive_line)
    have pend: "ad_pending ?s = Some p" using 1 by simp
    have IH0: "settles (append_parts L (split_inclusive (CHR 0x0A) b) (s\<lparr>ad_line := []\<rparr>))
        s (partial_line b) (read_upto L (ad_max_entries s) b p)"
      using 1(1) [rule_format, of b "s\<lparr>ad_line := []\<rparr>" p] d 1(2) by simp
    have data: "ad_line s @ data = (ad_line s @ a) @ CHR 0x0A # b" using d by simp
    have rest: "partial_line (ad_line s @ a @ CHR 0x0A # b) = partial_line b"
      using cut_line [OF l, of b] by simp
    show ?thesis
      unfolding step data read_upto_line [OF l] finish_line_pending [OF pend]
      using IH IH0
      by (simp add: settles_simps rest split: sum.split option.split prod.split)
  qed
qed

subsection \<open>The states of an admission\<close>

definition admitting :: "wire_library \<Rightarrow> ('s, string) engine \<Rightarrow> authorization \<Rightarrow> nat \<Rightarrow> string \<Rightarrow>
    's admission \<Rightarrow> bool" where
  "admitting L B a n t s \<longleftrightarrow>
     ad_authorization s = a \<and> ad_max_entries s = n \<and> ad_received s = length t \<and>
     (\<exists>chunks. concat chunks = t \<and> ad_hasher s = foldl (eng_update B) (eng_new B) chunks) \<and>
     ad_line s = partial_line t \<and> length (partial_line t) \<le> CHUNK_BYTES \<and>
     ad_pending s \<noteq> None \<and> admit_lines L n (whole_lines t) permissions_new = ad_pending s \<and>
     ad_permissions s = None"

definition opened :: "wire_library \<Rightarrow> ('s, string) engine \<Rightarrow> authorization \<Rightarrow> nat \<Rightarrow> string \<Rightarrow>
    's admission \<Rightarrow> bool" where
  "opened L B a n t s \<longleftrightarrow>
     ad_pending s = None \<and> ad_permissions s \<noteq> None \<and> length t = au_bytes a \<and> eng_hash B t = au_digest a \<and>
     admit_lines L n (split_inclusive (CHR 0x0A) t) permissions_new = ad_permissions s"

definition closed :: "'s admission \<Rightarrow> bool" where
  "closed s \<longleftrightarrow> ad_pending s = None \<and> ad_permissions s = None"

lemma admitting_new: "admitting L B a n [] (admission_new B a n)"
  by (auto simp: admitting_def admission_new_def whole_lines_def partial_line_def intro!: exI [of _ "[]"])

lemma line_entry_Nil: "line_entry L [] = Inr None"
  by (simp add: line_entry_def line_text_def trim_end_matches_def)

lemma admit_split:
  assumes "length (partial_line t) \<le> CHUNK_BYTES"
  shows "admit_lines L n (split_inclusive (CHR 0x0A) t) p =
    Option.bind (admit_lines L n (whole_lines t) p) (admit_lines L n [partial_line t])"
  using assms
  by (cases "admit_lines L n (whole_lines t) p")
    (simp_all add: split_inclusive_cut admit_lines_append line_entry_Nil)

text \<open>What appending the next chunk does before the end of the manifest.\<close>

lemma append_parts_admitting:
  assumes "admitting L B a n t s"
  shows "settles (append_parts L (split_inclusive (CHR 0x0A) data) s) s (partial_line (t @ data))
    (read_upto L n (t @ data) permissions_new)"
proof -
  obtain p where p: "ad_pending s = Some p" "admit_lines L n (whole_lines t) permissions_new = Some p"
    using assms by (auto simp: admitting_def)
  then have "read_upto L n (t @ data) permissions_new = read_upto L n (partial_line t @ data) p"
    using cut_append [of t data] by (simp add: admit_lines_append read_upto_def)
  then show ?thesis
    using append_parts_spec [of s p L data] assms p partial_line_no_newline [of t] cut_append [of t data]
    by (simp add: admitting_def)
qed

text \<open>
  A chunk at the right offset, within the bounds, whose lines are admitted: the state after it. At
  the end the whole must match the authorization and the last line is admitted too.
\<close>

definition chunk_ok :: "wire_library \<Rightarrow> authorization \<Rightarrow> nat \<Rightarrow> string \<Rightarrow> nat \<Rightarrow> string \<Rightarrow> bool" where
  "chunk_ok L a n t offset data \<longleftrightarrow>
     offset = length t \<and> length data \<le> CHUNK_BYTES \<and> length (t @ data) \<le> u64_max \<and>
     length (t @ data) \<le> au_bytes a \<and> read_upto L n (t @ data) permissions_new \<noteq> None"

definition finish_ok :: "wire_library \<Rightarrow> ('s, string) engine \<Rightarrow> authorization \<Rightarrow> nat \<Rightarrow> string \<Rightarrow> bool" where
  "finish_ok L B a n t \<longleftrightarrow> length t = au_bytes a \<and> eng_hash B t = au_digest a \<and>
     admit_lines L n (split_inclusive (CHR 0x0A) t) permissions_new \<noteq> None"

definition fed :: "('s, string) engine \<Rightarrow> string \<Rightarrow> 's admission \<Rightarrow> 's admission" where
  "fed B data s = s\<lparr>ad_hasher := eng_update B (ad_hasher s) data, ad_received := ad_received s + length data\<rparr>"

lemma fed_admitting:
  assumes s: "admitting L B a n t s" and p: "read_upto L n (t @ data) permissions_new = Some p"
  shows "admitting L B a n (t @ data) (fed B data (s\<lparr>ad_line := partial_line (t @ data), ad_pending := Some p\<rparr>))"
proof -
  obtain chunks where "concat chunks = t" "ad_hasher s = foldl (eng_update B) (eng_new B) chunks"
    using s by (auto simp: admitting_def)
  then have "\<exists>chunks. concat chunks = t @ data \<and>
      eng_update B (ad_hasher s) data = foldl (eng_update B) (eng_new B) chunks"
    by (intro exI [of _ "chunks @ [data]"]) simp
  with s p show ?thesis by (simp add: admitting_def fed_def read_upto_def split: if_splits)
qed

lemma append_body_chunk:
  assumes s: "admitting L B a n t s"
  shows "if chunk_ok L a n t offset data
    then append_body L B s offset data finish =
      (let s' = fed B data (s\<lparr>ad_line := partial_line (t @ data),
             ad_pending := read_upto L n (t @ data) permissions_new\<rparr>)
       in if finish then append_finish L B s' else (Inr (), s'))
    else \<exists>e s'. append_body L B s offset data finish = (Inl e, s') \<and> ad_permissions s' = None"
proof -
  note parts = append_parts_admitting [OF s, of data]
  have st: "ad_received s = length t" "ad_authorization s = a" "ad_permissions s = None"
    using s by (simp_all add: admitting_def)
  show ?thesis
  proof (cases "read_upto L n (t @ data) permissions_new")
    case None
    then obtain e s' where f: "append_parts L (split_inclusive (CHR 0x0A) data) s = (Inl e, s')"
      using parts by (auto simp: settles_simps)
    moreover have "ad_permissions s' = None"
      using append_parts_permissions [of L "split_inclusive (CHR 0x0A) data" s] f st by simp
    ultimately show ?thesis
      using None st by (simp add: chunk_ok_def append_body_def uadd_def)
  next
    case (Some p)
    with parts have "append_parts L (split_inclusive (CHR 0x0A) data) s =
        (Inr (), s\<lparr>ad_line := partial_line (t @ data), ad_pending := Some p\<rparr>)"
      by (simp add: settles_simps)
    with Some st show ?thesis by (simp add: chunk_ok_def append_body_def uadd_def fed_def Let_def)
  qed
qed

lemma append_finish_admitting:
  assumes B: "engine_streams B" and s: "admitting L B a n t s"
  shows "if finish_ok L B a n t
    then \<exists>s'. append_finish L B s = (Inr (), s') \<and> opened L B a n t s'
    else \<exists>e s'. append_finish L B s = (Inl e, s') \<and> ad_permissions s' = None"
proof -
  obtain p where p: "ad_pending s = Some p" "admit_lines L n (whole_lines t) permissions_new = Some p"
    using s by (auto simp: admitting_def)
  have len: "length (partial_line t) \<le> CHUNK_BYTES" and line: "ad_line s = partial_line t"
    and st: "ad_received s = length t" "ad_authorization s = a" "ad_permissions s = None" "ad_max_entries s = n"
    using s by (simp_all add: admitting_def)
  have digest: "eng_finalize B (ad_hasher s) = eng_hash B t"
    using s B by (auto simp: admitting_def engine_streams_def)
  have all: "admit_lines L n (split_inclusive (CHR 0x0A) t) permissions_new =
      admit_lines L n [partial_line t] p"
    using p by (simp add: admit_split [OF len])
  show ?thesis
    using len
    by (auto simp: append_finish_def finish_ok_def opened_def finish_line_pending [OF p(1)] all line st digest p(1)
        split: sum.split option.split prod.split)
qed

text \<open>One append: the chunk is taken and the state is determined by the bytes received, or the
  admission closes for good.\<close>

lemma admission_append_step:
  assumes B: "engine_streams B" and s: "admitting L B a n t s"
  shows "if chunk_ok L a n t offset data \<and> (finish \<longrightarrow> finish_ok L B a n (t @ data))
    then \<exists>s'. admission_append L B s offset data finish = (Inr (), s') \<and>
      (if finish then opened L B a n (t @ data) s' else admitting L B a n (t @ data) s')
    else \<exists>e s'. admission_append L B s offset data finish = (Inl e, s') \<and> closed s'"
proof -
  have pend: "ad_pending s \<noteq> None" using s by (simp add: admitting_def)
  note body = append_body_chunk [OF s, of offset data finish]
  show ?thesis
  proof (cases "chunk_ok L a n t offset data")
    case False
    then show ?thesis using body pend by (auto simp: admission_append_def closed_def)
  next
    case True
    then obtain p where p: "read_upto L n (t @ data) permissions_new = Some p"
      by (auto simp: chunk_ok_def)
    let ?s = "fed B data (s\<lparr>ad_line := partial_line (t @ data), ad_pending := Some p\<rparr>)"
    have next_state: "admitting L B a n (t @ data) ?s" by (rule fed_admitting [OF s p])
    have "append_body L B s offset data finish = (if finish then append_finish L B ?s else (Inr (), ?s))"
      using body True p by (simp add: Let_def)
    then show ?thesis
      using True pend next_state append_finish_admitting [OF B next_state]
      by (auto simp: admission_append_def closed_def split: if_splits)
  qed
qed

lemma admission_append_closed:
  "ad_pending s = None \<Longrightarrow> admission_append L B s offset data finish = (Inl AlreadyClosed, s)"
  by (simp add: admission_append_def)

text \<open>The states any sequence of appends reaches, in any order and with any failures.\<close>

inductive admission_reached :: "wire_library \<Rightarrow> ('s, string) engine \<Rightarrow> authorization \<Rightarrow> nat \<Rightarrow>
    's admission \<Rightarrow> bool" for L B a n where
  start: "admission_reached L B a n (admission_new B a n)"
| append: "admission_reached L B a n s \<Longrightarrow>
    admission_reached L B a n (snd (admission_append L B s offset data finish))"

lemma admission_reached_state:
  assumes "engine_streams B" "admission_reached L B a n s"
  shows "(\<exists>t. admitting L B a n t s) \<or> (\<exists>t. opened L B a n t s) \<or> closed s"
  using assms(2)
proof induction
  case start
  then show ?case using admitting_new by blast
next
  case (append s offset data finish)
  then consider t where "admitting L B a n t s" | "ad_pending s = None"
    by (auto simp: opened_def closed_def)
  then show ?case
  proof cases
    case 1
    show ?thesis
      using admission_append_step [OF assms(1) 1, of offset data finish] by (auto split: if_splits)
  next
    case 2
    with append show ?thesis by (simp add: admission_append_closed)
  qed
qed

lemma opened_index:
  assumes "opened L B a n t s"
  shows "\<exists>es. manifest_entries L (split_inclusive (CHR 0x0A) t) = Some es \<and> admissible n es \<and>
    (\<forall>l \<in> set (split_inclusive (CHR 0x0A) t). length l \<le> CHUNK_BYTES) \<and>
    ad_permissions s = Some (index_of es)"
proof -
  have "admissible n []" by (simp add: admissible_def consistent_def conflict_free_def fits_def)
  from admit_lines_index [OF this, of L "split_inclusive (CHR 0x0A) t"] assms show ?thesis
    by (auto simp: opened_def permissions_new_index split: option.splits if_splits)
qed

lemma allows_index:
  "permissions_allows (index_of es) q directory \<longleftrightarrow>
     (\<exists>e \<in> set es. me_dst e = q) \<or>
     (directory \<noteq> Some False \<and> (q = [] \<or> (\<exists>e \<in> set es. \<exists>rest. me_dst e = q @ CHR ''/'' # rest)))"
proof -
  have "px_entries (index_of es) q \<noteq> None \<longleftrightarrow> (\<exists>e \<in> set es. me_dst e = q)"
    using arg_cong [OF index_entries_dom, of "\<lambda>X. q \<in> X" es] by (auto simp: dsts_def)
  then show ?thesis
    by (auto simp: permissions_allows_def index_parents dirs_above_def dsts_def in_ancestors) metis
qed

subsection \<open>Sending a whole manifest\<close>

text \<open>What the sender's loop transfers in one round.\<close>

lemma send_chunk:
  assumes "offset \<le> length c" "k = min (offset + CHUNK_BYTES) (length c)"
  shows "take offset c @ take (k - offset) (drop offset c) = take k c"
    "length (take (k - offset) (drop offset c)) \<le> CHUNK_BYTES" "k \<le> length c" "offset \<le> k"
    "k \<noteq> length c \<Longrightarrow> length c - k < length c - offset"
  using assms by (auto simp: take_add [symmetric] min_def CHUNK_BYTES_def)

lemma send_chunk_ok:
  assumes ok: "admit_lines L n (split_inclusive (CHR 0x0A) c) permissions_new \<noteq> None"
    and lines: "\<And>l. l \<in> set (split_inclusive (CHR 0x0A) c) \<Longrightarrow> length l \<le> CHUNK_BYTES"
  shows "read_upto L n (take k c) permissions_new \<noteq> None"
proof -
  let ?t = "take k c"
  have "length (partial_line ?t) \<le> CHUNK_BYTES"
    using partial_line_extends [of ?t "drop k c"] lines by (cases "partial_line ?t = []") fastforce+
  moreover have "split_inclusive (CHR 0x0A) c =
      whole_lines ?t @ split_inclusive (CHR 0x0A) (partial_line ?t @ drop k c)"
    using cut_append [of ?t "drop k c"] by (simp add: split_inclusive_cut)
  then have "admit_lines L n (whole_lines ?t) permissions_new \<noteq> None"
    using ok by (cases "admit_lines L n (whole_lines ?t) permissions_new") (auto simp: admit_lines_append)
  ultimately show ?thesis by (simp add: read_upto_def)
qed

lemma admit_lines_short:
  "admit_lines L n ls p \<noteq> None \<Longrightarrow> l \<in> set ls \<Longrightarrow> length l \<le> CHUNK_BYTES"
  by (induction L n ls p rule: admit_lines.induct)
    (auto split: if_splits sum.splits option.splits prod.splits)

lemma send_from_iff:
  assumes B: "engine_streams B" and len: "length c \<le> u64_max"
    and a: "a = authorization_from_contents B c"
    and s: "admitting L B a n (take offset c) s" and off: "offset \<le> length c"
  shows "if admit_lines L n (split_inclusive (CHR 0x0A) c) permissions_new \<noteq> None
    then \<exists>s'. send_from (admission_append L B) c offset s = (Inr (), s') \<and> opened L B a n c s'
    else \<exists>e s'. send_from (admission_append L B) c offset s = (Inl e, s') \<and> closed s'"
  using s off
proof (induction "length c - offset" arbitrary: offset s rule: less_induct)
  case less
  define k where "k = min (offset + CHUNK_BYTES) (length c)"
  define data where "data = take (k - offset) (drop offset c)"
  define finish where "finish \<longleftrightarrow> k = length c"
  note chunk = send_chunk [OF less.prems(2) k_def, folded data_def]
  let ?ok = "admit_lines L n (split_inclusive (CHR 0x0A) c) permissions_new \<noteq> None"
  have unfold: "send_from (admission_append L B) c offset s =
      (case admission_append L B s offset data finish of
         (Inl e, s) \<Rightarrow> (Inl e, s)
       | (Inr _, s) \<Rightarrow> if finish then (Inr (), s) else send_from (admission_append L B) c k s)"
    by (subst send_from.simps) (simp only: k_def data_def finish_def Let_def)
  have step: "if chunk_ok L a n (take offset c) offset data \<and> (finish \<longrightarrow> finish_ok L B a n (take k c))
    then \<exists>s'. admission_append L B s offset data finish = (Inr (), s') \<and>
      (if finish then opened L B a n (take k c) s' else admitting L B a n (take k c) s')
    else \<exists>e s'. admission_append L B s offset data finish = (Inl e, s') \<and> closed s'"
    by (rule admission_append_step [OF B less.prems(1), of offset data finish, unfolded chunk(1)])
  have bytes: "length (take offset c @ data) \<le> length c" "length (take offset c) = offset"
    using less.prems(2) chunk(1,3) by simp_all
  have chunk_iff: "chunk_ok L a n (take offset c) offset data \<longleftrightarrow> read_upto L n (take k c) permissions_new \<noteq> None"
    using bytes chunk(2) len
    by (auto simp: chunk_ok_def chunk(1) a authorization_from_contents_def min.coboundedI1)
  have finish_iff: "finish_ok L B a n (take k c) \<longleftrightarrow> ?ok" if finish
    using that by (simp add: finish_def finish_ok_def a authorization_from_contents_def)
  have prefix: "read_upto L n (take k c) permissions_new \<noteq> None" if ?ok
    using that admit_lines_short [OF that] by (intro send_chunk_ok)
  show ?case
  proof (cases finish)
    case True
    then have "take k c = c" by (simp add: finish_def)
    with True step prefix finish_iff show ?thesis
      unfolding unfold chunk_iff by (auto split: if_splits)
  next
    case False
    then have IH: "if ?ok
        then \<exists>s'. send_from (admission_append L B) c k s1 = (Inr (), s') \<and> opened L B a n c s'
        else \<exists>e s'. send_from (admission_append L B) c k s1 = (Inl e, s') \<and> closed s'"
      if "admitting L B a n (take k c) s1" for s1
      using less.hyps [of k s1] that chunk(3,5) by (simp add: finish_def)
    show ?thesis
      using False step prefix IH unfolding unfold chunk_iff by (auto split: if_splits)
  qed
qed

lemma send_iff:
  assumes "engine_streams B" "length c \<le> u64_max"
  shows "fst (send (admission_append L B) c (admission_new B (authorization_from_contents B c) n)) = Inr () \<longleftrightarrow>
    admit_lines L n (split_inclusive (CHR 0x0A) c) permissions_new \<noteq> None"
  using send_from_iff [OF assms refl, of L n 0 "admission_new B (authorization_from_contents B c) n"]
    admitting_new [of L B "authorization_from_contents B c" n]
  by (auto simp: send_def split: if_splits)

lemma read_mapping_manifest_iff:
  assumes "lists_keys order"
  shows "(\<exists>m. read_mapping_manifest order L c = Inr m \<and>
      input_authorization B (pm_input m) = Inr a \<and> fits n (map snd (pm_entries m))) \<longleftrightarrow>
    (a = authorization_from_contents B c \<and>
     (\<exists>es. manifest_entries L (split_inclusive (CHR 0x0A) c) = Some es \<and> consistent es \<and> fits n es \<and>
       within_bounds (split_inclusive (CHR 0x0A) c) es))"
proof (cases "manifest_entries L (split_inclusive (CHR 0x0A) c)")
  case None
  then show ?thesis
    using read_lines_spec [of L c 0 None "[]"] by (auto simp: read_mapping_manifest_def)
next
  case (Some new)
  then obtain es r where rd: "read_lines L c 0 None [] = Inr (es, r)" "map snd es = new"
    "r = None \<longleftrightarrow> within_bounds (split_inclusive (CHR 0x0A) c) new"
    using read_lines_spec [of L c 0 None "[]"] by auto
  have "map snd (map (\<lambda>(line, e). (line, me_dst e, me_kind e)) es) = map (\<lambda>e. (me_dst e, me_kind e)) new"
    unfolding rd(2) [symmetric] by auto
  then have valid: "validate_destinations order (map (\<lambda>(line, e). (line, me_dst e, me_kind e)) es) = Inr () \<longleftrightarrow>
      consistent new"
    by (simp only: validate_destinations_iff [OF assms] consistent_def) (simp add: comp_def)
  with Some rd show ?thesis
    by (cases "validate_destinations order (map (\<lambda>(line, e). (line, me_dst e, me_kind e)) es)")
      (auto simp: read_mapping_manifest_def parsed_manifest_new_def input_authorization_def
        validate_restricted_bounds_def split: option.splits)
qed

subsection \<open>A sample manifest\<close>

text \<open>A manifest whose lines are the destination itself, with a fixed source.\<close>

definition sample_wire :: wire_library where
  "sample_wire =
     \<lparr>json_entry = (\<lambda>t. Inr
        \<lparr>we_src = \<lparr>wp_encoding = ''utf-8'', wp_value = ''s'', wp_display = None\<rparr>,
         we_dst = \<lparr>wp_encoding = ''utf-8'', wp_value = t, wp_display = None\<rparr>,
         we_kind = None, we_expected_hash = None, we_metadata = None,
         we_size = None, we_mtime = None, we_s3_last_modified = None\<rparr>),
      base64_decode = Inr\<rparr>"

definition sample_blake3 :: "(string, string) engine" where
  "sample_blake3 = sample_engine (sample_cut 32)"

definition sample_manifest :: string where
  "sample_manifest = ''a/b'' @ [CHR 0x0A] @ ''c''"

definition sample_admission :: "string admission" where
  "sample_admission = snd (admission_append sample_wire sample_blake3
     (admission_new sample_blake3 (authorization_from_contents sample_blake3 sample_manifest) 9)
     0 sample_manifest True)"

definition sample_entry_at :: "string \<Rightarrow> manifest_entry" where
  "sample_entry_at d = \<lparr>me_src = ''s'', me_dst = d, me_kind = None, me_expected_hash = None, me_metadata = None\<rparr>"

lemma sample_blake3_streams: "engine_streams sample_blake3"
  by (simp add: sample_blake3_def sample_engine_streams)

lemma sample_lines: "split_inclusive (CHR 0x0A) sample_manifest = [''a/b'' @ [CHR 0x0A], ''c'']"
  by (simp add: sample_manifest_def)

lemma sample_entries:
  "manifest_entries sample_wire [''a/b'' @ [CHR 0x0A], ''c''] = Some [sample_entry_at ''a/b'', sample_entry_at ''c'']"
  by (simp add: line_entry_def line_text_def trim_end_matches_def byte_def parse_manifest_entry_def
      sample_wire_def wire_entry_validate_def wire_kind_def wire_path_decode_def validate_manifest_path_def
      sample_entry_at_def)

lemma sample_admissible: "admissible 9 [sample_entry_at ''a/b'', sample_entry_at ''c'']"
proof -
  have anc: "ancestors ''a/b'' = [''a'']" "ancestors ''c'' = []"
    by (simp_all add: ancestors_def upt_rec)
  have "dirs_above {''a/b'', ''c''} \<union> {''a/b'', ''c''} = {[], ''a'', ''a/b'', ''c''}"
    by (auto simp: dirs_above_def anc)
  then show ?thesis
    by (simp add: admissible_def consistent_def conflict_free_def fits_def index_size_def dsts_def
        sample_entry_at_def not_dir_def MAX_PATH_BYTES_def)
qed

lemma sample_opened:
  "opened sample_wire sample_blake3 (authorization_from_contents sample_blake3 sample_manifest) 9
     sample_manifest sample_admission"
proof -
  let ?a = "authorization_from_contents sample_blake3 sample_manifest"
  have "admissible 9 []" by (simp add: admissible_def consistent_def conflict_free_def fits_def)
  from admit_lines_index [OF this, of sample_wire "[''a/b'' @ [CHR 0x0A], ''c'']"]
  have adm: "admit_lines sample_wire 9 (split_inclusive (CHR 0x0A) sample_manifest) permissions_new \<noteq> None"
    unfolding sample_lines permissions_new_index sample_entries using sample_admissible
    by (simp add: CHUNK_BYTES_def)
  then have "read_upto sample_wire 9 (take 9 sample_manifest) permissions_new \<noteq> None"
    using admit_lines_short by (intro send_chunk_ok) blast+
  then have "chunk_ok sample_wire ?a 9 [] 0 sample_manifest" "finish_ok sample_wire sample_blake3 ?a 9 sample_manifest"
    using adm
    by (simp_all add: chunk_ok_def finish_ok_def authorization_from_contents_def sample_manifest_def
        CHUNK_BYTES_def u64_max_def)
  then show ?thesis
    using admission_append_step [OF sample_blake3_streams admitting_new, of sample_wire ?a 9 0 sample_manifest True]
    by (auto simp: sample_admission_def)
qed

lemma admitted_manifest:
  assumes "engine_streams B" "admission_reached L B a n s" "admission_permissions s = Inr p"
  obtains contents es where "length contents = au_bytes a" "eng_hash B contents = au_digest a"
    "manifest_entries L (split_inclusive (CHR 0x0A) contents) = Some es" "p = index_of es"
proof -
  have p: "ad_permissions s = Some p" using assms(3) by (simp add: admission_permissions_def split: option.splits)
  then obtain t where t: "opened L B a n t s"
    using admission_reached_state [OF assms(1,2)] by (auto simp: admitting_def closed_def)
  from opened_index [OF t] p obtain es where
    "manifest_entries L (split_inclusive (CHR 0x0A) t) = Some es" "p = index_of es" by auto
  with t show ?thesis by (intro that [of t es]) (simp_all add: opened_def)
qed

subsection \<open>The properties\<close>

text \<open>C9. A restricted receiver opens a mapping only for the signed manifest, and allows exactly what it
  lists: whatever chunks arrive, in whatever order and with whatever failures, if the admission
  gives permissions, then there is a manifest with the signed length and digest, every line of it
  parses, and a path is allowed exactly when it is the destination of an entry or, unless a
  non-directory is asked for, the container or a directory above the destination of an entry.\<close>

theorem mapping_opens_only_signed:
  assumes "engine_streams B" "admission_reached L B a n s" "admission_permissions s = Inr p"
  shows "\<exists>contents es. length contents = au_bytes a \<and> eng_hash B contents = au_digest a \<and>
    manifest_entries L (split_inclusive (CHR 0x0A) contents) = Some es \<and>
    (\<forall>q directory. permissions_allows p q directory \<longleftrightarrow>
       (\<exists>e \<in> set es. me_dst e = q) \<or>
       (directory \<noteq> Some False \<and> (q = [] \<or> (\<exists>e \<in> set es. \<exists>rest. me_dst e = q @ CHR ''/'' # rest))))"
proof -
  from admitted_manifest [OF assms] obtain contents es where
    "length contents = au_bytes a" "eng_hash B contents = au_digest a"
    "manifest_entries L (split_inclusive (CHR 0x0A) contents) = Some es" "p = index_of es" .
  then show ?thesis by (intro exI [of _ contents] exI [of _ es]) (simp add: allows_index)
qed

theorem mapping_opens_only_signed_witness:
  "\<exists>p. admission_permissions sample_admission = Inr p \<and>
    (\<exists>contents es. length contents = 5 \<and>
      manifest_entries sample_wire (split_inclusive (CHR 0x0A) contents) = Some es \<and>
      (permissions_allows p ''x'' None \<longleftrightarrow>
        (\<exists>e \<in> set es. me_dst e = ''x'') \<or> (\<exists>e \<in> set es. \<exists>rest. me_dst e = ''x'' @ CHR ''/'' # rest)))"
proof -
  let ?a = "authorization_from_contents sample_blake3 sample_manifest"
  obtain p where p: "admission_permissions sample_admission = Inr p"
    using sample_opened by (auto simp: opened_def admission_permissions_def)
  have r: "admission_reached sample_wire sample_blake3 ?a 9 sample_admission"
    unfolding sample_admission_def by (intro admission_reached.intros)
  have "au_bytes ?a = 5" by (simp add: authorization_from_contents_def sample_manifest_def)
  with mapping_opens_only_signed [OF sample_blake3_streams r p] p show ?thesis by auto
qed

text \<open>C10. The sender's preflight accepts exactly what the receiver admits: a manifest goes through the
  sender's loop into a fresh admission for its own length and digest if and only if it is read
  without error (every line parses, no destination occurs twice, no entry above another is declared
  as a non-directory), its authorization is granted (no line over 1 MiB, no destination over 4096
  bytes) and its destinations and the directories above them fit the signed limit.\<close>

theorem preflight_mirrors_receiver:
  assumes "engine_streams B" "lists_keys order" "length contents \<le> u64_max"
  shows "fst (send (admission_append L B) contents
      (admission_new B (authorization_from_contents B contents) n)) = Inr () \<longleftrightarrow>
    (\<exists>m. read_mapping_manifest order L contents = Inr m \<and>
       input_authorization B (pm_input m) = Inr (authorization_from_contents B contents) \<and>
       fits n (map snd (pm_entries m)))"
proof -
  have "admissible n []" by (simp add: admissible_def consistent_def conflict_free_def fits_def)
  from admit_lines_index [OF this, of L "split_inclusive (CHR 0x0A) contents"]
  have "admit_lines L n (split_inclusive (CHR 0x0A) contents) permissions_new \<noteq> None \<longleftrightarrow>
      (\<exists>es. manifest_entries L (split_inclusive (CHR 0x0A) contents) = Some es \<and> consistent es \<and> fits n es \<and>
        within_bounds (split_inclusive (CHR 0x0A) contents) es)"
    by (auto simp: permissions_new_index admissible_def within_bounds_def split: option.splits)
  then show ?thesis
    using send_iff [OF assms(1,3), of L n]
      read_mapping_manifest_iff [OF assms(2), of L contents B "authorization_from_contents B contents" n]
    by simp
qed

theorem preflight_mirrors_receiver_witness:
  "fst (send (admission_append sample_wire sample_blake3) sample_manifest
     (admission_new sample_blake3 (authorization_from_contents sample_blake3 sample_manifest) 9)) = Inr ()"
proof -
  have order: "lists_keys (sorted_list_of_set :: string set \<Rightarrow> string list)"
    by (simp add: lists_keys_def)
  have "consistent [sample_entry_at ''a/b'', sample_entry_at ''c'']"
    "fits 9 [sample_entry_at ''a/b'', sample_entry_at ''c'']"
    "within_bounds [''a/b'' @ [CHR 0x0A], ''c''] [sample_entry_at ''a/b'', sample_entry_at ''c'']"
    using sample_admissible by (simp_all add: admissible_def within_bounds_def CHUNK_BYTES_def)
  then have "\<exists>m. read_mapping_manifest sorted_list_of_set sample_wire sample_manifest = Inr m \<and>
      input_authorization sample_blake3 (pm_input m) =
        Inr (authorization_from_contents sample_blake3 sample_manifest) \<and> fits 9 (map snd (pm_entries m))"
    unfolding read_mapping_manifest_iff [OF order] using sample_entries by (simp add: sample_lines)
  moreover have "length sample_manifest \<le> u64_max" by (simp add: sample_manifest_def u64_max_def)
  ultimately show ?thesis
    using preflight_mirrors_receiver [OF sample_blake3_streams order] by blast
qed

end
