(* ===== verification/Wire_Limits.thy ===== *)
theory Wire_Limits
  imports Syq_Prelude
begin

section \<open>Sizes of requests and responses\<close>

text \<open>
  The checks of \<open>src/src/proto.rs\<close> that keep block hashes and patches within one frame. All
  quantities are \<open>u64\<close>; a product or a sum that does not fit is refused, as in the source.
\<close>

definition umul :: "nat \<Rightarrow> nat \<Rightarrow> nat option" where
  "umul a b = (if a * b \<le> u64_max then Some (a * b) else None)"

lemma umul_eq_Some [simp]: "umul a b = Some c \<longleftrightarrow> a * b \<le> u64_max \<and> c = a * b"
  by (auto simp: umul_def)

definition MAX_FRAME :: nat where "MAX_FRAME = 65 * 1024 * 1024"
definition MAX_READ_BYTES :: nat where "MAX_READ_BYTES = 64 * 1024 * 1024"
definition MIN_HASH_BLOCK_BYTES :: nat where "MIN_HASH_BLOCK_BYTES = 64 * 1024"
definition MAX_HASH_BLOCK_BYTES :: nat where "MAX_HASH_BLOCK_BYTES = 64 * 1024 * 1024"
definition HASH_RESPONSE_BYTES_PER_ENTRY :: nat where "HASH_RESPONSE_BYTES_PER_ENTRY = 32"
definition HASH_RESPONSE_OVERHEAD :: nat where "HASH_RESPONSE_OVERHEAD = 24"
definition EXISTING_HASHES_OVERHEAD :: nat where "EXISTING_HASHES_OVERHEAD = 64"
definition i64_max :: nat where "i64_max = 2 ^ 63 - 1"

lemmas wire_constants = MAX_FRAME_def MAX_READ_BYTES_def MIN_HASH_BLOCK_BYTES_def
  MAX_HASH_BLOCK_BYTES_def HASH_RESPONSE_BYTES_PER_ENTRY_def HASH_RESPONSE_OVERHEAD_def
  EXISTING_HASHES_OVERHEAD_def

definition hash_window_fits :: "nat \<Rightarrow> nat \<Rightarrow> nat \<Rightarrow> bool" where
  "hash_window_fits off len block \<longleftrightarrow>
     len > 0 \<and> len \<le> MAX_READ_BYTES \<and> block > 0 \<and> block \<le> MAX_READ_BYTES \<and>
     div_ceil len block \<le> 1024 \<and>
     (case uadd off len of None \<Rightarrow> False | Some e \<Rightarrow> e \<le> i64_max)"

definition hash_response_fits :: "nat \<Rightarrow> nat \<Rightarrow> bool" where
  "hash_response_fits block len \<longleftrightarrow>
     (if \<not> (MIN_HASH_BLOCK_BYTES \<le> block \<and> block \<le> MAX_HASH_BLOCK_BYTES) then False
      else case Option.bind (umul (div_ceil len block) HASH_RESPONSE_BYTES_PER_ENTRY)
             (\<lambda>bytes. uadd bytes HASH_RESPONSE_OVERHEAD) of
          None \<Rightarrow> False
        | Some bytes \<Rightarrow> bytes < MAX_FRAME)"

definition hash_response_window :: "nat \<Rightarrow> nat" where
  "hash_response_window block =
     (MAX_FRAME - HASH_RESPONSE_OVERHEAD - 1) div HASH_RESPONSE_BYTES_PER_ENTRY * block"

definition patch_batch_fits :: "nat list \<Rightarrow> bool" where
  "patch_batch_fits lens \<longleftrightarrow> foldl sat_add 0 lens \<le> MAX_READ_BYTES"

fun existing_hashes_bytes :: "nat \<Rightarrow> nat list \<Rightarrow> nat \<Rightarrow> nat option" where
  "existing_hashes_bytes block [] bytes = Some bytes"
| "existing_hashes_bytes block (len # lens) bytes =
     Option.bind (umul (div_ceil len block) (HASH_RESPONSE_BYTES_PER_ENTRY + 1)) (\<lambda>hashes.
     Option.bind (uadd hashes EXISTING_HASHES_OVERHEAD) (\<lambda>file_bytes.
     Option.bind (uadd bytes file_bytes) (existing_hashes_bytes block lens)))"

definition existing_hashes_fit :: "nat \<Rightarrow> nat list \<Rightarrow> bool" where
  "existing_hashes_fit block lens \<longleftrightarrow>
     (if \<not> (MIN_HASH_BLOCK_BYTES \<le> block \<and> block \<le> MAX_HASH_BLOCK_BYTES) then False
      else case existing_hashes_bytes block lens HASH_RESPONSE_OVERHEAD of
          None \<Rightarrow> False
        | Some bytes \<Rightarrow> bytes < MAX_FRAME)"

text \<open>The size of one request under a rate limit, of \<open>src/src/bwlimit.rs\<close>; the clock that paces requests is not modelled.\<close>

definition bytes_for_interval :: "nat \<Rightarrow> nat \<Rightarrow> nat" where
  "bytes_for_interval bytes_per_sec milliseconds =
     max (min (bytes_per_sec * milliseconds div 1000) u64_max) 512"

definition burst_bytes :: "nat \<Rightarrow> nat" where
  "burst_bytes bytes_per_sec = bytes_for_interval bytes_per_sec 125"

subsection \<open>What fits\<close>

lemma div_ceil_le_iff: "0 < k \<Longrightarrow> div_ceil n k \<le> m \<longleftrightarrow> n \<le> m * k"
  using div_ceil_le [of k n m] div_ceil_bounds(1) [of k n]
  by (meson le_trans mult_le_mono1)

lemma patch_batch_fits_iff: "patch_batch_fits lens \<longleftrightarrow> sum_list lens \<le> MAX_READ_BYTES"
proof -
  have "foldl sat_add a lens = min (a + sum_list lens) u64_max" if "a \<le> u64_max" for a
    using that by (induction lens arbitrary: a) (auto simp: sat_add_def min_def)
  then show ?thesis by (simp add: patch_batch_fits_def u64_max_def MAX_READ_BYTES_def min_le_iff_disj)
qed

text \<open>
  The window of \<open>hash_response_window\<close> is exact: the hashes of a part of a file fit one response if
  and only if the part is no longer than the window, and no product or sum on the way overflows.
\<close>

lemma hash_response_fits_iff:
  "hash_response_fits block len \<longleftrightarrow>
     MIN_HASH_BLOCK_BYTES \<le> block \<and> block \<le> MAX_HASH_BLOCK_BYTES \<and> len \<le> hash_response_window block"
proof (cases "MIN_HASH_BLOCK_BYTES \<le> block \<and> block \<le> MAX_HASH_BLOCK_BYTES")
  case True
  then have "0 < block" by (simp add: MIN_HASH_BLOCK_BYTES_def)
  then have "len \<le> hash_response_window block \<longleftrightarrow> div_ceil len block \<le> 2129919"
    by (simp add: hash_response_window_def wire_constants div_ceil_le_iff)
  with True show ?thesis
    by (auto simp: hash_response_fits_def umul_def uadd_def u64_max_def wire_constants)
qed (auto simp: hash_response_fits_def)

end
