(* ===== verification/Grant_Rules.thy ===== *)
theory Grant_Rules
  imports Admission_Props Wire_Limits
begin

section \<open>The rules of a signed copy\<close>

text \<open>
  What a signed grant allows at a destination and the checks of these rules before a receiver uses
  them: \<open>CopyOperation\<close>, \<open>FilterPolicy\<close>, \<open>ExtraCopyOptions\<close> and \<open>validate_rules\<close> of
  \<open>src/src/delegation.rs\<close>, with \<open>ReceiptPolicy::validate\<close> of \<open>src/src/destination_results.rs\<close> and
  \<open>parse_tcp_congestion\<close> of \<open>src/src/cli.rs\<close>. Whether a list of filter rules compiles is decided by
  the gitignore package: the argument \<open>build_ignore\<close>.
\<close>

datatype (plugins only: code) grant_error =
    NotBoundedAbsolute | DestinationNul | TrailingSlash | NoncanonicalComponent
  | ScopeCount | NonrecursiveDescendants | ScopeOutside
  | EntriesRange | BytesRange | FileBytesRange | ModeChoice | HashBlockRange | ConnectionsRange
  | PortsReversed | DeletionForbidden | DeletionRange
  | FilterCount | FilterRule | FilterInvalid | RootsWithoutRules | RootCount | RootOutside | RootsUnsorted
  | ReceiptNotRequired | ReceiptRecords | ReceiptBytes | ReceiptKey
  | CongestionEmpty | CongestionLong
  | GrantHash hash_error
  | MappingPrunes | AclsNeedPermissions

subsection \<open>Data\<close>

record mutation_scope =
  ms_path :: path_bytes
  ms_descendants :: bool

datatype destination_placement = ExactPath | DirectoryContents | DirectoryAsChild
datatype existing_policy = ReplaceExisting | SkipExisting | MustExist
datatype deletion_policy = ForbidDeletion | DeleteDestinationOnly
datatype publication_policy = AtomicStaged | InPlaceNew | InPlaceUpdate

definition writes_new_files_in_place :: "publication_policy \<Rightarrow> bool" where
  "writes_new_files_in_place p \<longleftrightarrow> p \<noteq> AtomicStaged"

definition updates_existing_files_in_place :: "publication_policy \<Rightarrow> bool" where
  "updates_existing_files_in_place p \<longleftrightarrow> p = InPlaceUpdate"

record copy_policy =
  cp_placement :: destination_placement
  cp_existing :: existing_policy
  cp_deletion :: deletion_policy
  cp_publication :: publication_policy

record copy_options =
  co_recursive :: bool
  co_preserve_symlinks :: bool
  co_preserve_permissions :: bool
  co_receiver_managed_modes :: bool
  co_preserve_times :: bool
  co_preserve_owner :: bool
  co_preserve_group :: bool
  co_preserve_devices :: bool
  co_compare_existing_by_content :: bool
  co_dry_run :: bool
  co_compressed_transport :: bool
  co_tcp_port_lo :: nat
  co_tcp_port_hi :: nat

record copy_limits =
  cl_max_entries :: nat
  cl_max_total_bytes :: nat
  cl_max_file_bytes :: nat
  cl_hash_block_bytes :: nat
  cl_max_connections :: nat
  cl_max_deletions :: nat

record copy_operation =
  cop_destination :: path_bytes
  cop_mutation_scopes :: "mutation_scope list"
  cop_policy :: copy_policy
  cop_options :: copy_options
  cop_limits :: copy_limits

record filter_policy =
  fp_ignore :: "string list"
  fp_destination_roots :: "path_bytes list"
  fp_delete_excluded :: bool

datatype root_existence = RootAny | RootNew | RootExisting

datatype directory_widening = WidenNone | WidenRsync | WidenAll

record extra_copy_options =
  xo_hardlinks :: bool
  xo_acls :: bool
  xo_xattrs :: bool
  xo_atimes :: bool
  xo_crtimes :: bool
  xo_sparse :: bool
  xo_open_noatime :: bool
  xo_widen_dirs :: directory_widening
  xo_keep_files :: bool
  xo_follow_dst :: bool

record selection =
  sel_acls :: bool
  sel_xattrs :: bool
  sel_atimes :: bool
  sel_crtimes :: bool
  sel_open_noatime :: bool

definition extra_allows :: "extra_copy_options \<Rightarrow> selection \<Rightarrow> bool" where
  "extra_allows x s \<longleftrightarrow>
     (\<not> sel_acls s \<or> xo_acls x) \<and> (\<not> sel_xattrs s \<or> xo_xattrs x) \<and>
     (\<not> sel_atimes s \<or> xo_atimes x) \<and> (\<not> sel_crtimes s \<or> xo_crtimes x) \<and>
     (\<not> sel_open_noatime s \<or> xo_open_noatime x)"

datatype receipt_delivery = AttachedEncrypted string | DetachedSignedPlaintext

record receipt_policy =
  rp_required :: bool
  rp_hashed :: bool
  rp_max_records :: nat
  rp_max_plaintext_bytes :: nat
  rp_delivery :: receipt_delivery

record grant_constraints =
  gc_max_file_data_bytes_per_second :: nat
  gc_filters :: filter_policy
  gc_root_existence :: root_existence
  gc_receipt_policy :: receipt_policy
  gc_tcp_congestion :: "string option"
  gc_mapping :: "authorization option"
  gc_hashing :: "copy_hashing option"
  gc_extra_options :: extra_copy_options

subsection \<open>Checks\<close>

definition MAX_MUTATION_SCOPES :: nat where "MAX_MUTATION_SCOPES = 1024 + 1"
definition MAX_ENTRIES :: nat where "MAX_ENTRIES = 1000000000000"
definition MAX_COPY_BYTES :: nat where "MAX_COPY_BYTES = i64_max"
definition MAX_CONNECTIONS :: nat where "MAX_CONNECTIONS = 128"
definition MAX_FILTER_RULES :: nat where "MAX_FILTER_RULES = 4096"
definition MAX_FILTER_RULE_BYTES :: nat where "MAX_FILTER_RULE_BYTES = 4096"
definition MAX_FILTER_ROOTS :: nat where "MAX_FILTER_ROOTS = 1024"
definition DEFAULT_MAX_RECORDS :: nat where "DEFAULT_MAX_RECORDS = 4000000"
definition DEFAULT_MAX_PLAINTEXT_BYTES :: nat where "DEFAULT_MAX_PLAINTEXT_BYTES = 512 * 1024 * 1024"

definition unsafe_component :: "string \<Rightarrow> bool" where
  "unsafe_component c \<longleftrightarrow> c = [] \<or> c = ''.'' \<or> c = ''..''"

definition validate_absolute_path :: "path_bytes \<Rightarrow> grant_error + unit" where
  "validate_absolute_path p =
     (if p = [] \<or> length p > MAX_PATH_BYTES \<or> p ! 0 \<noteq> CHR ''/'' then Inl NotBoundedAbsolute
      else if CHR 0x00 \<in> set p then Inl DestinationNul
      else if p = ''/'' then Inr ()
      else if last p = CHR ''/'' then Inl TrailingSlash
      else if list_ex unsafe_component (split_on (CHR ''/'') (tl p)) then Inl NoncanonicalComponent
      else Inr ())"

text \<open>\<open>path.starts_with(base) && path.get(base.len()) == Some(&b'/')\<close>.\<close>

definition strictly_below :: "path_bytes \<Rightarrow> path_bytes \<Rightarrow> bool" where
  "strictly_below base p \<longleftrightarrow>
     starts_with base p \<and> length base < length p \<and> p ! length base = CHR ''/''"

fun validate_scopes :: "copy_operation \<Rightarrow> mutation_scope list \<Rightarrow> grant_error + unit" where
  "validate_scopes c [] = Inr ()"
| "validate_scopes c (s # ss) =
     and_then (validate_absolute_path (ms_path s)) (\<lambda>_.
       if ms_descendants s \<and> \<not> co_recursive (cop_options c) then Inl NonrecursiveDescendants
       else if ms_path s \<noteq> cop_destination c \<and> \<not> strictly_below (cop_destination c) (ms_path s)
       then Inl ScopeOutside
       else validate_scopes c ss)"

definition validate_limits :: "copy_operation \<Rightarrow> grant_error + unit" where
  "validate_limits c =
     (let l = cop_limits c; opts = cop_options c in
      if cl_max_entries l = 0 \<or> cl_max_entries l > MAX_ENTRIES then Inl EntriesRange
      else if cl_max_total_bytes l = 0 \<or> cl_max_total_bytes l > MAX_COPY_BYTES then Inl BytesRange
      else if cl_max_file_bytes l > cl_max_total_bytes l then Inl FileBytesRange
      else if co_preserve_permissions opts = co_receiver_managed_modes opts then Inl ModeChoice
      else if \<not> hash_response_fits (cl_hash_block_bytes l) 0 then Inl HashBlockRange
      else if cl_max_connections l = 0 \<or> cl_max_connections l > MAX_CONNECTIONS then Inl ConnectionsRange
      else if co_tcp_port_hi opts < co_tcp_port_lo opts then Inl PortsReversed
      else (case cp_deletion (cop_policy c) of
          ForbidDeletion \<Rightarrow> if cl_max_deletions l \<noteq> 0 then Inl DeletionForbidden else Inr ()
        | DeleteDestinationOnly \<Rightarrow>
            if cl_max_deletions l = 0 \<or> cl_max_deletions l > cl_max_entries l then Inl DeletionRange
            else Inr ()))"

definition copy_validate :: "copy_operation \<Rightarrow> grant_error + unit" where
  "copy_validate c =
     and_then (validate_absolute_path (cop_destination c)) (\<lambda>_.
       if cop_mutation_scopes c = [] \<or> length (cop_mutation_scopes c) > MAX_MUTATION_SCOPES then Inl ScopeCount
       else and_then (validate_scopes c (cop_mutation_scopes c)) (\<lambda>_. validate_limits c))"

definition filter_normalize :: "filter_policy \<Rightarrow> filter_policy" where
  "filter_normalize f =
     (if fp_ignore f = [] then f\<lparr>fp_delete_excluded := False, fp_destination_roots := []\<rparr>
      else f\<lparr>fp_destination_roots := remdups_adj (sort (fp_destination_roots f))\<rparr>)"

fun validate_filter_rules :: "string list \<Rightarrow> grant_error + unit" where
  "validate_filter_rules [] = Inr ()"
| "validate_filter_rules (r # rs) =
     (if length r > MAX_FILTER_RULE_BYTES \<or> CHR 0x00 \<in> set r then Inl FilterRule
      else validate_filter_rules rs)"

definition scope_allows :: "mutation_scope \<Rightarrow> path_bytes \<Rightarrow> bool" where
  "scope_allows s p \<longleftrightarrow> p = ms_path s \<or> (ms_descendants s \<and> strictly_below (ms_path s) p)"

fun validate_filter_roots :: "copy_operation \<Rightarrow> path_bytes list \<Rightarrow> grant_error + unit" where
  "validate_filter_roots c [] = Inr ()"
| "validate_filter_roots c (r # rs) =
     and_then (validate_absolute_path r) (\<lambda>_.
       if \<not> list_ex (\<lambda>s. scope_allows s r) (cop_mutation_scopes c) then Inl RootOutside
       else validate_filter_roots c rs)"

definition filter_validate ::
  "(string list \<Rightarrow> bool) \<Rightarrow> copy_operation \<Rightarrow> filter_policy \<Rightarrow> grant_error + unit" where
  "filter_validate build_ignore c f =
     (if length (fp_ignore f) > MAX_FILTER_RULES then Inl FilterCount
      else and_then (validate_filter_rules (fp_ignore f)) (\<lambda>_.
        if \<not> build_ignore (fp_ignore f) then Inl FilterInvalid
        else if fp_ignore f = [] then
          (if fp_destination_roots f \<noteq> [] then Inl RootsWithoutRules else Inr ())
        else if fp_destination_roots f = [] \<or> length (fp_destination_roots f) > MAX_FILTER_ROOTS
        then Inl RootCount
        else and_then (validate_filter_roots c (fp_destination_roots f)) (\<lambda>_.
          if list_ex (\<lambda>(a, b). a \<ge> b) (zip (fp_destination_roots f) (tl (fp_destination_roots f)))
          then Inl RootsUnsorted
          else Inr ())))"

definition receipt_validate :: "receipt_policy \<Rightarrow> grant_error + unit" where
  "receipt_validate r =
     (if \<not> rp_required r then Inl ReceiptNotRequired
      else if rp_max_records r = 0 \<or> rp_max_records r > DEFAULT_MAX_RECORDS then Inl ReceiptRecords
      else if rp_max_plaintext_bytes r = 0 \<or> rp_max_plaintext_bytes r > DEFAULT_MAX_PLAINTEXT_BYTES
      then Inl ReceiptBytes
      else (case rp_delivery r of
          AttachedEncrypted key \<Rightarrow>
            if list_all (\<lambda>b. b = CHR 0x00) key then Inl ReceiptKey else Inr ()
        | DetachedSignedPlaintext \<Rightarrow> Inr ()))"

definition parse_tcp_congestion :: "string \<Rightarrow> grant_error + string" where
  "parse_tcp_congestion v =
     (if v = [] then Inl CongestionEmpty
      else if length v \<ge> 16 then Inl CongestionLong
      else Inr v)"

text \<open>The rules are checked with the filters normalized, and the normalized rules are kept.\<close>

definition validate_rules ::
  "(string list \<Rightarrow> bool) \<Rightarrow> copy_operation \<Rightarrow> grant_constraints \<Rightarrow> grant_error + grant_constraints" where
  "validate_rules build_ignore c g =
     and_then (copy_validate c) (\<lambda>_.
     let g = g\<lparr>gc_filters := filter_normalize (gc_filters g)\<rparr> in
     and_then (filter_validate build_ignore c (gc_filters g)) (\<lambda>_.
     and_then (receipt_validate (gc_receipt_policy g)) (\<lambda>_.
     and_then (case gc_tcp_congestion g of
         None \<Rightarrow> Inr ()
       | Some v \<Rightarrow> and_then (parse_tcp_congestion v) (\<lambda>_. Inr ())) (\<lambda>_.
     and_then (case Option.bind (gc_hashing g) ch_expected_hash of
         None \<Rightarrow> Inr ()
       | Some d \<Rightarrow> map_sum GrantHash id (digest_validate d)) (\<lambda>_.
     if gc_mapping g \<noteq> None \<and> cp_deletion (cop_policy c) \<noteq> ForbidDeletion then Inl MappingPrunes
     else if xo_acls (gc_extra_options g) \<and> \<not> co_preserve_permissions (cop_options c)
     then Inl AclsNeedPermissions
     else Inr g)))))"

subsection \<open>Paths below a destination\<close>

lemma strictly_below_iff: "strictly_below base p \<longleftrightarrow> (\<exists>rest. p = base @ CHR ''/'' # rest)"
proof
  assume "strictly_below base p"
  then have "take (length base) p = base" "length base < length p" "p ! length base = CHR ''/''"
    by (simp_all add: strictly_below_def starts_with_def)
  then show "\<exists>rest. p = base @ CHR ''/'' # rest"
    using id_take_nth_drop [of "length base" p] by auto
qed (auto simp: strictly_below_def starts_with_def)

lemma strictly_below_trans: "strictly_below a b \<Longrightarrow> strictly_below b c \<Longrightarrow> strictly_below a c"
  by (auto simp: strictly_below_iff)

lemma validate_scopes_iff:
  "validate_scopes c ss = Inr () \<Longrightarrow> s \<in> set ss \<Longrightarrow>
     validate_absolute_path (ms_path s) = Inr () \<and> (ms_descendants s \<longrightarrow> co_recursive (cop_options c)) \<and>
     (ms_path s = cop_destination c \<or> strictly_below (cop_destination c) (ms_path s))"
  by (induction c ss rule: validate_scopes.induct) (auto simp: and_then_Inr split: if_splits)

text \<open>Normalized filter roots are sorted without repetition: the check for this cannot fail.\<close>

lemma sorted_strict_adjacent:
  "sorted_wrt (<) (xs :: 'a::linorder list) \<Longrightarrow> \<not> list_ex (\<lambda>(a, b). a \<ge> b) (zip xs (tl xs))"
proof (induction xs)
  case (Cons x xs)
  then show ?case by (cases xs) auto
qed simp

lemma sorted_remdups_adj_strict: "sorted xs \<Longrightarrow> sorted_wrt (<) (remdups_adj (xs :: 'a::linorder list))"
  by (induction xs rule: remdups_adj.induct) (auto simp: less_le)

lemma normalized_roots_sorted:
  "filter_validate b c (filter_normalize f) \<noteq> Inl RootsUnsorted"
proof -
  have "sorted_wrt (<) (remdups_adj (sort xs))" for xs :: "path_bytes list"
    by (rule sorted_remdups_adj_strict) simp
  then have "\<not> list_ex (\<lambda>(a, b). a \<ge> b) (zip (remdups_adj (sort xs)) (tl (remdups_adj (sort xs))))"
    for xs :: "path_bytes list"
    by (rule sorted_strict_adjacent)
  moreover have "validate_filter_rules rs \<noteq> Inl RootsUnsorted" for rs
    by (induction rs) auto
  moreover have "validate_absolute_path p \<noteq> Inl RootsUnsorted" for p
    by (simp add: validate_absolute_path_def)
  then have "validate_filter_roots c rs \<noteq> Inl RootsUnsorted" for rs
    by (induction rs) (auto simp: and_then_Inl)
  ultimately show ?thesis
    by (auto simp: filter_validate_def filter_normalize_def and_then_Inl)
qed

end
