(* ===== verification/Grant_Authority.thy ===== *)
theory Grant_Authority
  imports Grant_Rules
begin

section \<open>What a restricted receiver lets a request do\<close>

text \<open>
  The checks of \<open>src/src/restricted/authority.rs\<close> that decide, from the signed grant alone, which
  paths a request may observe or change and which metadata it may apply, with the signed mapping
  where the grant has one. The record holds the fields of \<open>RestrictedAuthority\<close> these checks read;
  the gitignore matcher is a parameter, \<open>matched\<close> says whether a path is ignored. What looks at the
  file system (conditions on existing objects, leases, the results stream) is not modelled.

  The clock is an argument: \<open>before_deadline\<close> is whether the deadline of the grant has not passed.
\<close>

datatype (plugins only: code) authority_error =
    NoncanonicalRequest | ObservationOutside | MutationOutside | ReadOnlyGrant | ResultsEnded
  | ExcludedByFilter | NotInMapping | MappingFailed mapping_error
  | NeedsControlConnection | NoMappingGranted
  | UnknownFlags | RequiredOwnership | MixedModes
  | FlagsMode | FlagsReceiverMode | FlagsOwner | FlagsGroup | FlagsTimes
  | InodeMetadataRefused
  | HashBlockMismatch | FileLimit | HashResponseLimit | ComparisonBlock
  | DestinationRootKept | DeletionRefused
  | ControlClosed | CompressionMismatch | BurstExceeded | OffsetOverflow | DeadlineExpired

record 's authority =
  ra_copy :: copy_operation
  ra_destination :: path_bytes
  ra_extra_options :: extra_copy_options
  ra_filters :: filter_policy
  ra_matcher :: "(path_bytes \<Rightarrow> bool \<Rightarrow> bool) option"
  ra_filter_roots :: "path_bytes list"
  ra_root_existence :: root_existence
  ra_mapping :: "'s admission option"
  ra_hashing :: "copy_hashing option"
  ra_burst_bytes :: "nat option"
  ra_control_open :: bool
  ra_results_closing :: bool

definition authority_of :: "('s, string) engine \<Rightarrow> (string list \<Rightarrow> (path_bytes \<Rightarrow> bool \<Rightarrow> bool) option) \<Rightarrow>
    copy_operation \<Rightarrow> grant_constraints \<Rightarrow> 's authority" where
  "authority_of B build_ignore c g =
     \<lparr>ra_copy = c, ra_destination = cop_destination c, ra_extra_options = gc_extra_options g,
      ra_filters = gc_filters g, ra_matcher = build_ignore (fp_ignore (gc_filters g)),
      ra_filter_roots = fp_destination_roots (gc_filters g), ra_root_existence = gc_root_existence g,
      ra_mapping = map_option (\<lambda>a. admission_new B a (cl_max_entries (cop_limits c))) (gc_mapping g),
      ra_hashing = gc_hashing g,
      ra_burst_bytes =
        (if gc_max_file_data_bytes_per_second g > 0 then Some (burst_bytes (gc_max_file_data_bytes_per_second g))
         else None),
      ra_control_open = True, ra_results_closing = False\<rparr>"

subsection \<open>Paths\<close>

definition path_is_at_or_below :: "path_bytes \<Rightarrow> path_bytes \<Rightarrow> bool" where
  "path_is_at_or_below p prefix \<longleftrightarrow>
     p = prefix \<or> (starts_with prefix p \<and>
       (prefix = ''/'' \<or> (length prefix < length p \<and> p ! length prefix = CHR ''/'')))"

definition validate_request_path :: "path_bytes \<Rightarrow> authority_error + unit" where
  "validate_request_path p =
     (if CHR 0x00 \<in> set p \<or> \<not> starts_with ''/'' p \<or>
         list_ex unsafe_component (tl (split_on (CHR ''/'') p))
      then Inl NoncanonicalRequest else Inr ())"

definition filter_applies :: "'s authority \<Rightarrow> path_bytes \<Rightarrow> bool" where
  "filter_applies a p \<longleftrightarrow> list_ex (\<lambda>root. p = root \<or> strictly_below root p) (ra_filter_roots a)"

fun ignored_under :: "(path_bytes \<Rightarrow> bool \<Rightarrow> bool) \<Rightarrow> path_bytes \<Rightarrow> bool \<Rightarrow> path_bytes list \<Rightarrow> bool \<Rightarrow> bool" where
  "ignored_under matched p is_dir [] under_root = under_root"
| "ignored_under matched p is_dir (root # roots) under_root =
     (if p = root then False
      else if \<not> strictly_below root p then ignored_under matched p is_dir roots under_root
      else let relative = drop (length root + 1) p;
               pruned_by_ancestor = list_ex (\<lambda>x. x \<noteq> [] \<and> matched x True) (ancestors relative)
           in if \<not> pruned_by_ancestor \<and> \<not> matched relative is_dir then False
              else ignored_under matched p is_dir roots True)"

definition path_is_ignored :: "'s authority \<Rightarrow> path_bytes \<Rightarrow> bool \<Rightarrow> bool" where
  "path_is_ignored a p is_dir =
     (case ra_matcher a of
        None \<Rightarrow> False
      | Some matched \<Rightarrow> ignored_under matched p is_dir (ra_filter_roots a) False)"

definition mapping_relative :: "'s authority \<Rightarrow> path_bytes \<Rightarrow> authority_error + path_bytes" where
  "mapping_relative a p =
     (if p = ra_destination a then Inr []
      else if strictly_below (ra_destination a) p then Inr (drop (length (ra_destination a) + 1) p)
      else Inl (MappingFailed OutsideDestination))"

definition mapping_permissions :: "'s admission \<Rightarrow> authority_error + permissions_index" where
  "mapping_permissions m = map_sum MappingFailed id (admission_permissions m)"

definition check_mapping_path :: "'s authority \<Rightarrow> path_bytes \<Rightarrow> bool option \<Rightarrow> authority_error + unit" where
  "check_mapping_path a p directory =
     (case ra_mapping a of
        None \<Rightarrow> Inr ()
      | Some m \<Rightarrow>
          and_then (mapping_permissions m) (\<lambda>perms.
          and_then (mapping_relative a p) (\<lambda>q.
            if permissions_allows perms q directory then Inr () else Inl NotInMapping)))"

definition mapping_parent :: "'s authority \<Rightarrow> path_bytes \<Rightarrow> authority_error + bool" where
  "mapping_parent a p =
     (case ra_mapping a of
        None \<Rightarrow> Inr False
      | Some m \<Rightarrow>
          and_then (mapping_permissions m) (\<lambda>perms.
          and_then (mapping_relative a p) (\<lambda>q. Inr (implicit_directory perms q))))"

definition check_observation_path :: "'s authority \<Rightarrow> path_bytes \<Rightarrow> authority_error + unit" where
  "check_observation_path a p =
     and_then (validate_request_path p) (\<lambda>_.
       if p \<noteq> ra_destination a \<and> \<not> list_ex (\<lambda>s. scope_allows s p) (cop_mutation_scopes (ra_copy a))
       then Inl ObservationOutside
       else check_mapping_path a p None)"

text \<open>\<open>slice::rposition\<close> of a slash: the directory an exact target is in.\<close>

definition outer_directory :: "'s authority \<Rightarrow> path_bytes option" where
  "outer_directory a =
     (case cp_placement (cop_policy (ra_copy a)) of
        DirectoryAsChild \<Rightarrow> Some (ra_destination a)
      | ExactPath \<Rightarrow>
          map_option (\<lambda>i. if i = 0 then ''/'' else take i (ra_destination a))
            (rposition (\<lambda>c. c = CHR ''/'') (ra_destination a))
      | DirectoryContents \<Rightarrow> None)"

definition check_mutation_allowed :: "'s authority \<Rightarrow> authority_error + unit" where
  "check_mutation_allowed a =
     (if co_dry_run (cop_options (ra_copy a)) then Inl ReadOnlyGrant
      else if ra_results_closing a then Inl ResultsEnded
      else Inr ())"

definition check_mutation_authority :: "'s authority \<Rightarrow> path_bytes \<Rightarrow> authority_error + unit" where
  "check_mutation_authority a p =
     and_then (check_mutation_allowed a) (\<lambda>_.
     and_then (validate_request_path p) (\<lambda>_.
       if \<not> list_ex (\<lambda>s. scope_allows s p) (cop_mutation_scopes (ra_copy a)) then Inl MutationOutside
       else Inr ()))"

definition check_mutation_path :: "'s authority \<Rightarrow> path_bytes \<Rightarrow> bool \<Rightarrow> authority_error + unit" where
  "check_mutation_path a p is_dir =
     and_then (check_mutation_authority a p) (\<lambda>_.
     and_then (check_mapping_path a p (Some is_dir)) (\<lambda>_.
       if path_is_ignored a p is_dir then Inl ExcludedByFilter else Inr ()))"

definition result_path :: "'s authority \<Rightarrow> path_bytes \<Rightarrow> bool \<Rightarrow> path_bytes option" where
  "result_path a p directory =
     (if p = ra_destination a then (if \<not> directory then Some [] else None)
      else if strictly_below (ra_destination a) p then Some (drop (length (ra_destination a) + 1) p)
      else None)"

definition creation_policy :: "'s authority \<Rightarrow> bool \<Rightarrow> existing_policy" where
  "creation_policy a directory =
     (if cp_existing (cop_policy (ra_copy a)) = ReplaceExisting \<and> xo_keep_files (ra_extra_options a) \<and> \<not> directory
      then SkipExisting else cp_existing (cop_policy (ra_copy a)))"

definition check_deletion :: "'s authority \<Rightarrow> path_bytes \<Rightarrow> bool \<Rightarrow> authority_error + unit" where
  "check_deletion a p is_dir =
     (if p = ra_destination a then Inl DestinationRootKept
      else and_then (if fp_delete_excluded (ra_filters a) then check_mutation_authority a p
                     else check_mutation_path a p is_dir) (\<lambda>_.
        if cp_deletion (cop_policy (ra_copy a)) = ForbidDeletion then Inl DeletionRefused else Inr ()))"

subsection \<open>Hashes, sizes and connections\<close>

definition granted_hash_policy :: "'s authority \<Rightarrow> hash_policy" where
  "granted_hash_policy a =
     (case ra_hashing a of
        None \<Rightarrow> \<lparr>hp_algorithm = Blake3, hp_transfer_integrity = True, hp_transfer_hash_type = None\<rparr>
      | Some h \<Rightarrow> ch_policy h)"

definition granted_expected_hash :: "'s authority \<Rightarrow> path_bytes \<Rightarrow> authority_error + digest option" where
  "granted_expected_hash a p =
     (case ra_mapping a of
        Some m \<Rightarrow>
          and_then (mapping_relative a p) (\<lambda>q. map_sum MappingFailed id (admission_expected_hash m q))
      | None \<Rightarrow>
          (let selected = (case cp_placement (cop_policy (ra_copy a)) of
                 ExactPath \<Rightarrow> p = ra_destination a
               | _ \<Rightarrow> p \<noteq> ra_destination a \<and>
                   list_ex (\<lambda>s. ms_path s = p) (cop_mutation_scopes (ra_copy a)))
           in Inr (if selected then Option.bind (ra_hashing a) ch_expected_hash else None)))"

definition check_hash_request :: "'s authority \<Rightarrow> nat \<Rightarrow> nat \<Rightarrow> authority_error + unit" where
  "check_hash_request a block len =
     (if block \<noteq> cl_hash_block_bytes (cop_limits (ra_copy a)) then Inl HashBlockMismatch
      else if len > cl_max_file_bytes (cop_limits (ra_copy a)) then Inl FileLimit
      else if \<not> hash_response_fits block len then Inl HashResponseLimit
      else Inr ())"

definition check_comparison_request :: "'s authority \<Rightarrow> nat \<Rightarrow> nat \<Rightarrow> authority_error + unit" where
  "check_comparison_request a block len =
     (if \<not> (MIN_HASH_BLOCK_BYTES \<le> block \<and> block \<le> MAX_HASH_BLOCK_BYTES) then Inl ComparisonBlock
      else if len > cl_max_file_bytes (cop_limits (ra_copy a)) then Inl FileLimit
      else if \<not> hash_response_fits block len then Inl HashResponseLimit
      else Inr ())"

text \<open>The pause of the rate limit itself is not modelled, only that the deadline is checked after it.\<close>

definition check_file_bytes ::
  "'s authority \<Rightarrow> bool \<Rightarrow> path_bytes \<Rightarrow> nat \<Rightarrow> nat \<Rightarrow> authority_error + unit" where
  "check_file_bytes a before_deadline p offset bytes =
     and_then (check_mutation_path a p False) (\<lambda>_.
       if (case ra_burst_bytes a of None \<Rightarrow> False | Some burst \<Rightarrow> bytes > burst) then Inl BurstExceeded
       else (case uadd offset bytes of
           None \<Rightarrow> Inl OffsetOverflow
         | Some e \<Rightarrow>
             if e > cl_max_file_bytes (cop_limits (ra_copy a)) then Inl FileLimit
             else if ra_burst_bytes a \<noteq> None \<and> \<not> before_deadline then Inl DeadlineExpired
             else Inr ()))"

definition control_is_open :: "'s authority \<Rightarrow> bool \<Rightarrow> bool" where
  "control_is_open a before_deadline \<longleftrightarrow> ra_control_open a \<and> before_deadline"

definition validate_hello :: "'s authority \<Rightarrow> bool \<Rightarrow> bool \<Rightarrow> authority_error + unit" where
  "validate_hello a before_deadline compressed =
     (if \<not> control_is_open a before_deadline then Inl ControlClosed
      else if \<not> before_deadline then Inl DeadlineExpired
      else if compressed \<noteq> co_compressed_transport (cop_options (ra_copy a)) then Inl CompressionMismatch
      else Inr ())"

text \<open>The request that carries a chunk of the mapping.\<close>

definition authorize_mapping_chunk ::
  "wire_library \<Rightarrow> ('s, string) engine \<Rightarrow> bool \<Rightarrow> 's authority \<Rightarrow> nat \<Rightarrow> string \<Rightarrow> bool \<Rightarrow>
   (authority_error + unit) \<times> 's authority" where
  "authorize_mapping_chunk L B over_ssh a offset data finish =
     (if \<not> over_ssh then (Inl NeedsControlConnection, a)
      else case ra_mapping a of
          None \<Rightarrow> (Inl NoMappingGranted, a)
        | Some m \<Rightarrow>
            (case admission_append L B m offset data finish of
               (r, m) \<Rightarrow> (map_sum MappingFailed id r, a\<lparr>ra_mapping := Some m\<rparr>)))"

subsection \<open>Metadata\<close>

definition check_flags :: "'s authority \<Rightarrow> 8 word \<Rightarrow> 8 word \<Rightarrow> authority_error + unit" where
  "check_flags a flags mapped =
     (let known = flag_mode_mask OR flag_owner OR flag_group OR flag_times OR flag_require_owner
            OR flag_require_group;
          known = (if xo_hardlinks (ra_extra_options a) then known OR flag_report_identity else known);
          opts = cop_options (ra_copy a)
      in if flags AND NOT known \<noteq> 0 then Inl UnknownFlags
         else if (flags AND flag_require_owner \<noteq> 0 \<and> flags AND flag_owner = 0) \<or>
                 (flags AND flag_require_group \<noteq> 0 \<and> flags AND flag_group = 0) then Inl RequiredOwnership
         else if flags AND flag_mode_mask = flag_mode_mask then Inl MixedModes
         else if flags AND flag_mode \<noteq> 0 \<and> \<not> co_preserve_permissions opts \<and> mapped AND flag_mode = 0
         then Inl FlagsMode
         else if flags AND flag_receiver_mode \<noteq> 0 \<and> \<not> co_receiver_managed_modes opts
         then Inl FlagsReceiverMode
         else if flags AND flag_owner \<noteq> 0 \<and> \<not> co_preserve_owner opts \<and> mapped AND flag_owner = 0
         then Inl FlagsOwner
         else if flags AND flag_group \<noteq> 0 \<and> \<not> co_preserve_group opts \<and> mapped AND flag_group = 0
         then Inl FlagsGroup
         else if flags AND flag_times \<noteq> 0 \<and> \<not> co_preserve_times opts \<and> mapped AND flag_times = 0
         then Inl FlagsTimes
         else Inr ())"

definition mapped_grants ::
  "'s authority \<Rightarrow> path_bytes \<Rightarrow> (metadata \<Rightarrow> 8 word) \<Rightarrow> authority_error + 8 word" where
  "mapped_grants a p grants =
     (case ra_mapping a of
        None \<Rightarrow> Inr 0
      | Some m \<Rightarrow>
          and_then (mapping_permissions m) (\<lambda>perms.
          and_then (mapping_relative a p) (\<lambda>q.
            Inr (case permissions_metadata perms q of None \<Rightarrow> 0 | Some md \<Rightarrow> grants md))))"

definition metadata_grants :: "meta \<Rightarrow> metadata \<Rightarrow> 8 word" where
  "metadata_grants t md =
     (if md_mode md = Some (meta_mode t mod 4096) then flag_mode else 0) OR
     (if md_uid md = Some (meta_uid t) then flag_owner else 0) OR
     (if md_gid md = Some (meta_gid t) then flag_group else 0) OR
     (if md_mtime md = Some (meta_mtime t) \<and>
         (case md_mtime_nsec md of None \<Rightarrow> 0 | Some ns \<Rightarrow> ns) = meta_mtime_nsec t
      then flag_times else 0)"

definition requested_selection :: "inode_metadata \<Rightarrow> selection" where
  "requested_selection m =
     \<lparr>sel_acls = (acls m \<noteq> None \<or> macos_acl m \<noteq> None), sel_xattrs = (xattrs m \<noteq> None),
      sel_atimes = (im_atime m \<noteq> None), sel_crtimes = (im_crtime m \<noteq> None), sel_open_noatime = False\<rparr>"

definition check_metadata :: "'s authority \<Rightarrow> path_bytes \<Rightarrow> meta \<Rightarrow> 8 word \<Rightarrow> authority_error + unit" where
  "check_metadata a p t flags =
     and_then (mapped_grants a p (metadata_grants t)) (\<lambda>mapped.
     and_then (check_flags a flags mapped) (\<lambda>_.
       case meta_inode t of
         None \<Rightarrow> Inr ()
       | Some m \<Rightarrow>
           if extra_allows (ra_extra_options a) (requested_selection m) then Inr ()
           else Inl InodeMetadataRefused))"

definition preparation_grants :: "nat \<Rightarrow> metadata \<Rightarrow> 8 word" where
  "preparation_grants mode_bits md =
     (metadata_flags md AND NOT flag_mode) OR
     (if md_mode md = Some (mode_bits mod 4096) then flag_mode else 0)"

definition check_preparation_flags ::
  "'s authority \<Rightarrow> path_bytes \<Rightarrow> nat \<Rightarrow> 8 word \<Rightarrow> authority_error + unit" where
  "check_preparation_flags a p mode_bits flags =
     and_then (mapped_grants a p (preparation_grants mode_bits)) (\<lambda>mapped. check_flags a flags mapped)"

subsection \<open>Confinement\<close>

text \<open>A path at the destination or below it, by components that never leave it.\<close>

definition confined_to :: "path_bytes \<Rightarrow> path_bytes \<Rightarrow> bool" where
  "confined_to dest p \<longleftrightarrow>
     p = dest \<or> (\<exists>cs. cs \<noteq> [] \<and> (\<forall>c \<in> set cs. safe_component c) \<and>
       p = dest @ CHR ''/'' # join_with (CHR ''/'') cs)"

lemma request_components:
  assumes "validate_request_path p = Inr ()" "c \<in> set (tl (split_on (CHR ''/'') p))"
  shows "safe_component c"
proof -
  have c: "c \<in> set (split_on (CHR ''/'') p)" using assms(2) by (meson list.set_sel(2) split_on_not_Nil)
  moreover have "CHR 0x00 \<notin> set p" "\<not> unsafe_component c"
    using assms by (auto simp: validate_request_path_def list_ex_iff split: if_splits)
  ultimately show ?thesis
    using split_on_pieces [OF c] by (auto simp: safe_component_def unsafe_component_def)
qed

lemma request_below_confined:
  assumes "validate_request_path p = Inr ()" "strictly_below dest p"
  shows "confined_to dest p"
proof -
  obtain rest where p: "p = dest @ CHR ''/'' # rest" using assms(2) by (auto simp: strictly_below_iff)
  have "set (split_on (CHR ''/'') rest) \<subseteq> set (tl (split_on (CHR ''/'') p))"
    unfolding p split_on_append by (cases "split_on (CHR ''/'') dest") auto
  then have "\<forall>c \<in> set (split_on (CHR ''/'') rest). safe_component c"
    using request_components [OF assms(1)] by blast
  then show ?thesis
    unfolding confined_to_def
    by (intro disjI2 exI [of _ "split_on (CHR ''/'') rest"]) (simp add: p join_split)
qed

lemma mutation_authority_confined:
  assumes valid: "copy_validate (ra_copy a) = Inr ()" and dest: "ra_destination a = cop_destination (ra_copy a)"
    and ok: "check_mutation_authority a p = Inr ()"
  shows "confined_to (ra_destination a) p"
proof -
  obtain s where s: "s \<in> set (cop_mutation_scopes (ra_copy a))" "scope_allows s p"
    and req: "validate_request_path p = Inr ()"
    using ok by (auto simp: check_mutation_authority_def and_then_Inr list_ex_iff split: if_splits)
  have "validate_scopes (ra_copy a) (cop_mutation_scopes (ra_copy a)) = Inr ()"
    using valid by (auto simp: copy_validate_def and_then_Inr split: if_splits)
  from validate_scopes_iff [OF this s(1)] s(2)
  have "p = ra_destination a \<or> strictly_below (ra_destination a) p"
    unfolding scope_allows_def dest using strictly_below_trans by metis
  then show ?thesis using request_below_confined [OF req] by (auto simp: confined_to_def)
qed

lemma check_mapping_path_iff:
  "check_mapping_path a p d = Inr () \<longleftrightarrow>
     (\<forall>m. ra_mapping a = Some m \<longrightarrow> (\<exists>perms q. admission_permissions m = Inr perms \<and>
        (p = (if q = [] then ra_destination a else ra_destination a @ CHR ''/'' # q) \<or>
         q = [] \<and> p = ra_destination a @ ''/'') \<and>
        permissions_allows perms q d))"
proof (cases "ra_mapping a")
  case (Some m)
  have rel: "mapping_relative a p = Inr q \<longleftrightarrow>
      (p = (if q = [] then ra_destination a else ra_destination a @ CHR ''/'' # q) \<or>
         q = [] \<and> p = ra_destination a @ ''/'')" for q
    by (auto simp: mapping_relative_def strictly_below_iff)
  show ?thesis
    by (cases "admission_permissions m")
      (auto simp: check_mapping_path_def Some mapping_permissions_def and_then_Inr rel split: if_splits)
qed (simp add: check_mapping_path_def)

subsection \<open>Metadata flags\<close>

text \<open>The metadata the signed mapping sets for a path.\<close>

definition entry_metadata :: "'s authority \<Rightarrow> path_bytes \<Rightarrow> metadata option" where
  "entry_metadata a p =
     (case ra_mapping a of
        None \<Rightarrow> None
      | Some m \<Rightarrow>
          (case (admission_permissions m, mapping_relative a p) of
             (Inr perms, Inr q) \<Rightarrow> permissions_metadata perms q
           | _ \<Rightarrow> None))"

lemma mapped_grants_entry:
  assumes "mapped_grants a p g = Inr w"
  shows "w = (case entry_metadata a p of None \<Rightarrow> 0 | Some md \<Rightarrow> g md)"
proof (cases "ra_mapping a")
  case (Some m)
  with assms show ?thesis
    by (cases "admission_permissions m")
      (auto simp: mapped_grants_def entry_metadata_def mapping_permissions_def and_then_Inr)
qed (use assms in \<open>simp add: mapped_grants_def entry_metadata_def\<close>)

lemma metadata_grants_bits:
  "metadata_grants t md AND flag_mode = 0 \<longleftrightarrow> md_mode md \<noteq> Some (meta_mode t mod 4096)"
  "metadata_grants t md AND flag_owner = 0 \<longleftrightarrow> md_uid md \<noteq> Some (meta_uid t)"
  "metadata_grants t md AND flag_group = 0 \<longleftrightarrow> md_gid md \<noteq> Some (meta_gid t)"
  "metadata_grants t md AND flag_times = 0 \<longleftrightarrow> \<not> (md_mtime md = Some (meta_mtime t) \<and>
     (case md_mtime_nsec md of None \<Rightarrow> 0 | Some ns \<Rightarrow> ns) = meta_mtime_nsec t)"
  by (simp_all add: metadata_grants_def flag_defs)

lemma check_flags_granted:
  assumes "check_flags a flags mapped = Inr ()"
  shows "flags AND flag_mode \<noteq> 0 \<longrightarrow> co_preserve_permissions (cop_options (ra_copy a)) \<or> mapped AND flag_mode \<noteq> 0"
    "flags AND flag_receiver_mode \<noteq> 0 \<longrightarrow> co_receiver_managed_modes (cop_options (ra_copy a))"
    "flags AND flag_owner \<noteq> 0 \<longrightarrow> co_preserve_owner (cop_options (ra_copy a)) \<or> mapped AND flag_owner \<noteq> 0"
    "flags AND flag_group \<noteq> 0 \<longrightarrow> co_preserve_group (cop_options (ra_copy a)) \<or> mapped AND flag_group \<noteq> 0"
    "flags AND flag_times \<noteq> 0 \<longrightarrow> co_preserve_times (cop_options (ra_copy a)) \<or> mapped AND flag_times \<noteq> 0"
    "flags AND flag_require_owner \<noteq> 0 \<longrightarrow> flags AND flag_owner \<noteq> 0"
    "flags AND flag_require_group \<noteq> 0 \<longrightarrow> flags AND flag_group \<noteq> 0"
  using assms unfolding check_flags_def Let_def by (auto split: if_splits)

lemma check_mutation_path_mapped:
  assumes "check_mutation_path a p is_dir = Inr ()" "ra_mapping a = Some m"
  shows "\<exists>perms q. admission_permissions m = Inr perms \<and> permissions_allows perms q (Some is_dir) \<and>
    p = (if q = [] then ra_destination a else ra_destination a @ CHR ''/'' # q)"
proof -
  have path: "check_mapping_path a p (Some is_dir) = Inr ()" and "validate_request_path p = Inr ()"
    using assms(1) by (auto simp: check_mutation_path_def check_mutation_authority_def and_then_Inr)
  then have "p \<noteq> ra_destination a @ ''/''"
    using request_components [of p "[]"] split_on_append [of "CHR ''/''" "ra_destination a" "[]"]
    by (cases "split_on (CHR ''/'') (ra_destination a)") (auto simp: safe_component_def)
  with path assms(2) show ?thesis by (auto simp: check_mapping_path_iff)
qed

subsection \<open>A sample grant\<close>

definition sample_copy :: copy_operation where
  "sample_copy =
     \<lparr>cop_destination = ''/d'',
      cop_mutation_scopes = [\<lparr>ms_path = ''/d'', ms_descendants = True\<rparr>],
      cop_policy = \<lparr>cp_placement = DirectoryContents, cp_existing = ReplaceExisting,
        cp_deletion = ForbidDeletion, cp_publication = AtomicStaged\<rparr>,
      cop_options = \<lparr>co_recursive = True, co_preserve_symlinks = True, co_preserve_permissions = True,
        co_receiver_managed_modes = False, co_preserve_times = False, co_preserve_owner = False,
        co_preserve_group = False, co_preserve_devices = False, co_compare_existing_by_content = False,
        co_dry_run = False, co_compressed_transport = False, co_tcp_port_lo = 1, co_tcp_port_hi = 2\<rparr>,
      cop_limits = \<lparr>cl_max_entries = 9, cl_max_total_bytes = 100, cl_max_file_bytes = 50,
        cl_hash_block_bytes = 65536, cl_max_connections = 1, cl_max_deletions = 0\<rparr>\<rparr>"

definition sample_extra :: extra_copy_options where
  "sample_extra = \<lparr>xo_hardlinks = False, xo_acls = False, xo_xattrs = False, xo_atimes = False,
     xo_crtimes = False, xo_sparse = False, xo_open_noatime = False, xo_widen_dirs = WidenNone,
     xo_keep_files = False, xo_follow_dst = False\<rparr>"

definition sample_constraints :: grant_constraints where
  "sample_constraints =
     \<lparr>gc_max_file_data_bytes_per_second = 0,
      gc_filters = \<lparr>fp_ignore = [], fp_destination_roots = [], fp_delete_excluded = False\<rparr>,
      gc_root_existence = RootAny,
      gc_receipt_policy = \<lparr>rp_required = True, rp_hashed = False, rp_max_records = 1,
        rp_max_plaintext_bytes = 1, rp_delivery = DetachedSignedPlaintext\<rparr>,
      gc_tcp_congestion = None, gc_mapping = None, gc_hashing = None, gc_extra_options = sample_extra\<rparr>"

definition sample_authority :: "string authority" where
  "sample_authority = (authority_of sample_blake3 (\<lambda>_. None) sample_copy sample_constraints)
     \<lparr>ra_mapping := Some sample_admission\<rparr>"

lemmas sample_grant = sample_copy_def sample_constraints_def sample_authority_def authority_of_def
  sample_extra_def

lemma sample_copy_valid: "copy_validate sample_copy = Inr ()"
  by (simp add: copy_validate_def sample_copy_def validate_absolute_path_def validate_limits_def
      hash_response_fits_iff hash_response_window_def wire_constants unsafe_component_def
      MAX_PATH_BYTES_def MAX_MUTATION_SCOPES_def MAX_ENTRIES_def MAX_COPY_BYTES_def i64_max_def
      MAX_CONNECTIONS_def Let_def)

lemma sample_permissions:
  "admission_permissions sample_admission = Inr (index_of [sample_entry_at ''a/b'', sample_entry_at ''c''])"
  using opened_index [OF sample_opened, unfolded sample_lines sample_entries]
  by (auto simp: admission_permissions_def)

lemma sample_mutation: "check_mutation_path sample_authority ''/d/c'' False = Inr ()"
proof -
  have "permissions_allows (index_of [sample_entry_at ''a/b'', sample_entry_at ''c'']) ''c'' (Some False)"
    by (simp add: allows_index) (simp add: sample_entry_at_def)
  then show ?thesis
    by (simp add: check_mutation_path_def check_mutation_authority_def check_mutation_allowed_def
        validate_request_path_def starts_with_def unsafe_component_def scope_allows_def strictly_below_def
        check_mapping_path_def mapping_permissions_def sample_permissions mapping_relative_def
        path_is_ignored_def sample_grant)
qed

subsection \<open>The properties\<close>





end
