(* ===== verification/Grant_Limits.thy ===== *)
theory Grant_Limits
  imports Grant_Authority "HOL-Library.Multiset"
begin

section \<open>Accounting under a signed grant\<close>

text \<open>
  What a restricted receiver counts against the limits of a grant: \<open>AuthorityState\<close> and the counters
  of \<open>RestrictedAuthority\<close> in \<open>src/src/restricted/authority.rs\<close>, with the operations that charge a
  request, settle it, and give back what it did not change. The requests keep what they are charged
  by: the file, the operations that delete, and the lengths of the data they carry. Counters are
  natural numbers below \<open>2 ^ 64\<close>; \<open>fetch_sub\<close> wraps, and the theorems show that it never does. The
  number of a reservation is not wrapped: it grows once per request.
\<close>

datatype limit_error =
    DeadlinePassed | ControlClosed | ConnectionLimit
  | ReservationOverflow | ReservationLimit | HoldOverflow
  | EntryLimit | DeletionLimit | ByteLimit

type_synonym copy_id = string
type_synonym file_key = "path_bytes \<times> copy_id"
type_synonym file_share = "file_key \<times> nat"

record entry_charge =
  ec_holders :: nat
  ec_made :: bool

record byte_reservation =
  br_retained :: "nat option"
  br_observations :: "nat \<rightharpoonup> nat"
  br_entry :: "entry_charge option"
  br_instance :: nat

definition sizes :: "byte_reservation \<Rightarrow> nat set" where
  "sizes r = set_option (br_retained r) \<union> ran (br_observations r)"

definition effective_size :: "byte_reservation \<Rightarrow> nat option" where
  "effective_size r = set_last (sizes r)"

record limit_state =
  ls_reserved :: "file_key \<rightharpoonup> byte_reservation"
  ls_reserved_bytes :: nat
  ls_next_hold :: nat
  ls_next_instance :: nat
  ls_live_connections :: nat
  ls_changes :: nat
  ls_transferred :: nat
  ls_deletions :: nat

definition limit_state_new :: limit_state where
  "limit_state_new = \<lparr>ls_reserved = Map.empty, ls_reserved_bytes = 0, ls_next_hold = 0,
     ls_next_instance = 0, ls_live_connections = 0, ls_changes = 0, ls_transferred = 0,
     ls_deletions = 0\<rparr>"

record charged =
  cg_changes :: nat
  cg_deleting :: "nat list"
  cg_file :: "file_share option"

subsection \<open>Connections\<close>

definition acquire_connection ::
  "copy_limits \<Rightarrow> bool \<Rightarrow> bool \<Rightarrow> limit_state \<Rightarrow> (limit_error + unit) \<times> limit_state" where
  "acquire_connection L expired is_open st =
     (if expired then (Inl DeadlinePassed, st)
      else if \<not> is_open then (Inl ControlClosed, st)
      else if ls_live_connections st \<ge> cl_max_connections L then (Inl ConnectionLimit, st)
      else (Inr (), st\<lparr>ls_live_connections := ls_live_connections st + 1\<rparr>))"

definition release_connection :: "limit_state \<Rightarrow> limit_state" where
  "release_connection st = st\<lparr>ls_live_connections := ls_live_connections st - 1\<rparr>"

subsection \<open>Reservations\<close>

definition retain_size :: "nat \<Rightarrow> byte_reservation \<Rightarrow> byte_reservation" where
  "retain_size sz r =
     r\<lparr>br_retained := Some (case br_retained r of None \<Rightarrow> sz | Some retained \<Rightarrow> max retained sz)\<rparr>"

text \<open>\<open>reserved.entry(key).or_insert_with(..)\<close>, with the number of the last reservation.\<close>

definition open_reservation :: "limit_state \<Rightarrow> file_key \<Rightarrow> byte_reservation \<times> nat" where
  "open_reservation st key =
     (case ls_reserved st key of
        Some r \<Rightarrow> (r, ls_next_instance st)
      | None \<Rightarrow> (\<lparr>br_retained = None, br_observations = Map.empty, br_entry = None,
                  br_instance = ls_next_instance st + 1\<rparr>, ls_next_instance st + 1))"

definition reserve_bytes ::
  "copy_limits \<Rightarrow> limit_state \<Rightarrow> file_key \<Rightarrow> nat \<Rightarrow> bool \<Rightarrow> (limit_error + nat option) \<times> limit_state"
where
  "reserve_bytes L st key sz observation_only =
     (let previous = Option.bind (ls_reserved st key) effective_size;
          effective = (case previous of None \<Rightarrow> sz | Some p \<Rightarrow> max p sz);
          (r, inst) = open_reservation st key
      in case uadd (ls_reserved_bytes st) (effective - (case previous of None \<Rightarrow> 0 | Some p \<Rightarrow> p)) of
           None \<Rightarrow> (Inl ReservationOverflow, st)
         | Some tot \<Rightarrow>
             if tot > cl_max_total_bytes L then (Inl ReservationLimit, st)
             else if observation_only then
               let hold = ls_next_hold st in
               (case uadd hold 1 of
                  None \<Rightarrow> (Inl HoldOverflow, st)
                | Some after \<Rightarrow>
                    (Inr (Some hold),
                     st\<lparr>ls_next_hold := after, ls_next_instance := inst,
                        ls_reserved := (ls_reserved st)(key \<mapsto>
                          r\<lparr>br_observations := (br_observations r)(hold \<mapsto> sz)\<rparr>),
                        ls_reserved_bytes := tot\<rparr>))
             else
               (Inr None,
                st\<lparr>ls_next_instance := inst,
                   ls_reserved := (ls_reserved st)(key \<mapsto> retain_size sz r),
                   ls_reserved_bytes := tot\<rparr>))"

definition settle_observation :: "limit_state \<Rightarrow> file_key \<Rightarrow> nat \<Rightarrow> bool \<Rightarrow> limit_state option" where
  "settle_observation st key hold retain =
     (case ls_reserved st key of
        None \<Rightarrow> Some st
      | Some r \<Rightarrow>
          Option.bind (effective_size r) (\<lambda>before.
          case br_observations r hold of
            None \<Rightarrow> Some st
          | Some sz \<Rightarrow>
              let r1 = r\<lparr>br_observations := (br_observations r)(hold := None)\<rparr>;
                  r2 = (if retain then retain_size sz r1 else r1);
                  after = effective_size r2
              in Option.bind (usub before (case after of None \<Rightarrow> 0 | Some a \<Rightarrow> a)) (\<lambda>released.
                 Option.bind (usub (ls_reserved_bytes st) released) (\<lambda>bytes.
                 Some (st\<lparr>ls_reserved_bytes := bytes,
                          ls_reserved := (ls_reserved st)(key := (if after = None then None else Some r2))\<rparr>)))))"

text \<open>A published file is no longer in flight; what it occupies stays counted.\<close>

definition publish_reservation :: "limit_state \<Rightarrow> file_key \<Rightarrow> limit_state" where
  "publish_reservation st key = st\<lparr>ls_reserved := (ls_reserved st)(key := None)\<rparr>"

subsection \<open>Charging a request\<close>

datatype change_op = RmdirOp | UnlinkOp | OtherOp

datatype (plugins only: code) request =
    Prepare path_bytes copy_id bool bool
  | StageBasis path_bytes copy_id
  | SeedBasis path_bytes copy_id
  | Finalize path_bytes copy_id
  | Apply "change_op list"
  | PutSmallBatch "nat list"
  | PatchSmallBatch "nat list"
  | PatchBegin
  | FinishBasis
  | PrepareSmallFiles nat
  | CopySmallFiles "nat list"
  | WriteRange nat
  | PatchData nat
  | OtherRequest

fun request_file :: "request \<Rightarrow> file_key option" where
  "request_file (Prepare p copy create_if_missing update) =
     (if create_if_missing \<or> update then Some (p, copy) else None)"
| "request_file (StageBasis p copy) = Some (p, copy)"
| "request_file (SeedBasis p copy) = Some (p, copy)"
| "request_file (Finalize p copy) = Some (p, copy)"
| "request_file _ = None"

fun request_deleting :: "request \<Rightarrow> nat list" where
  "request_deleting (Apply ops) =
     map fst (filter (\<lambda>(i, x). x = RmdirOp \<or> x = UnlinkOp) (enumerate 0 ops))"
| "request_deleting _ = []"

text \<open>The changes a request makes and the bytes it carries; \<open>own\<close> says that it counts its file itself.\<close>

fun request_cost :: "request \<Rightarrow> bool \<Rightarrow> nat \<times> nat" where
  "request_cost (Apply ops) own = (length ops, 0)"
| "request_cost (PutSmallBatch puts) own = (length puts, sum_list puts)"
| "request_cost (PatchSmallBatch patches) own = (length patches, sum_list patches)"
| "request_cost PatchBegin own = (1, 0)"
| "request_cost FinishBasis own = (1, 0)"
| "request_cost (Prepare _ _ _ _) own = (of_bool own, 0)"
| "request_cost (StageBasis _ _) own = (of_bool own, 0)"
| "request_cost (SeedBasis _ _) own = (of_bool own, 0)"
| "request_cost (Finalize _ _) own = (of_bool own, 0)"
| "request_cost (PrepareSmallFiles n) own = (n, 0)"
| "request_cost (CopySmallFiles payloads) own = (0, sum_list payloads)"
| "request_cost (WriteRange n) own = (0, n)"
| "request_cost (PatchData n) own = (0, n)"
| "request_cost OtherRequest own = (0, 0)"

definition charge :: "nat \<Rightarrow> nat \<Rightarrow> nat \<Rightarrow> nat option" where
  "charge counter amount limit =
     (if amount = 0 then Some counter
      else Option.bind (uadd counter amount) (\<lambda>tot. if tot \<le> limit then Some tot else None))"

text \<open>\<open>AtomicU64::fetch_sub\<close>, which wraps.\<close>

definition refund :: "nat \<Rightarrow> nat \<Rightarrow> nat" where
  "refund counter amount = (if amount \<le> counter then counter - amount else counter + 2 ^ 64 - amount)"

definition share_of :: "limit_state \<Rightarrow> request \<Rightarrow> file_share option \<times> bool \<times> bool" where
  "share_of st req =
     (case request_file req of
        None \<Rightarrow> (None, False, False)
      | Some key \<Rightarrow>
          (case ls_reserved st key of
             Some r \<Rightarrow> (Some (key, br_instance r), br_entry r = None, False)
           | None \<Rightarrow> (None, False, True)))"

definition hold_share :: "limit_state \<Rightarrow> file_share option \<Rightarrow> limit_state option" where
  "hold_share st share =
     (case share of
        None \<Rightarrow> Some st
      | Some (key, _) \<Rightarrow>
          Option.bind (ls_reserved st key) (\<lambda>r.
            let e = (case br_entry r of None \<Rightarrow> \<lparr>ec_holders = 0, ec_made = False\<rparr> | Some e \<Rightarrow> e) in
            Some (st\<lparr>ls_reserved := (ls_reserved st)(key \<mapsto>
              r\<lparr>br_entry := Some (e\<lparr>ec_holders := ec_holders e + 1\<rparr>)\<rparr>)\<rparr>)))"

definition charge_request ::
  "copy_limits \<Rightarrow> limit_state \<Rightarrow> request \<Rightarrow> ((limit_error + charged) \<times> limit_state) option" where
  "charge_request L st req =
     (let (share, file_charge, own) = share_of st req;
          (changes, bytes) = request_cost req own;
          deleting = request_deleting req;
          counted = changes + of_bool file_charge
      in case charge (ls_changes st) counted (cl_max_entries L) of
           None \<Rightarrow> Some (Inl EntryLimit, st)
         | Some tot \<Rightarrow>
             let st = st\<lparr>ls_changes := tot\<rparr> in
             (case charge (ls_deletions st) (length deleting) (cl_max_deletions L) of
                None \<Rightarrow> Some (Inl DeletionLimit, st\<lparr>ls_changes := refund (ls_changes st) counted\<rparr>)
              | Some tot \<Rightarrow>
                  let st = st\<lparr>ls_deletions := tot\<rparr> in
                  (case charge (ls_transferred st) bytes (cl_max_total_bytes L) of
                     None \<Rightarrow> Some (Inl ByteLimit,
                       st\<lparr>ls_changes := refund (ls_changes st) counted,
                          ls_deletions := refund (ls_deletions st) (length deleting)\<rparr>)
                   | Some tot \<Rightarrow>
                       map_option (Pair (Inr \<lparr>cg_changes = changes, cg_deleting = deleting, cg_file = share\<rparr>))
                         (hold_share (st\<lparr>ls_transferred := tot\<rparr>) share))))"

subsection \<open>Settling a request\<close>

definition release_file :: "limit_state \<Rightarrow> file_share option \<Rightarrow> bool \<Rightarrow> limit_state" where
  "release_file st share made =
     (case share of
        None \<Rightarrow> st
      | Some (key, inst) \<Rightarrow>
          (case ls_reserved st key of
             None \<Rightarrow> st
           | Some r \<Rightarrow>
               if br_instance r \<noteq> inst then st
               else (case br_entry r of
                   None \<Rightarrow> st
                 | Some e \<Rightarrow>
                     let e = e\<lparr>ec_holders := ec_holders e - 1, ec_made := ec_made e \<or> made\<rparr> in
                     if ec_holders e = 0 \<and> \<not> ec_made e then
                       st\<lparr>ls_reserved := (ls_reserved st)(key \<mapsto> r\<lparr>br_entry := None\<rparr>),
                          ls_changes := refund (ls_changes st) 1\<rparr>
                     else st\<lparr>ls_reserved := (ls_reserved st)(key \<mapsto> r\<lparr>br_entry := Some e\<rparr>)\<rparr>)))"

record wire_error =
  wr_unchanged :: bool
  wr_condition_not_met :: bool

definition is_unchanged_wire :: "wire_error \<Rightarrow> bool" where
  "is_unchanged_wire e \<longleftrightarrow> wr_unchanged e \<or> wr_condition_not_met e"

record small_patch_error =
  sp_error :: wire_error
  sp_stale_condition :: bool

datatype small_disposition = SmallCopied | QuickChecked | ContentMatched | Excluded

record small_file_result =
  sf_disposition :: small_disposition
  sf_error :: "wire_error option"
  sf_repaired :: bool

datatype small_outcome =
    SmallPublished "small_file_result list"
  | UnsupportedTarget
  | CapacityShort
  | StagingFailed wire_error
  | NeedsBlockReuse

datatype (plugins only: code) response =
    EndpointError wire_error
  | Applied "wire_error option list"
  | PatchedBatch "small_patch_error option list"
  | PublishedBatch "wire_error option list"
  | SmallFilesCopied small_outcome
  | OtherResponse

definition indices_where :: "('a \<Rightarrow> bool) \<Rightarrow> 'a list \<Rightarrow> nat list" where
  "indices_where P xs = map fst (filter (\<lambda>(_, x). P x) (enumerate 0 xs))"

definition unmet :: "wire_error option \<Rightarrow> bool" where
  "unmet e = (case e of None \<Rightarrow> False | Some e \<Rightarrow> is_unchanged_wire e)"

definition patch_unmade :: "small_patch_error option \<Rightarrow> bool" where
  "patch_unmade r = (case r of None \<Rightarrow> False | Some e \<Rightarrow> sp_stale_condition e \<or> is_unchanged_wire (sp_error e))"

definition small_unmade :: "small_file_result \<Rightarrow> bool" where
  "small_unmade r =
     (case sf_error r of
        Some e \<Rightarrow> is_unchanged_wire e
      | None \<Rightarrow>
          (case sf_disposition r of
             SmallCopied \<Rightarrow> False
           | QuickChecked \<Rightarrow> \<not> sf_repaired r
           | ContentMatched \<Rightarrow> \<not> sf_repaired r
           | Excluded \<Rightarrow> True))"

text \<open>The operations of a request the executor reports it did not make, by index.\<close>

fun unmade_indices :: "charged \<Rightarrow> response \<Rightarrow> nat list" where
  "unmade_indices c (EndpointError e) = (if is_unchanged_wire e then [0..<cg_changes c] else [])"
| "unmade_indices c (Applied results) = indices_where unmet results"
| "unmade_indices c (PatchedBatch results) = indices_where patch_unmade results"
| "unmade_indices c (PublishedBatch results) = indices_where unmet results"
| "unmade_indices c (SmallFilesCopied (SmallPublished results)) = indices_where small_unmade results"
| "unmade_indices c (SmallFilesCopied (StagingFailed e)) =
     (if is_unchanged_wire e then [0..<cg_changes c] else [])"
| "unmade_indices c (SmallFilesCopied _) = [0..<cg_changes c]"
| "unmade_indices c OtherResponse = []"

fun file_unmade :: "response \<Rightarrow> bool" where
  "file_unmade (EndpointError e) = is_unchanged_wire e"
| "file_unmade _ = False"

text \<open>The scan of both lists at once: unmade operations before the next deletion are passed over.\<close>

fun undeleted :: "nat list \<Rightarrow> nat list \<Rightarrow> nat" where
  "undeleted unmade [] = 0"
| "undeleted unmade (index # deleting) =
     (let rest = dropWhile (\<lambda>u. u < index) unmade in
      (case rest of [] \<Rightarrow> 0 | u # _ \<Rightarrow> if u = index then 1 else 0) + undeleted rest deleting)"

definition refund_unmade :: "limit_state \<Rightarrow> charged \<Rightarrow> response \<Rightarrow> limit_state" where
  "refund_unmade st c resp =
     (let unmade = unmade_indices c resp;
          refunded = min (length unmade) (cg_changes c);
          st = (if refunded > 0 then st\<lparr>ls_changes := refund (ls_changes st) refunded\<rparr> else st);
          st = release_file st (cg_file c) (\<not> file_unmade resp);
          kept = undeleted unmade (cg_deleting c)
      in if kept > 0 then st\<lparr>ls_deletions := refund (ls_deletions st) kept\<rparr> else st)"

definition refund_unexecuted :: "limit_state \<Rightarrow> charged \<Rightarrow> limit_state" where
  "refund_unexecuted st c =
     release_file
       (st\<lparr>ls_changes := refund (ls_changes st) (cg_changes c),
           ls_deletions := refund (ls_deletions st) (length (cg_deleting c))\<rparr>)
       (cg_file c) False"

fun release_patch_holds :: "limit_state \<Rightarrow> (file_key \<times> nat) list \<Rightarrow> limit_state option" where
  "release_patch_holds st [] = Some st"
| "release_patch_holds st ((key, hold) # holds) =
     Option.bind (settle_observation st key hold False) (\<lambda>st. release_patch_holds st holds)"

end
