(* ===== verification/Grant_Accounting.thy ===== *)
theory Grant_Accounting
  imports Grant_Limits
begin

section \<open>The limits of a grant hold\<close>

text \<open>
  The operations of \<^theory_text>\<open>Grant_Limits\<close> in any order, with a ledger of what they stand for: the
  requests in flight with what each was charged, the counts that are kept for good, the deletions
  made and the bytes of published files. The counters of the receiver always equal the ledger, so
  that nothing is given back twice, no counter wraps, and what the ledger holds stays within the
  signed limits.
\<close>

declare split_paired_All [simp del] split_paired_Ex [simp del]

subsection \<open>Sums over a map\<close>

definition map_total :: "('v \<Rightarrow> nat) \<Rightarrow> ('k \<rightharpoonup> 'v) \<Rightarrow> nat" where
  "map_total f m = (\<Sum>k\<in>dom m. f (the (m k)))"

definition at_key :: "('v \<Rightarrow> nat) \<Rightarrow> ('k \<rightharpoonup> 'v) \<Rightarrow> 'k \<Rightarrow> nat" where
  "at_key f m k = (case m k of None \<Rightarrow> 0 | Some v \<Rightarrow> f v)"

lemma at_key_simps [simp]: "m k = None \<Longrightarrow> at_key f m k = 0" "m k = Some v \<Longrightarrow> at_key f m k = f v"
  by (simp_all add: at_key_def)

lemma map_total_empty [simp]: "map_total f Map.empty = 0"
  by (simp add: map_total_def)

lemma map_total_delete:
  assumes "finite (dom m)"
  shows "map_total f (m(k := None)) + at_key f m k = map_total f m"
proof (cases "m k")
  case None
  then have "m(k := None) = m" by (simp add: fun_upd_idem)
  with None show ?thesis by simp
next
  case (Some v)
  have "map_total f (m(k := None)) = (\<Sum>j\<in>dom m - {k}. f (the (m j)))"
    unfolding map_total_def by (rule sum.cong) auto
  moreover have "map_total f m = f (the (m k)) + (\<Sum>j\<in>dom m - {k}. f (the (m j)))"
    unfolding map_total_def using sum.remove [of "dom m" k "\<lambda>j. f (the (m j))"] assms Some by (simp add: domI)
  ultimately show ?thesis using Some by simp
qed

lemma map_total_put:
  assumes "finite (dom m)"
  shows "map_total f (m(k \<mapsto> v)) + at_key f m k = map_total f m + f v"
proof -
  have "(m(k \<mapsto> v))(k := None) = m(k := None)" by (simp add: fun_eq_iff)
  with map_total_delete [of "m(k \<mapsto> v)" f k] assms
  have "map_total f (m(k := None)) + f v = map_total f (m(k \<mapsto> v))" by simp
  with map_total_delete [OF assms, of f k] show ?thesis by linarith
qed

subsection \<open>Sizes\<close>

definition held :: "byte_reservation \<Rightarrow> nat" where
  "held r = (case effective_size r of None \<Rightarrow> 0 | Some s \<Rightarrow> s)"

definition counted :: "byte_reservation \<Rightarrow> nat" where
  "counted r = of_bool (br_entry r \<noteq> None)"

definition holders :: "byte_reservation \<Rightarrow> nat" where
  "holders r = (case br_entry r of None \<Rightarrow> 0 | Some e \<Rightarrow> ec_holders e)"

lemma finite_sizes: "finite (dom (br_observations r)) \<Longrightarrow> finite (sizes r)"
  by (simp add: sizes_def finite_ran)

lemma held_Max:
  assumes "finite (dom (br_observations r))"
  shows "held r = Max (insert 0 (sizes r))"
  using finite_sizes [OF assms]
  by (cases "sizes r = {}") (simp_all add: held_def effective_size_def set_last_def)

lemma effective_size_held: "effective_size r = (if sizes r = {} then None else Some (held r))"
  by (simp add: held_def effective_size_def set_last_def)

lemma held_retain:
  assumes "finite (dom (br_observations r))"
  shows "held (retain_size sz r) = max (held r) sz"
proof -
  have fin: "finite (ran (br_observations r))" using assms by (rule finite_ran)
  have "held (retain_size sz r) = Max (insert 0 (sizes (retain_size sz r)))"
    by (rule held_Max) (simp add: retain_size_def assms)
  also have "\<dots> = max (Max (insert 0 (sizes r))) sz"
  proof (cases "br_retained r")
    case None
    then show ?thesis
      using fin by (simp add: sizes_def retain_size_def insert_commute [of 0 sz] max.commute)
  next
    case (Some x)
    then show ?thesis
      using fin by (simp add: sizes_def retain_size_def insert_commute [of 0] max.assoc max.left_commute max.commute)
  qed
  finally show ?thesis by (simp add: held_Max [OF assms])
qed

lemma held_observe:
  assumes "finite (dom (br_observations r))" "br_observations r h = None"
  shows "held (r\<lparr>br_observations := (br_observations r)(h \<mapsto> sz)\<rparr>) = max (held r) sz"
proof -
  let ?r = "r\<lparr>br_observations := (br_observations r)(h \<mapsto> sz)\<rparr>"
  have "sizes ?r = insert sz (sizes r)" using assms(2) by (auto simp: sizes_def ran_map_upd)
  moreover have "held ?r = Max (insert 0 (sizes ?r))" by (rule held_Max) (simp add: assms)
  ultimately show ?thesis
    using finite_sizes [OF assms(1)]
    by (simp add: held_Max [OF assms(1)] insert_commute [of 0 sz] max.commute)
qed

lemma held_forget:
  assumes "finite (dom (br_observations r))" "br_observations r h = Some sz"
  defines "r1 \<equiv> r\<lparr>br_observations := (br_observations r)(h := None)\<rparr>"
  shows "held r1 \<le> held r" "held (retain_size sz r1) \<le> held r"
proof -
  have fin: "finite (dom (br_observations r1))" by (simp add: r1_def assms)
  have "sizes r1 \<subseteq> sizes r" by (auto simp: sizes_def r1_def ran_def split: if_splits)
  then show le: "held r1 \<le> held r"
    unfolding held_Max [OF fin] held_Max [OF assms(1)]
    using finite_sizes [OF assms(1)] by (intro Max_mono) auto
  have "sz \<in> sizes r" using assms(2) by (auto simp: sizes_def ran_def)
  then have "sz \<le> held r"
    unfolding held_Max [OF assms(1)] using finite_sizes [OF assms(1)] by (intro Max_ge) auto
  with le show "held (retain_size sz r1) \<le> held r" by (simp add: held_retain [OF fin])
qed

lemma retain_size_simps [simp]:
  "br_observations (retain_size sz r) = br_observations r" "br_entry (retain_size sz r) = br_entry r"
  "br_instance (retain_size sz r) = br_instance r" "sizes (retain_size sz r) \<noteq> {}"
  by (simp_all add: retain_size_def sizes_def)

subsection \<open>The ledger\<close>

record ledger =
  ld_in_flight :: "charged multiset"
  ld_kept :: nat
  ld_deleted :: nat
  ld_published :: nat

definition ledger_new :: ledger where
  "ledger_new = \<lparr>ld_in_flight = {#}, ld_kept = 0, ld_deleted = 0, ld_published = 0\<rparr>"

definition shares :: "charged multiset \<Rightarrow> file_share \<Rightarrow> nat" where
  "shares I s = size (filter_mset (\<lambda>c. cg_file c = Some s) I)"

lemma shares_simps [simp]:
  "shares {#} s = 0"
  "shares (add_mset c I) s = of_bool (cg_file c = Some s) + shares I s"
  by (simp_all add: shares_def)

lemma shares_none: "\<forall>c\<in>#I. cg_file c \<noteq> Some s \<Longrightarrow> shares I s = 0"
  by (simp add: shares_def)

definition changes_pending :: "charged multiset \<Rightarrow> nat" where
  "changes_pending I = (\<Sum>c\<in>#I. cg_changes c)"

definition deletions_pending :: "charged multiset \<Rightarrow> nat" where
  "deletions_pending I = (\<Sum>c\<in>#I. length (cg_deleting c))"

lemma pending_simps [simp]:
  "changes_pending {#} = 0" "deletions_pending {#} = 0"
  "changes_pending (add_mset c I) = cg_changes c + changes_pending I"
  "deletions_pending (add_mset c I) = length (cg_deleting c) + deletions_pending I"
  by (simp_all add: changes_pending_def deletions_pending_def)

definition sound_reservation :: "limit_state \<Rightarrow> charged multiset \<Rightarrow> file_key \<Rightarrow> byte_reservation \<Rightarrow> bool" where
  "sound_reservation st I k r \<longleftrightarrow>
     finite (dom (br_observations r)) \<and> (\<forall>h\<in>dom (br_observations r). h < ls_next_hold st) \<and>
     sizes r \<noteq> {} \<and> br_instance r \<le> ls_next_instance st \<and> holders r = shares I (k, br_instance r)"

definition sound_shares :: "limit_state \<Rightarrow> charged multiset \<Rightarrow> bool" where
  "sound_shares st I \<longleftrightarrow> (\<forall>c\<in>#I. \<forall>k i. cg_file c = Some (k, i) \<longrightarrow> i \<le> ls_next_instance st)"

definition sound_reservations :: "limit_state \<Rightarrow> charged multiset \<Rightarrow> bool" where
  "sound_reservations st I \<longleftrightarrow>
     finite (dom (ls_reserved st)) \<and> sound_shares st I \<and>
     (\<forall>k r. ls_reserved st k = Some r \<longrightarrow> sound_reservation st I k r)"

text \<open>The counters equal the ledger, and none is over its limit.\<close>

definition balanced :: "copy_limits \<Rightarrow> limit_state \<Rightarrow> ledger \<Rightarrow> bool" where
  "balanced L st d \<longleftrightarrow>
     ls_reserved_bytes st = ld_published d + map_total held (ls_reserved st) \<and>
     ls_changes st = ld_kept d + changes_pending (ld_in_flight d) + map_total counted (ls_reserved st) \<and>
     ls_deletions st = ld_deleted d + deletions_pending (ld_in_flight d) \<and>
     ls_reserved_bytes st \<le> cl_max_total_bytes L \<and> ls_changes st \<le> cl_max_entries L \<and>
     ls_deletions st \<le> cl_max_deletions L \<and> ls_transferred st \<le> cl_max_total_bytes L \<and>
     ls_live_connections st \<le> cl_max_connections L"

definition accounts :: "copy_limits \<Rightarrow> limit_state \<Rightarrow> ledger \<Rightarrow> bool" where
  "accounts L st d \<longleftrightarrow> sound_reservations st (ld_in_flight d) \<and> balanced L st d"

inductive limits_reached :: "copy_limits \<Rightarrow> limit_state \<Rightarrow> ledger \<Rightarrow> bool" for L where
  started: "limits_reached L limit_state_new ledger_new"
| connected: "limits_reached L st d \<Longrightarrow>
    limits_reached L (snd (acquire_connection L expired is_open st)) d"
| disconnected: "limits_reached L st d \<Longrightarrow> limits_reached L (release_connection st) d"
| reserved: "limits_reached L st d \<Longrightarrow> limits_reached L (snd (reserve_bytes L st key sz obs)) d"
| observed: "limits_reached L st d \<Longrightarrow> settle_observation st key hold retain = Some st' \<Longrightarrow>
    limits_reached L st'
      (d\<lparr>ld_kept := ld_kept d +
          (if ls_reserved st' key = None then at_key counted (ls_reserved st) key else 0)\<rparr>)"
| published: "limits_reached L st d \<Longrightarrow>
    limits_reached L (publish_reservation st key)
      (d\<lparr>ld_kept := ld_kept d + at_key counted (ls_reserved st) key,
         ld_published := ld_published d + at_key held (ls_reserved st) key\<rparr>)"
| refused: "limits_reached L st d \<Longrightarrow> charge_request L st req = Some (Inl e, st') \<Longrightarrow>
    limits_reached L st' d"
| charged: "limits_reached L st d \<Longrightarrow> charge_request L st req = Some (Inr c, st') \<Longrightarrow>
    limits_reached L st' (d\<lparr>ld_in_flight := add_mset c (ld_in_flight d)\<rparr>)"
| settled: "limits_reached L st d \<Longrightarrow> ld_in_flight d = add_mset c I \<Longrightarrow>
    limits_reached L (refund_unmade st c resp)
      (d\<lparr>ld_in_flight := I,
         ld_kept := ld_kept d + (cg_changes c - length (unmade_indices c resp)),
         ld_deleted := ld_deleted d + length (filter (\<lambda>i. i \<notin> set (unmade_indices c resp)) (cg_deleting c))\<rparr>)"
| unexecuted: "limits_reached L st d \<Longrightarrow> ld_in_flight d = add_mset c I \<Longrightarrow>
    limits_reached L (refund_unexecuted st c) (d\<lparr>ld_in_flight := I\<rparr>)"


subsection \<open>Reservations stay sound\<close>

lemma sound_reservations_counters [simp]:
  "sound_reservations (st\<lparr>ls_changes := n\<rparr>) I = sound_reservations st I"
  "sound_reservations (st\<lparr>ls_deletions := n\<rparr>) I = sound_reservations st I"
  "sound_reservations (st\<lparr>ls_transferred := n\<rparr>) I = sound_reservations st I"
  "sound_reservations (st\<lparr>ls_live_connections := n\<rparr>) I = sound_reservations st I"
  "sound_reservations (st\<lparr>ls_reserved_bytes := n\<rparr>) I = sound_reservations st I"
  by (simp_all add: sound_reservations_def sound_shares_def sound_reservation_def)

lemma sound_reservations_put:
  assumes "sound_reservations st I" "ls_reserved st' = (ls_reserved st)(key \<mapsto> r)"
    "sound_reservation st' I' key r" "ls_next_hold st \<le> ls_next_hold st'"
    "ls_next_instance st \<le> ls_next_instance st'" "sound_shares st' I'"
    "\<And>k i. k \<noteq> key \<Longrightarrow> shares I' (k, i) = shares I (k, i)"
  shows "sound_reservations st' I'"
proof -
  have "sound_reservation st' I' k q" if "ls_reserved st' k = Some q" for k q
  proof (cases "k = key")
    case False
    with that assms(1,2) have "sound_reservation st I k q"
      by (simp add: sound_reservations_def)
    with assms(4,5) assms(7) [OF False] show ?thesis
      by (auto simp: sound_reservation_def intro: less_le_trans le_trans)
  qed (use that assms(2,3) in simp)
  with assms(1,2,6) show ?thesis by (simp add: sound_reservations_def)
qed

lemma sound_reservations_delete:
  assumes "sound_reservations st I" "ls_reserved st' = (ls_reserved st)(key := None)"
    "ls_next_hold st' = ls_next_hold st" "ls_next_instance st' = ls_next_instance st"
  shows "sound_reservations st' I"
  using assms by (auto simp: sound_reservations_def sound_shares_def sound_reservation_def split: if_splits)

lemma sound_reservationsD:
  assumes "sound_reservations st I" "ls_reserved st key = Some r"
  shows "sound_reservation st I key r"
  using assms by (simp add: sound_reservations_def)

lemma shares_unborn: "sound_shares st I \<Longrightarrow> ls_next_instance st < i \<Longrightarrow> shares I (k, i) = 0"
  by (rule shares_none) (auto simp: sound_shares_def)

lemma open_reservation_sound:
  assumes "sound_reservations st I" "open_reservation st key = (r, i)"
  shows "finite (dom (br_observations r))" "\<forall>h\<in>dom (br_observations r). h < ls_next_hold st"
    "br_instance r \<le> i" "ls_next_instance st \<le> i" "holders r = shares I (key, br_instance r)"
    "held r = at_key held (ls_reserved st) key" "counted r = at_key counted (ls_reserved st) key"
proof -
  have "finite (dom (br_observations r)) \<and> (\<forall>h\<in>dom (br_observations r). h < ls_next_hold st) \<and>
    br_instance r \<le> i \<and> ls_next_instance st \<le> i \<and> holders r = shares I (key, br_instance r) \<and>
    held r = at_key held (ls_reserved st) key \<and> counted r = at_key counted (ls_reserved st) key"
  proof (cases "ls_reserved st key")
    case None
    have "shares I (key, ls_next_instance st + 1) = 0"
      using assms(1) by (intro shares_unborn [of st]) (auto simp: sound_reservations_def)
    with None assms(2) show ?thesis
      by (auto simp: open_reservation_def holders_def held_def effective_size_def sizes_def counted_def)
  next
    case (Some q)
    with assms(2) sound_reservationsD [OF assms(1) Some] show ?thesis
      by (auto simp: open_reservation_def sound_reservation_def)
  qed
  then show "finite (dom (br_observations r))" "\<forall>h\<in>dom (br_observations r). h < ls_next_hold st"
    "br_instance r \<le> i" "ls_next_instance st \<le> i" "holders r = shares I (key, br_instance r)"
    "held r = at_key held (ls_reserved st) key" "counted r = at_key counted (ls_reserved st) key"
    by blast+
qed


subsection \<open>The operations on reservations\<close>

lemma balancedD:
  assumes "accounts L st d"
  shows "ls_reserved_bytes st = ld_published d + map_total held (ls_reserved st)"
    "ls_changes st = ld_kept d + changes_pending (ld_in_flight d) + map_total counted (ls_reserved st)"
    "ls_deletions st = ld_deleted d + deletions_pending (ld_in_flight d)"
    "finite (dom (ls_reserved st))" "sound_reservations st (ld_in_flight d)" "balanced L st d"
  using assms by (simp_all add: accounts_def balanced_def sound_reservations_def)

lemma reserve_amount:
  fixes key :: file_key
  assumes "sound_reservations st I"
  defines "previous \<equiv> Option.bind (ls_reserved st key) effective_size"
    and "h \<equiv> at_key held (ls_reserved st) key"
  shows "(case previous of None \<Rightarrow> sz | Some p \<Rightarrow> max p sz) - (case previous of None \<Rightarrow> 0 | Some p \<Rightarrow> p) =
    max h sz - h"
proof (cases "ls_reserved st key")
  case (Some r)
  with sound_reservationsD [OF assms(1) Some] show ?thesis
    by (simp add: previous_def h_def effective_size_held sound_reservation_def)
qed (simp add: previous_def h_def)

lemma accounts_reserve_put:
  assumes acc: "accounts L st d" and r: "open_reservation st key = (r, i)"
    and r': "finite (dom (br_observations r'))" "\<forall>h\<in>dom (br_observations r'). h < n"
      "sizes r' \<noteq> {}" "br_instance r' = br_instance r" "br_entry r' = br_entry r" "held r' = max (held r) sz"
    and n: "ls_next_hold st \<le> n"
    and tot: "tot = ls_reserved_bytes st + (max (held r) sz - held r)" "tot \<le> cl_max_total_bytes L"
  shows "accounts L (st\<lparr>ls_next_hold := n, ls_next_instance := i,
    ls_reserved := (ls_reserved st)(key \<mapsto> r'), ls_reserved_bytes := tot\<rparr>) d" (is "accounts L ?st d")
proof -
  note D = balancedD [OF acc]
  note opened = open_reservation_sound [OF D(5) r]
  have "sound_reservations ?st (ld_in_flight d)"
  proof (rule sound_reservations_put [OF D(5)])
    show "sound_reservation ?st (ld_in_flight d) key r'"
      using r' opened(3,5) by (simp add: sound_reservation_def holders_def)
    show "sound_shares ?st (ld_in_flight d)"
      using D(5) opened(4) unfolding sound_reservations_def sound_shares_def by fastforce
  qed (use n opened(4) in simp_all)
  moreover have "counted r' = counted r" using r'(5) by (simp add: counted_def)
  ultimately show ?thesis
    using D(6) map_total_put [OF D(4), of held key r'] map_total_put [OF D(4), of counted key r']
      opened(6,7) r'(6) tot by (simp add: accounts_def balanced_def)
qed

lemma accounts_reserve:
  assumes acc: "accounts L st d"
  shows "accounts L (snd (reserve_bytes L st key sz obs)) d"
proof -
  obtain r i where r: "open_reservation st key = (r, i)" by fastforce
  note D = balancedD [OF acc]
  note opened = open_reservation_sound [OF D(5) r]
  note amount = reserve_amount [OF D(5), where key = key and sz = sz, folded opened(6)]
  let ?n = "ls_next_hold st"
  have fresh: "br_observations r ?n = None" using opened(2) by force
  have observe: "accounts L (st\<lparr>ls_next_hold := ?n + 1, ls_next_instance := i,
      ls_reserved := (ls_reserved st)(key \<mapsto> r\<lparr>br_observations := (br_observations r)(?n \<mapsto> sz)\<rparr>),
      ls_reserved_bytes := tot\<rparr>) d"
    if "tot = ls_reserved_bytes st + (max (held r) sz - held r)" "tot \<le> cl_max_total_bytes L" for tot
  proof (rule accounts_reserve_put [OF acc r _ _ _ _ _ _ _ that])
    show "held (r\<lparr>br_observations := (br_observations r)(?n \<mapsto> sz)\<rparr>) = max (held r) sz"
      by (rule held_observe [OF opened(1) fresh])
    show "sizes (r\<lparr>br_observations := (br_observations r)(?n \<mapsto> sz)\<rparr>) \<noteq> {}"
      by (auto simp: sizes_def ran_def)
  qed (use opened(1,2) in \<open>auto intro: less_SucI\<close>)
  have retain: "accounts L (st\<lparr>ls_next_instance := i,
      ls_reserved := (ls_reserved st)(key \<mapsto> retain_size sz r), ls_reserved_bytes := tot\<rparr>) d"
    if "tot = ls_reserved_bytes st + (max (held r) sz - held r)" "tot \<le> cl_max_total_bytes L" for tot
  proof -
    have "accounts L (st\<lparr>ls_next_hold := ?n, ls_next_instance := i,
        ls_reserved := (ls_reserved st)(key \<mapsto> retain_size sz r), ls_reserved_bytes := tot\<rparr>) d"
      by (rule accounts_reserve_put [OF acc r _ _ _ _ _ held_retain [OF opened(1)] _ that])
        (use opened(1,2) in simp_all)
    then show ?thesis by simp
  qed
  from acc observe retain show ?thesis
    by (auto simp: reserve_bytes_def r amount Let_def split: option.split)
qed


lemma accounts_shrink:
  assumes acc: "accounts L st d" and r: "ls_reserved st key = Some r"
    and r2: "held r2 \<le> held r" "br_entry r2 = br_entry r" "br_instance r2 = br_instance r"
      "dom (br_observations r2) \<subseteq> dom (br_observations r)"
  defines "st' \<equiv> st\<lparr>ls_reserved_bytes := ls_reserved_bytes st - (held r - held r2),
    ls_reserved := (ls_reserved st)(key := (if sizes r2 = {} then None else Some r2))\<rparr>"
  shows "accounts L st' (d\<lparr>ld_kept := ld_kept d + (if sizes r2 = {} then counted r else 0)\<rparr>)"
proof -
  note D = balancedD [OF acc]
  note sound = sound_reservationsD [OF D(5) r, unfolded sound_reservation_def]
  have reserved: "sound_reservations st' (ld_in_flight d)"
  proof (cases "sizes r2 = {}")
    case True
    then show ?thesis by (intro sound_reservations_delete [OF D(5), of _ key]) (simp_all add: st'_def)
  next
    case False
    show ?thesis
    proof (rule sound_reservations_put [OF D(5), of _ key r2])
      show "sound_reservation st' (ld_in_flight d) key r2"
        using sound r2(2-4) False finite_subset [OF r2(4)]
        by (auto simp: sound_reservation_def st'_def holders_def)
      show "sound_shares st' (ld_in_flight d)"
        using D(5) by (simp add: sound_reservations_def sound_shares_def st'_def)
    qed (simp_all add: st'_def False)
  qed
  have "held r2 = 0" if "sizes r2 = {}" using that by (simp add: held_def effective_size_def)
  moreover have "counted r2 = counted r" using r2(2) by (simp add: counted_def)
  ultimately have "balanced L st' (d\<lparr>ld_kept := ld_kept d + (if sizes r2 = {} then counted r else 0)\<rparr>)"
    using D(6) r r2(1) map_total_delete [OF D(4), of held key] map_total_delete [OF D(4), of counted key]
      map_total_put [OF D(4), of held key r2] map_total_put [OF D(4), of counted key r2]
    by (cases "sizes r2 = {}") (auto simp: balanced_def st'_def)
  with reserved show ?thesis by (simp add: accounts_def)
qed

lemma settle_observation_step:
  assumes acc: "accounts L st d"
  obtains st' where "settle_observation st key hold retain = Some st'"
    "accounts L st' (d\<lparr>ld_kept := ld_kept d +
       (if ls_reserved st' key = None then at_key counted (ls_reserved st) key else 0)\<rparr>)"
proof (cases "Option.bind (ls_reserved st key) (\<lambda>r. br_observations r hold)")
  case None
  have "settle_observation st key hold retain = Some st"
  proof (cases "ls_reserved st key")
    case (Some r)
    with None sound_reservationsD [OF balancedD(5) [OF acc] Some] show ?thesis
      by (simp add: settle_observation_def effective_size_held sound_reservation_def)
  qed (simp add: settle_observation_def)
  with acc show ?thesis by (intro that [of st]) (auto split: option.split)
next
  case (Some sz)
  then obtain r where r: "ls_reserved st key = Some r" "br_observations r hold = Some sz"
    by (auto simp: bind_eq_Some_conv)
  note D = balancedD [OF acc]
  note sound = sound_reservationsD [OF D(5) r(1), unfolded sound_reservation_def]
  define r1 where "r1 = r\<lparr>br_observations := (br_observations r)(hold := None)\<rparr>"
  define r2 where "r2 = (if retain then retain_size sz r1 else r1)"
  have le: "held r2 \<le> held r" using held_forget [of r hold sz] sound r(2) by (simp add: r2_def r1_def)
  have enough: "held r \<le> ls_reserved_bytes st"
    using map_total_delete [OF D(4), of held key] D(1) r(1) by simp
  have "settle_observation st key hold retain =
    Option.bind (effective_size r) (\<lambda>before. Option.bind (usub before (held r2)) (\<lambda>released.
    Option.bind (usub (ls_reserved_bytes st) released) (\<lambda>bytes. Some (st\<lparr>ls_reserved_bytes := bytes,
      ls_reserved := (ls_reserved st)(key := (if effective_size r2 = None then None else Some r2))\<rparr>))))"
    by (simp only: settle_observation_def r option.case Let_def r1_def r2_def held_def)
  then have "settle_observation st key hold retain =
    Some (st\<lparr>ls_reserved_bytes := ls_reserved_bytes st - (held r - held r2),
      ls_reserved := (ls_reserved st)(key := (if sizes r2 = {} then None else Some r2))\<rparr>)" (is "_ = Some ?st")
    using le enough sound by (simp add: effective_size_held usub_le)
  moreover have "accounts L ?st (d\<lparr>ld_kept := ld_kept d + (if sizes r2 = {} then counted r else 0)\<rparr>)"
    by (rule accounts_shrink [OF acc r(1) le]) (auto simp: r2_def r1_def)
  ultimately show ?thesis using r(1) by (intro that [of ?st]) (auto split: if_splits)
qed

lemma accounts_publish:
  assumes acc: "accounts L st d"
  shows "accounts L (publish_reservation st key)
    (d\<lparr>ld_kept := ld_kept d + at_key counted (ls_reserved st) key,
       ld_published := ld_published d + at_key held (ls_reserved st) key\<rparr>)"
proof -
  note D = balancedD [OF acc]
  have "sound_reservations (publish_reservation st key) (ld_in_flight d)"
    by (rule sound_reservations_delete [OF D(5), of _ key]) (simp_all add: publish_reservation_def)
  with D(6) map_total_delete [OF D(4), of held key] map_total_delete [OF D(4), of counted key] show ?thesis
    by (simp add: accounts_def balanced_def publish_reservation_def)
qed


subsection \<open>Charging\<close>

lemma charge_Some: "charge c a l = Some t \<Longrightarrow> t = c + a \<and> (c \<le> l \<longrightarrow> t \<le> l)"
  by (auto simp: charge_def bind_eq_Some_conv split: if_splits)

lemma refund_simps [simp]: "refund (c + a) a = c" "a \<le> c \<Longrightarrow> refund c a = c - a"
  by (simp_all add: refund_def)

lemma share_of_cases:
  assumes "share_of st req = (share, fc, own)"
  obtains "share = None" "\<not> fc"
  | key r where "share = Some (key, br_instance r)" "ls_reserved st key = Some r" "fc \<longleftrightarrow> br_entry r = None"
  using assms by (auto simp: share_of_def split: option.splits)

lemma charge_request_returns: "charge_request L st req \<noteq> None"
proof -
  obtain share fc own where share: "share_of st req = (share, fc, own)" by (metis prod_cases3)
  then have "hold_share (st\<lparr>ls_changes := a, ls_deletions := b, ls_transferred := c\<rparr>) share \<noteq> None" for a b c
    by (cases rule: share_of_cases) (simp_all add: hold_share_def Let_def)
  with share show ?thesis
    by (auto simp: charge_request_def Let_def split: option.split prod.split)
qed

lemma charge_refused:
  assumes "charge_request L st req = Some (Inl e, st')"
  shows "st' = st"
  using assms
  by (auto simp: charge_request_def Let_def split: option.splits prod.splits dest!: charge_Some)

lemma charge_accepted:
  assumes "charge_request L st req = Some (Inr c, st')"
  obtains fc own bytes st1 where
    "share_of st req = (cg_file c, fc, own)" "request_cost req own = (cg_changes c, bytes)"
    "cg_deleting c = request_deleting req"
    "st1 = st\<lparr>ls_changes := ls_changes st + cg_changes c + of_bool fc,
       ls_deletions := ls_deletions st + length (cg_deleting c), ls_transferred := ls_transferred st + bytes\<rparr>"
    "hold_share st1 (cg_file c) = Some st'"
    "ls_changes st \<le> cl_max_entries L \<Longrightarrow> ls_changes st1 \<le> cl_max_entries L"
    "ls_deletions st \<le> cl_max_deletions L \<Longrightarrow> ls_deletions st1 \<le> cl_max_deletions L"
    "ls_transferred st \<le> cl_max_total_bytes L \<Longrightarrow> ls_transferred st1 \<le> cl_max_total_bytes L"
  using assms
  by (auto simp: charge_request_def Let_def add.assoc split: option.splits prod.splits dest!: charge_Some)

lemma sound_unshared:
  assumes "\<And>k r. ls_reserved st k = Some r \<Longrightarrow> cg_file c \<noteq> Some (k, br_instance r)"
    "\<And>k i. cg_file c = Some (k, i) \<Longrightarrow> i \<le> ls_next_instance st"
  shows "sound_reservations st (add_mset c I) \<longleftrightarrow> sound_reservations st I"
  using assms by (auto simp: sound_reservations_def sound_shares_def sound_reservation_def)

lemma sound_hold:
  assumes "sound_reservations st I" "hold_share st (cg_file c) = Some st'"
    "\<And>k i. cg_file c = Some (k, i) \<Longrightarrow> \<exists>r. ls_reserved st k = Some r \<and> i = br_instance r"
  shows "sound_reservations st' (add_mset c I)"
proof (cases "cg_file c")
  case None
  with assms(1,2) sound_unshared [of st c I] show ?thesis by (simp add: hold_share_def)
next
  case (Some share)
  obtain key i where share: "share = (key, i)" by fastforce
  with Some assms(3) obtain r where r: "ls_reserved st key = Some r" "i = br_instance r" by blast
  define e where "e = (case br_entry r of None \<Rightarrow> \<lparr>ec_holders = 0, ec_made = False\<rparr> | Some e \<Rightarrow> e)"
  define r' where "r' = r\<lparr>br_entry := Some (e\<lparr>ec_holders := ec_holders e + 1\<rparr>)\<rparr>"
  have st': "st' = st\<lparr>ls_reserved := (ls_reserved st)(key \<mapsto> r')\<rparr>"
    using assms(2) Some share r by (simp add: hold_share_def Let_def e_def r'_def)
  have same: "sizes r' = sizes r" "holders r' = Suc (holders r)"
    by (simp_all add: r'_def sizes_def holders_def e_def split: option.split)
  note sound = sound_reservationsD [OF assms(1) r(1), unfolded sound_reservation_def]
  show ?thesis
  proof (rule sound_reservations_put [OF assms(1), of _ key r'])
    show "sound_reservation st' (add_mset c I) key r'"
      using sound same Some share r(2) by (simp add: sound_reservation_def st') (simp add: r'_def)
    show "sound_shares st' (add_mset c I)"
      using assms(1) sound Some share r(2) by (auto simp: sound_shares_def sound_reservations_def st')
  qed (use Some share st' in simp_all)
qed


lemma hold_totals:
  assumes "finite (dom (ls_reserved st))" "share_of st req = (share, fc, own)"
    "hold_share (st\<lparr>ls_changes := a, ls_deletions := b, ls_transferred := t\<rparr>) share = Some st'"
  shows "map_total counted (ls_reserved st') = map_total counted (ls_reserved st) + of_bool fc"
    "map_total held (ls_reserved st') = map_total held (ls_reserved st)"
    "ls_changes st' = a" "ls_deletions st' = b" "ls_transferred st' = t"
    "ls_reserved_bytes st' = ls_reserved_bytes st" "ls_live_connections st' = ls_live_connections st"
proof -
  show "ls_changes st' = a" "ls_deletions st' = b" "ls_transferred st' = t"
    "ls_reserved_bytes st' = ls_reserved_bytes st" "ls_live_connections st' = ls_live_connections st"
    using assms(3) by (auto simp: hold_share_def bind_eq_Some_conv Let_def split: option.splits prod.splits)
  have "map_total counted (ls_reserved st') = map_total counted (ls_reserved st) + of_bool fc \<and>
    map_total held (ls_reserved st') = map_total held (ls_reserved st)"
    using assms(2)
  proof (cases rule: share_of_cases)
    case 1
    with assms(3) show ?thesis by (auto simp: hold_share_def)
  next
    case (2 key r)
    then obtain r' where r': "ls_reserved st' = (ls_reserved st)(key \<mapsto> r')" "br_entry r' \<noteq> None" "sizes r' = sizes r"
      using assms(3) by (auto simp: hold_share_def Let_def sizes_def)
    then have "counted r' = counted r + of_bool fc" "held r' = held r"
      using 2(3) by (simp_all add: counted_def held_def effective_size_def)
    with map_total_put [OF assms(1), of counted key r'] map_total_put [OF assms(1), of held key r'] r'(1) 2(2)
    show ?thesis by simp
  qed
  then show "map_total counted (ls_reserved st') = map_total counted (ls_reserved st) + of_bool fc"
    "map_total held (ls_reserved st') = map_total held (ls_reserved st)" by auto
qed

lemma accounts_charged:
  assumes acc: "accounts L st d" and charge: "charge_request L st req = Some (Inr c, st')"
  shows "accounts L st' (d\<lparr>ld_in_flight := add_mset c (ld_in_flight d)\<rparr>)"
proof -
  note D = balancedD [OF acc]
  from charge obtain fc own bytes st1 where
    share: "share_of st req = (cg_file c, fc, own)" and
    st1: "st1 = st\<lparr>ls_changes := ls_changes st + cg_changes c + of_bool fc,
       ls_deletions := ls_deletions st + length (cg_deleting c), ls_transferred := ls_transferred st + bytes\<rparr>" and
    hold: "hold_share st1 (cg_file c) = Some st'" and
    within: "ls_changes st1 \<le> cl_max_entries L" "ls_deletions st1 \<le> cl_max_deletions L"
      "ls_transferred st1 \<le> cl_max_total_bytes L"
    using D(6) unfolding balanced_def by (auto elim!: charge_accepted)
  have "sound_reservations st' (add_mset c (ld_in_flight d))"
    by (rule sound_hold [OF _ hold])
      (use D(5) share in \<open>auto simp: st1 elim!: share_of_cases\<close>)
  with D(6) within hold_totals [OF D(4) share hold [unfolded st1]] show ?thesis
    by (simp add: accounts_def balanced_def st1)
qed

subsection \<open>Settling\<close>

lemma release_fields [simp]:
  "ls_reserved_bytes (release_file st share made) = ls_reserved_bytes st"
  "ls_deletions (release_file st share made) = ls_deletions st"
  "ls_transferred (release_file st share made) = ls_transferred st"
  "ls_live_connections (release_file st share made) = ls_live_connections st"
  "ls_next_hold (release_file st share made) = ls_next_hold st"
  "ls_next_instance (release_file st share made) = ls_next_instance st"
  by (auto simp: release_file_def Let_def split: option.split prod.split)

text \<open>What releasing a share does to the reservation it is a share of.\<close>

lemma release_cases:
  assumes "sound_reservations st (add_mset c I)"
  obtains (other) "release_file st (cg_file c) made = st" "sound_reservations st I"
  | (shared) key r r' where "ls_reserved st key = Some r" "cg_file c = Some (key, br_instance r)"
      "br_entry r \<noteq> None" "sizes r' = sizes r" "br_observations r' = br_observations r"
      "br_instance r' = br_instance r" "holders r' = holders r - 1"
      "release_file st (cg_file c) made =
         st\<lparr>ls_reserved := (ls_reserved st)(key \<mapsto> r'), ls_changes := refund (ls_changes st) (1 - counted r')\<rparr>"
proof (cases "\<exists>key r. ls_reserved st key = Some r \<and> cg_file c = Some (key, br_instance r)")
  case False
  have "\<And>k i. cg_file c = Some (k, i) \<Longrightarrow> i \<le> ls_next_instance st"
    using assms by (simp add: sound_reservations_def sound_shares_def)
  with False sound_unshared [of st c I] assms have "sound_reservations st I" by blast
  moreover have "release_file st (cg_file c) made = st"
    using False by (auto simp: release_file_def split: option.split prod.split)
  ultimately show ?thesis by (rule other [rotated])
next
  case True
  then obtain key r where r: "ls_reserved st key = Some r" "cg_file c = Some (key, br_instance r)" by blast
  with sound_reservationsD [OF assms r(1)] have "holders r \<noteq> 0"
    by (simp add: sound_reservation_def)
  then obtain e where e: "br_entry r = Some e" by (auto simp: holders_def split: option.splits)
  define e' where "e' = e\<lparr>ec_holders := ec_holders e - 1, ec_made := ec_made e \<or> made\<rparr>"
  define r' where "r' = r\<lparr>br_entry := (if ec_holders e' = 0 \<and> \<not> ec_made e' then None else Some e')\<rparr>"
  show ?thesis
    by (rule shared [of key r r'])
      (use r e in \<open>auto simp: r'_def e'_def sizes_def holders_def counted_def release_file_def Let_def\<close>)
qed


lemma release_accounts:
  fixes made :: bool
  assumes "sound_reservations st (add_mset c I)" "map_total counted (ls_reserved st) \<le> ls_changes st"
  defines "st' \<equiv> release_file st (cg_file c) made"
  shows "sound_reservations st' I" "map_total held (ls_reserved st') = map_total held (ls_reserved st)"
    "ls_changes st' + map_total counted (ls_reserved st) = ls_changes st + map_total counted (ls_reserved st')"
    "map_total counted (ls_reserved st') \<le> ls_changes st'" "ls_changes st' \<le> ls_changes st"
proof -
  have "sound_reservations st' I \<and> map_total held (ls_reserved st') = map_total held (ls_reserved st) \<and>
    ls_changes st' + map_total counted (ls_reserved st) = ls_changes st + map_total counted (ls_reserved st') \<and>
    ls_changes st' \<le> ls_changes st"
    using assms(1)
  proof (cases rule: release_cases [where made = made])
    case other
    then show ?thesis by (simp add: st'_def)
  next
    case (shared key r r')
    note sound = sound_reservationsD [OF assms(1) shared(1)]
    note st' = shared(8) [folded st'_def]
    have fin: "finite (dom (ls_reserved st))" using assms(1) by (simp add: sound_reservations_def)
    have "sound_reservations st' I"
    proof (rule sound_reservations_put [OF assms(1), of _ key r'])
      show "sound_reservation st' I key r'"
        using sound shared(2-7) by (simp add: sound_reservation_def st')
      show "sound_shares st' I"
        using assms(1) by (auto simp: sound_reservations_def sound_shares_def st')
    qed (use shared(2) in \<open>simp_all add: st'\<close>)
    moreover have "held r' = held r" "counted r = 1" "counted r' \<le> 1"
      using shared(3,4) by (simp_all add: held_def effective_size_def counted_def)
    ultimately show ?thesis
      using map_total_put [OF fin, of held key r'] map_total_put [OF fin, of counted key r']
        shared(1) assms(2) by (auto simp: st')
  qed
  with assms(2) show "sound_reservations st' I" "map_total held (ls_reserved st') = map_total held (ls_reserved st)"
    "ls_changes st' + map_total counted (ls_reserved st) = ls_changes st + map_total counted (ls_reserved st')"
    "map_total counted (ls_reserved st') \<le> ls_changes st'" "ls_changes st' \<le> ls_changes st"
    by linarith+
qed

lemma undeleted_le: "undeleted unmade deleting \<le> length deleting"
  by (induction deleting arbitrary: unmade) (auto simp: Let_def split: list.split intro: le_SucI)

lemma accounts_settled:
  fixes made :: bool
  assumes acc: "accounts L st d" and c: "ld_in_flight d = add_mset c I"
    and a: "a \<le> cg_changes c" and b: "b \<le> length (cg_deleting c)"
  defines "st' \<equiv> release_file (st\<lparr>ls_changes := ls_changes st - a\<rparr>) (cg_file c) made"
  shows "accounts L (st'\<lparr>ls_deletions := ls_deletions st - b\<rparr>)
    (d\<lparr>ld_in_flight := I, ld_kept := ld_kept d + (cg_changes c - a),
       ld_deleted := ld_deleted d + (length (cg_deleting c) - b)\<rparr>)"
proof -
  note D = balancedD [OF acc]
  have "sound_reservations (st\<lparr>ls_changes := ls_changes st - a\<rparr>) (add_mset c I)" using D(5) c by simp
  moreover have "map_total counted (ls_reserved (st\<lparr>ls_changes := ls_changes st - a\<rparr>)) \<le> ls_changes st - a"
    using D(2) c a by simp
  ultimately have R: "sound_reservations st' I" "map_total held (ls_reserved st') = map_total held (ls_reserved st)"
    "ls_changes st' + map_total counted (ls_reserved st) = ls_changes st - a + map_total counted (ls_reserved st')"
    "ls_changes st' \<le> ls_changes st - a"
    using release_accounts [of "st\<lparr>ls_changes := ls_changes st - a\<rparr>" c I made] by (simp_all add: st'_def)
  have "ls_changes st' = ld_kept d + (cg_changes c - a) + changes_pending I + map_total counted (ls_reserved st')"
    using R(3) D(2) c a by simp
  moreover have "ls_deletions st - b = ld_deleted d + (length (cg_deleting c) - b) + deletions_pending I"
    using D(3) c b by simp
  moreover have "ls_reserved_bytes st' = ls_reserved_bytes st" "ls_transferred st' = ls_transferred st"
    "ls_live_connections st' = ls_live_connections st"
    by (simp_all add: st'_def)
  ultimately show ?thesis using D(6) R(1,2,4) by (auto simp: accounts_def balanced_def)
qed

lemma accounts_refund_unmade:
  assumes acc: "accounts L st d" and c: "ld_in_flight d = add_mset c I"
  shows "accounts L (refund_unmade st c resp)
    (d\<lparr>ld_in_flight := I, ld_kept := ld_kept d + (cg_changes c - length (unmade_indices c resp)),
       ld_deleted := ld_deleted d + (length (cg_deleting c) - undeleted (unmade_indices c resp) (cg_deleting c))\<rparr>)"
proof -
  note D = balancedD [OF acc]
  let ?u = "unmade_indices c resp"
  let ?a = "min (length ?u) (cg_changes c)" and ?b = "undeleted ?u (cg_deleting c)"
  have "?a \<le> ls_changes st" "?b \<le> ls_deletions st"
    using D(2,3) c undeleted_le [of ?u "cg_deleting c"] by simp_all
  then have eq: "refund_unmade st c resp =
    (release_file (st\<lparr>ls_changes := ls_changes st - ?a\<rparr>) (cg_file c) (\<not> file_unmade resp))\<lparr>
      ls_deletions := ls_deletions st - ?b\<rparr>"
    by (auto simp: refund_unmade_def Let_def)
  have kept: "cg_changes c - length ?u = cg_changes c - ?a" by simp
  show ?thesis unfolding eq kept by (rule accounts_settled [OF acc c _ undeleted_le]) simp
qed

lemma accounts_refund_unexecuted:
  assumes acc: "accounts L st d" and c: "ld_in_flight d = add_mset c I"
  shows "accounts L (refund_unexecuted st c) (d\<lparr>ld_in_flight := I\<rparr>)"
proof -
  note D = balancedD [OF acc]
  let ?b = "length (cg_deleting c)"
  have "cg_changes c \<le> ls_changes st" "?b \<le> ls_deletions st" using D(2,3) c by simp_all
  moreover have "release_file (s\<lparr>ls_deletions := n\<rparr>) share made = (release_file s share made)\<lparr>ls_deletions := n\<rparr>"
    for s n share made
    by (auto simp: release_file_def Let_def split: option.split prod.split)
  ultimately have "refund_unexecuted st c =
    (release_file (st\<lparr>ls_changes := ls_changes st - cg_changes c\<rparr>) (cg_file c) False)\<lparr>
      ls_deletions := ls_deletions st - ?b\<rparr>"
    by (simp add: refund_unexecuted_def)
  with accounts_settled [OF acc c, of "cg_changes c" ?b] show ?thesis by simp
qed

subsection \<open>Every reachable state\<close>

text \<open>The scan of two sorted lists counts the deletions the executor did not make.\<close>

lemma undeleted_count:
  assumes "sorted_wrt (<) unmade" "sorted_wrt (<) deleting"
  shows "undeleted unmade deleting = length (filter (\<lambda>i. i \<in> set unmade) deleting)"
  using assms
proof (induction deleting arbitrary: unmade)
  case (Cons i deleting)
  let ?rest = "dropWhile (\<lambda>u. u < i) unmade"
  have rest: "sorted_wrt (<) ?rest" using Cons.prems(1) by (simp add: sorted_wrt_dropWhile)
  have after: "j \<in> set unmade \<longleftrightarrow> j \<in> set ?rest" if "i \<le> j" for j
  proof -
    have "j \<in> set unmade \<longleftrightarrow> j \<in> set (takeWhile (\<lambda>u. u < i) unmade) \<or> j \<in> set ?rest"
      by (metis Un_iff set_append takeWhile_dropWhile_id)
    moreover have "j \<notin> set (takeWhile (\<lambda>u. u < i) unmade)" using that by (auto dest: set_takeWhileD)
    ultimately show ?thesis by blast
  qed
  have "filter (\<lambda>j. j \<in> set unmade) deleting = filter (\<lambda>j. j \<in> set ?rest) deleting"
    using Cons.prems(2) by (intro filter_cong refl after) (auto intro: less_imp_le)
  moreover have "(case ?rest of [] \<Rightarrow> 0 | u # _ \<Rightarrow> if u = i then 1 else 0) = (of_bool (i \<in> set ?rest) :: nat)"
  proof (cases ?rest)
    case (Cons u us)
    with hd_dropWhile [of "\<lambda>u. u < i" unmade] have "i \<le> u" by simp
    with rest Cons show ?thesis by auto
  next
    case Nil
    show ?thesis unfolding Nil by simp
  qed
  ultimately show ?case using Cons.IH [OF rest] Cons.prems(2) by (simp add: Let_def after)
qed simp


lemma enumerate_filter_sorted: "sorted_wrt (<) (map fst (filter P (enumerate n xs)))"
proof -
  have "sorted_wrt (<) (map fst (enumerate n xs))" by simp
  then show ?thesis unfolding sorted_wrt_map by (rule sorted_wrt_filter)
qed

lemma unmade_sorted: "sorted_wrt (<) (unmade_indices c resp)"
  by (induction c resp rule: unmade_indices.induct) (simp_all add: indices_where_def enumerate_filter_sorted)

lemma in_flight_sorted:
  assumes "limits_reached L st d" "c \<in># ld_in_flight d"
  shows "sorted_wrt (<) (cg_deleting c)"
  using assms
proof (induction arbitrary: c rule: limits_reached.induct)
  case (charged st d req c0 st')
  have "sorted_wrt (<) (request_deleting req)"
    by (cases req) (simp_all add: enumerate_filter_sorted)
  moreover have "cg_deleting c0 = request_deleting req" using charged(2) by (elim charge_accepted)
  ultimately show ?case using charged(3,4) by auto
qed (auto simp: ledger_new_def)

lemma limits_accounts: "limits_reached L st d \<Longrightarrow> accounts L st d"
proof (induction rule: limits_reached.induct)
  case started
  show ?case
    by (simp add: accounts_def balanced_def sound_reservations_def sound_shares_def limit_state_new_def ledger_new_def)
next
  case (connected st d expired is_open)
  then show ?case by (auto simp: accounts_def balanced_def acquire_connection_def)
next
  case (disconnected st d)
  then show ?case by (auto simp: accounts_def balanced_def release_connection_def)
next
  case (observed st d key hold retain st')
  show ?case
  proof (rule settle_observation_step [OF observed(3), of key hold retain])
    fix q assume "settle_observation st key hold retain = Some q"
      "accounts L q (d\<lparr>ld_kept := ld_kept d +
         (if ls_reserved q key = None then at_key counted (ls_reserved st) key else 0)\<rparr>)"
    with observed(2) show ?thesis by simp
  qed
next
  case (refused st d req e st')
  then show ?case by (simp add: charge_refused [OF refused(2)])
next
  case (settled st d c I resp)
  let ?u = "unmade_indices c resp"
  have "sorted_wrt (<) (cg_deleting c)" using in_flight_sorted [OF settled(1)] settled(2) by simp
  then have "length (cg_deleting c) - undeleted ?u (cg_deleting c) =
      length (filter (\<lambda>i. i \<notin> set ?u) (cg_deleting c))"
    using sum_length_filter_compl [of "\<lambda>i. i \<in> set ?u" "cg_deleting c"]
    by (simp add: undeleted_count unmade_sorted)
  with accounts_refund_unmade [OF settled(3,2), of resp] show ?case by simp
qed (rule accounts_reserve accounts_publish accounts_charged accounts_refund_unexecuted, assumption+)+

lemma release_patch_holds_reached:
  assumes "limits_reached L st d"
  obtains st' d' where "release_patch_holds st holds = Some st'" "limits_reached L st' d'"
  using assms
proof (induction holds arbitrary: st d thesis)
  case (Cons h holds)
  obtain key hold where h: "h = (key, hold)" by fastforce
  obtain q where q: "settle_observation st key hold False = Some q"
    using settle_observation_step [OF limits_accounts [OF Cons.prems(2)]] by blast
  show ?case
    by (rule Cons.IH [OF _ limits_reached.observed [OF Cons.prems(2) q]], rule Cons.prems(1))
      (simp_all add: h q)
qed auto

subsection \<open>The properties\<close>

definition sample_share :: charged where
  "sample_share = \<lparr>cg_changes = 0, cg_deleting = [], cg_file = Some ((''/d/c'', ''0''), 1)\<rparr>"

definition sample_held :: byte_reservation where
  "sample_held = \<lparr>br_retained = Some 5, br_observations = Map.empty,
     br_entry = Some \<lparr>ec_holders = 1, ec_made = False\<rparr>, br_instance = 1\<rparr>"

definition sample_accounts :: limit_state where
  "sample_accounts = limit_state_new\<lparr>ls_reserved := [(''/d/c'', ''0'') \<mapsto> sample_held],
     ls_reserved_bytes := 5, ls_next_instance := 1, ls_changes := 1\<rparr>"

lemma sample_limits_reached:
  "limits_reached (cop_limits sample_copy) sample_accounts (ledger_new\<lparr>ld_in_flight := {#sample_share#}\<rparr>)"
proof -
  let ?L = "cop_limits sample_copy"
  define st where "st = snd (reserve_bytes ?L limit_state_new (''/d/c'', ''0'') 5 False)"
  have st: "st = limit_state_new\<lparr>ls_reserved := [(''/d/c'', ''0'') \<mapsto> sample_held\<lparr>br_entry := None\<rparr>],
     ls_reserved_bytes := 5, ls_next_instance := 1\<rparr>"
    by (simp add: st_def reserve_bytes_def limit_state_new_def open_reservation_def retain_size_def
        sample_held_def sample_copy_def uadd_def u64_max_def)
  have "charge_request ?L st (Prepare ''/d/c'' ''0'' True False) = Some (Inr sample_share, sample_accounts)"
    by (simp add: st charge_request_def share_of_def hold_share_def charge_def limit_state_new_def
        sample_accounts_def sample_held_def sample_share_def sample_copy_def uadd_def u64_max_def)
  moreover have "limits_reached ?L st ledger_new" unfolding st_def by (intro limits_reached.intros)
  ultimately have "limits_reached ?L sample_accounts
      (ledger_new\<lparr>ld_in_flight := add_mset sample_share (ld_in_flight ledger_new)\<rparr>)"
    by (intro limits_reached.charged)
  then show ?thesis by (simp add: ledger_new_def)
qed

text \<open>C6. A grant's limits hold whatever requests arrive, in any order of reservation, charge, settlement
  and refund: the changes kept, in flight and reserved together stay within the entry limit, the
  deletions within theirs, the bytes of published and prepared files and the bytes transferred
  within the byte limit, and the connections within theirs; settling never panics.\<close>

theorem grant_limits_hold:
  assumes "limits_reached L st d"
  shows "ld_kept d + changes_pending (ld_in_flight d) + map_total counted (ls_reserved st) \<le> cl_max_entries L \<and>
    ld_deleted d + deletions_pending (ld_in_flight d) \<le> cl_max_deletions L \<and>
    ld_published d + map_total held (ls_reserved st) \<le> cl_max_total_bytes L \<and>
    ls_transferred st \<le> cl_max_total_bytes L \<and> ls_live_connections st \<le> cl_max_connections L \<and>
    settle_observation st key hold retain \<noteq> None \<and> release_patch_holds st holds \<noteq> None \<and>
    charge_request L st req \<noteq> None"
proof -
  note acc = limits_accounts [OF assms]
  obtain st' where "settle_observation st key hold retain = Some st'"
    using settle_observation_step [OF acc] by blast
  moreover obtain q where "release_patch_holds st holds = Some q"
    using release_patch_holds_reached [OF assms] by blast
  ultimately show ?thesis using acc charge_request_returns [of L st req] by (auto simp: accounts_def balanced_def)
qed

theorem grant_limits_hold_witness:
  "changes_pending {#sample_share#} + map_total counted (ls_reserved sample_accounts) \<le> 9 \<and>
   map_total held (ls_reserved sample_accounts) \<le> 100"
  using grant_limits_hold [OF sample_limits_reached, of "(''/d/c'', ''0'')" 0 True "[]" OtherRequest]
  by (simp add: ledger_new_def sample_copy_def)

text \<open>C7. A file counts once against the entry limit while requests share it: as long as a request that
  may create or write the file has not settled, its reservation keeps the count, which is held by
  exactly the requests in flight that share that reservation.\<close>

theorem file_counted_while_shared:
  assumes "limits_reached L st d" "c \<in># ld_in_flight d" "cg_file c = Some (key, br_instance r)"
    "ls_reserved st key = Some r"
  shows "\<exists>e. br_entry r = Some e \<and>
    ec_holders e = size (filter_mset (\<lambda>c. cg_file c = Some (key, br_instance r)) (ld_in_flight d))"
proof -
  have "holders r = shares (ld_in_flight d) (key, br_instance r)"
    using sound_reservationsD [OF balancedD(5) [OF limits_accounts [OF assms(1)]] assms(4)]
    by (simp add: sound_reservation_def)
  moreover have "shares (ld_in_flight d) (key, br_instance r) \<noteq> 0"
    using assms(2,3) by (auto dest!: multi_member_split)
  ultimately show ?thesis by (auto simp: holders_def shares_def split: option.splits)
qed

theorem file_counted_while_shared_witness:
  "\<exists>e. br_entry sample_held = Some e \<and> ec_holders e = 1"
  using file_counted_while_shared [OF sample_limits_reached, of sample_share "(''/d/c'', ''0'')" sample_held]
  by (simp add: ledger_new_def sample_share_def sample_held_def sample_accounts_def)

end
