(* ===== verification/S3_Pattern.thy ===== *)
theory S3_Pattern
  imports Syq_Prelude
begin

section \<open>Patterns of S3 keys\<close>

text \<open>
  \<open>src/src/s3/listing/pattern.rs\<close>: the tokens of a pattern, the components it is split into, and the
  table-filling matcher of one component. Text is a list of Unicode scalar values, as the source's
  \<open>chars\<close> gives them; their lexicographic order is that of the UTF-8 bytes, which both Rust and S3
  use. The regular expression a pattern compiles to is matched by a third-party package, a
  parameter here.
\<close>

type_synonym ustring = "nat list"

definition lit :: "string \<Rightarrow> ustring" where
  "lit s = map of_char s"

definition slash :: nat where "slash = of_char (CHR ''/'')"

definition star :: nat where "star = of_char (CHR ''*'')"

definition question :: nat where "question = of_char (CHR ''?'')"

lemmas key_chars = slash_def star_def question_def

lemma key_chars_distinct [simp]: "star \<noteq> question" "question \<noteq> star" "star \<noteq> slash" "question \<noteq> slash" "slash \<noteq> star" "slash \<noteq> question"
  by (simp_all add: key_chars)

datatype glob_token = Literal nat | Star | Recursive | Any

fun tokens :: "ustring \<Rightarrow> glob_token list" where
  "tokens [] = []"
| "tokens (c # cs) =
     (if c = star then
        (case cs of
           d # ds \<Rightarrow> if d = star then Recursive # tokens ds else Star # tokens cs
         | [] \<Rightarrow> Star # tokens cs)
      else if c = question then Any # tokens cs
      else Literal c # tokens cs)"

subsection \<open>The matcher of a component\<close>

function star_row :: "bool \<Rightarrow> ustring \<Rightarrow> nat \<Rightarrow> bool list \<Rightarrow> bool list" where
  "star_row recursive chars i matched =
     (if i < length matched then
        star_row recursive chars (i + 1)
          (matched[i := matched ! i \<or> (matched ! (i - 1) \<and> (recursive \<or> chars ! (i - 1) \<noteq> slash))])
      else matched)"
  by pat_completeness auto
termination
  by (relation "measure (\<lambda>(_, _, i, matched). length matched - i)") auto

definition one_matches :: "glob_token \<Rightarrow> nat \<Rightarrow> bool" where
  "one_matches t c = (case t of Literal l \<Rightarrow> l = c | _ \<Rightarrow> c \<noteq> slash)"

text \<open>From the end of the row down to index 1.\<close>

fun one_row :: "glob_token \<Rightarrow> ustring \<Rightarrow> nat \<Rightarrow> bool list \<Rightarrow> bool list" where
  "one_row t chars 0 matched = matched"
| "one_row t chars (Suc i) matched =
     one_row t chars i (matched[Suc i := matched ! i \<and> one_matches t (chars ! i)])"

fun token_row :: "ustring \<Rightarrow> glob_token \<Rightarrow> bool list \<Rightarrow> bool list" where
  "token_row chars Star matched = star_row False chars 1 matched"
| "token_row chars Recursive matched = star_row True chars 1 matched"
| "token_row chars t matched = (one_row t chars (length matched - 1) matched)[0 := False]"

definition token_matches :: "glob_token list \<Rightarrow> ustring \<Rightarrow> bool" where
  "token_matches ts chars =
     fold (token_row chars) ts ((replicate (length chars + 1) False)[0 := True]) ! length chars"

definition literal_of :: "glob_token \<Rightarrow> nat option" where
  "literal_of t = (case t of Literal c \<Rightarrow> Some c | _ \<Rightarrow> None)"

definition literal_prefix :: "glob_token list \<Rightarrow> ustring" where
  "literal_prefix ts = map (\<lambda>t. the (literal_of t)) (takeWhile (\<lambda>t. literal_of t \<noteq> None) ts)"

definition component_literal :: "glob_token list \<Rightarrow> bool" where
  "component_literal ts = list_all (\<lambda>t. literal_of t \<noteq> None) ts"

definition component_recursive :: "glob_token list \<Rightarrow> bool" where
  "component_recursive ts = list_ex (\<lambda>t. t = Recursive) ts"

subsection \<open>Patterns\<close>

datatype pattern_error = ExpectedS3 | MissingKey | BadBucket | BadExpression

text \<open>The regular expressions of the third-party package: escaping, compiling and matching.\<close>

record 'r regex_library =
  re_escape :: "ustring \<Rightarrow> ustring"
  re_new :: "ustring \<Rightarrow> 'r option"
  re_is_match :: "'r \<Rightarrow> ustring \<Rightarrow> bool"

record 'r pattern =
  pt_bucket :: ustring
  pt_components :: "glob_token list list"
  pt_matcher :: 'r

fun token_expression :: "'r regex_library \<Rightarrow> glob_token \<Rightarrow> ustring" where
  "token_expression R (Literal c) = re_escape R [c]"
| "token_expression R Star = lit ''[^/]*''"
| "token_expression R Recursive = lit ''.*''"
| "token_expression R Any = lit ''[^/]''"

definition pattern_expression :: "'r regex_library \<Rightarrow> glob_token list \<Rightarrow> ustring" where
  "pattern_expression R ts = lit ''(?s)'' @ [92] @ lit ''A'' @ concat (map (token_expression R) ts) @ [92] @ lit ''z''"

definition pattern_parse :: "'r regex_library \<Rightarrow> ustring \<Rightarrow> pattern_error + 'r pattern" where
  "pattern_parse R input =
     (if \<not> starts_with (lit ''s3://'') input then Inl ExpectedS3
      else case split_once slash (drop (length (lit ''s3://'')) input) of
          None \<Rightarrow> Inl MissingKey
        | Some (bucket, path) \<Rightarrow>
            if bucket = [] \<or> star \<in> set bucket \<or> question \<in> set bucket then Inl BadBucket
            else if path = [] then Inl MissingKey
            else case re_new R (pattern_expression R (tokens path)) of
                None \<Rightarrow> Inl BadExpression
              | Some matcher \<Rightarrow>
                  Inr \<lparr>pt_bucket = bucket, pt_components = map tokens (split_on slash path),
                       pt_matcher = matcher\<rparr>)"

definition pattern_matches :: "'r regex_library \<Rightarrow> 'r pattern \<Rightarrow> ustring \<Rightarrow> bool" where
  "pattern_matches R p key = re_is_match R (pt_matcher p) key"

subsection \<open>What a pattern means\<close>

text \<open>A token stands for some texts, and a pattern for their concatenations.\<close>

fun token_text :: "glob_token \<Rightarrow> ustring \<Rightarrow> bool" where
  "token_text (Literal c) s \<longleftrightarrow> s = [c]"
| "token_text Star s \<longleftrightarrow> slash \<notin> set s"
| "token_text Recursive s \<longleftrightarrow> True"
| "token_text Any s \<longleftrightarrow> (\<exists>c. s = [c] \<and> c \<noteq> slash)"

definition glob :: "glob_token list \<Rightarrow> ustring \<Rightarrow> bool" where
  "glob ts s \<longleftrightarrow> (\<exists>parts. list_all2 token_text ts parts \<and> concat parts = s)"

lemma glob_Nil [simp]: "glob [] s \<longleftrightarrow> s = []"
  by (auto simp: glob_def)

lemma glob_append: "glob (ts @ us) s \<longleftrightarrow> (\<exists>a b. s = a @ b \<and> glob ts a \<and> glob us b)"
proof
  assume "glob (ts @ us) s"
  then obtain ps qs where "list_all2 token_text ts ps" "list_all2 token_text us qs" "s = concat ps @ concat qs"
    by (auto simp: glob_def list_all2_append1)
  then show "\<exists>a b. s = a @ b \<and> glob ts a \<and> glob us b" unfolding glob_def by blast
next
  assume "\<exists>a b. s = a @ b \<and> glob ts a \<and> glob us b"
  then obtain ps qs where "list_all2 token_text ts ps" "list_all2 token_text us qs" "s = concat ps @ concat qs"
    by (auto simp: glob_def)
  then show "glob (ts @ us) s" by (auto simp: glob_def intro!: exI [of _ "ps @ qs"] list_all2_appendI)
qed

lemma glob_single [simp]: "glob [t] s \<longleftrightarrow> token_text t s"
  by (auto simp: glob_def list_all2_Cons1)

lemma glob_Cons: "glob (t # ts) s \<longleftrightarrow> (\<exists>a b. s = a @ b \<and> token_text t a \<and> glob ts b)"
  using glob_append [of "[t]" ts s] by simp

lemma glob_snoc: "glob (ts @ [t]) s \<longleftrightarrow> (\<exists>a b. s = a @ b \<and> glob ts a \<and> token_text t b)"
  using glob_append [of ts "[t]" s] by simp


subsection \<open>The matcher decides the meaning\<close>

lemma length_star_row [simp]: "length (star_row recursive chars i m) = length m"
  by (induction recursive chars i m rule: star_row.induct) (subst star_row.simps, simp)

lemma length_one_row [simp]: "length (one_row t chars n m) = length m"
  by (induction n arbitrary: m) auto

declare star_row.simps [simp del]

lemma star_row_nth:
  assumes "0 < i" "j < length m"
  shows "star_row recursive chars i m ! j \<longleftrightarrow>
    m ! j \<or> (i \<le> j \<and> star_row recursive chars i m ! (j - 1) \<and> (recursive \<or> chars ! (j - 1) \<noteq> slash))"
  using assms
proof (induction recursive chars i m arbitrary: j rule: star_row.induct)
  case (1 recursive chars i m)
  show ?case
  proof (cases "i < length m")
    case True
    define m' where "m' = m[i := m ! i \<or> (m ! (i - 1) \<and> (recursive \<or> chars ! (i - 1) \<noteq> slash))]"
    have row: "star_row recursive chars i m = star_row recursive chars (i + 1) m'"
      using True by (subst star_row.simps) (simp add: m'_def)
    have IH: "star_row recursive chars (i + 1) m' ! k \<longleftrightarrow> m' ! k \<or>
      (i + 1 \<le> k \<and> star_row recursive chars (i + 1) m' ! (k - 1) \<and> (recursive \<or> chars ! (k - 1) \<noteq> slash))"
      if "k < length m" for k
      using 1(1) [OF True, of k] that by (simp add: m'_def)
    have at: "m' ! i \<longleftrightarrow> m ! i \<or> (m ! (i - 1) \<and> (recursive \<or> chars ! (i - 1) \<noteq> slash))"
      "k \<noteq> i \<Longrightarrow> m' ! k = m ! k" for k
      using True by (simp_all add: m'_def)
    show ?thesis
    proof (cases "j = i")
      case True
      have "\<not> i + 1 \<le> i - 1" "i - 1 < length m" "i - 1 \<noteq> i" using 1(2) \<open>i < length m\<close> by linarith+
      then have "star_row recursive chars (i + 1) m' ! (i - 1) \<longleftrightarrow> m ! (i - 1)"
        using IH [of "i - 1"] at(2) [of "i - 1"] by blast
      with True IH [OF 1(3)] at(1) show ?thesis unfolding row by simp
    next
      case False
      then have "i + 1 \<le> j \<longleftrightarrow> i \<le> j" by linarith
      with IH [OF 1(3)] at(2) [OF False] show ?thesis unfolding row by simp
    qed
  qed (use 1(3) in \<open>subst (1 2) star_row.simps, simp\<close>)
qed

lemma one_row_nth:
  assumes "n < length m" "j < length m"
  shows "one_row t chars n m ! j \<longleftrightarrow>
    (if 0 < j \<and> j \<le> n then m ! (j - 1) \<and> one_matches t (chars ! (j - 1)) else m ! j)"
  using assms
proof (induction n arbitrary: m)
  case (Suc n)
  then show ?case by (cases "j = Suc n") (auto simp: nth_list_update)
qed auto

lemma glob_star_extend:
  assumes "t = Star \<or> t = Recursive"
  shows "glob (ts @ [t]) (s @ [c]) \<longleftrightarrow> glob ts (s @ [c]) \<or> (glob (ts @ [t]) s \<and> (t = Recursive \<or> c \<noteq> slash))"
proof -
  have split: "(\<exists>a b. s @ [c] = a @ b \<and> P a \<and> Q b) \<longleftrightarrow>
      (P (s @ [c]) \<and> Q []) \<or> (\<exists>a b. s = a @ b \<and> P a \<and> Q (b @ [c]))" (is "?l \<longleftrightarrow> ?r") for P Q
  proof
    assume ?l
    then obtain a b where "s @ [c] = a @ b" "P a" "Q b" by blast
    then show ?r by (cases b rule: rev_cases) auto
  next
    assume ?r
    then show ?l by (metis append_Nil2 append.assoc)
  qed
  have t: "token_text t []" "token_text t (b @ [c]) \<longleftrightarrow> token_text t b \<and> (t = Recursive \<or> c \<noteq> slash)" for b
    using assms by auto
  show ?thesis unfolding glob_snoc split t using t(1) by blast
qed

lemma glob_one_extend:
  assumes "t \<noteq> Star" "t \<noteq> Recursive"
  shows "glob (ts @ [t]) (s @ [c]) \<longleftrightarrow> glob ts s \<and> one_matches t c" "\<not> glob (ts @ [t]) []"
  using assms by (cases t; fastforce simp: glob_snoc one_matches_def)+

definition row_ok :: "glob_token list \<Rightarrow> ustring \<Rightarrow> bool list \<Rightarrow> bool" where
  "row_ok ts chars m \<longleftrightarrow>
     length m = length chars + 1 \<and> (\<forall>i \<le> length chars. m ! i \<longleftrightarrow> glob ts (take i chars))"

lemma row_ok_star:
  assumes "row_ok ts chars m" "t = Star \<or> t = Recursive"
  shows "row_ok (ts @ [t]) chars (star_row (t = Recursive) chars 1 m)"
proof -
  have "star_row (t = Recursive) chars 1 m ! i \<longleftrightarrow> glob (ts @ [t]) (take i chars)" if "i \<le> length chars" for i
    using that
  proof (induction i)
    case 0
    with assms star_row_nth [of 1 0 m "t = Recursive" chars] show ?case
      by (auto simp: row_ok_def glob_snoc)
  next
    case (Suc i)
    then have i: "i < length chars" "take (Suc i) chars = take i chars @ [chars ! i]"
      by (simp_all add: take_Suc_conv_app_nth)
    from Suc i(1) assms(1) star_row_nth [of 1 "Suc i" m "t = Recursive" chars] show ?case
      unfolding i(2) glob_star_extend [OF assms(2)] by (auto simp: row_ok_def simp flip: i(2))
  qed
  with assms(1) show ?thesis by (simp add: row_ok_def)
qed

lemma row_ok_token:
  assumes "row_ok ts chars m"
  shows "row_ok (ts @ [t]) chars (token_row chars t m)"
proof (cases "t = Star \<or> t = Recursive")
  case True
  then show ?thesis using row_ok_star [OF assms True] by auto
next
  case False
  then have row: "token_row chars t m = (one_row t chars (length chars) m)[0 := False]"
    using assms by (cases t) (simp_all add: row_ok_def)
  have "token_row chars t m ! i \<longleftrightarrow> glob (ts @ [t]) (take i chars)" if "i \<le> length chars" for i
  proof (cases i)
    case 0
    with assms False show ?thesis by (simp add: row row_ok_def glob_one_extend(2))
  next
    case (Suc k)
    with that have "take i chars = take k chars @ [chars ! k]" by (simp add: take_Suc_conv_app_nth)
    with Suc that assms False show ?thesis
      by (simp add: row one_row_nth row_ok_def glob_one_extend(1))
  qed
  with assms show ?thesis by (simp add: row_ok_def row)
qed

lemma token_matches_glob: "token_matches ts chars \<longleftrightarrow> glob ts chars"
proof -
  have start: "row_ok [] chars ((replicate (length chars + 1) False)[0 := True])"
    by (auto simp: row_ok_def nth_Cons split: nat.split)
  have "row_ok (ts @ us) chars (fold (token_row chars) us m)" if "row_ok ts chars m" for us m ts
    using that
  proof (induction us arbitrary: ts m)
    case (Cons u us)
    from Cons.IH [OF row_ok_token [OF Cons.prems]] show ?case by simp
  qed simp
  from this [OF start] show ?thesis by (simp add: token_matches_def row_ok_def)
qed


subsection \<open>Components\<close>

lemma tokens_slash: "tokens (a @ slash # b) = tokens a @ Literal slash # tokens b"
proof (induction a rule: tokens.induct)
  case (2 c cs)
  then show ?case by (cases cs) (auto split: list.split)
qed simp

lemma tokens_join: "ps \<noteq> [] \<Longrightarrow> tokens (join_with slash ps) = join_with (Literal slash) (map tokens ps)"
  by (induction ps rule: induct_list012) (simp_all add: tokens_slash)

lemma tokens_split: "tokens path = join_with (Literal slash) (map tokens (split_on slash path))"
  using tokens_join [of "split_on slash path"] by (simp add: join_split)

lemma tokens_no_slash: "slash \<notin> set s \<Longrightarrow> Literal slash \<notin> set (tokens s)"
proof (induction s rule: tokens.induct)
  case (2 c cs)
  then show ?case by (cases cs) simp_all
qed simp

text \<open>Components that never match a slash: what \<open>tokens\<close> makes of a piece between slashes.\<close>

definition slashless :: "glob_token list \<Rightarrow> bool" where
  "slashless ts \<longleftrightarrow> Literal slash \<notin> set ts"

lemma glob_slashless:
  assumes "slashless ts" "\<not> component_recursive ts" "glob ts s"
  shows "slash \<notin> set s"
  using assms
proof (induction ts arbitrary: s)
  case (Cons t ts)
  from Cons.prems(3) obtain a b where s: "s = a @ b" "token_text t a" "glob ts b" by (auto simp: glob_Cons)
  have "slash \<notin> set a" using s(2) Cons.prems(1,2)
    by (cases t) (auto simp: slashless_def component_recursive_def)
  with Cons s show ?case by (simp add: slashless_def component_recursive_def)
qed simp

lemma literal_prefix_Cons [simp]:
  "literal_prefix [] = []"
  "literal_prefix (t # ts) = (case literal_of t of None \<Rightarrow> [] | Some c \<Rightarrow> c # literal_prefix ts)"
  by (auto simp: literal_prefix_def split: option.split)

lemma literal_of_text: "literal_of t = Some c \<Longrightarrow> token_text t s \<longleftrightarrow> s = [c]"
  by (auto simp: literal_of_def split: glob_token.splits)

lemma glob_literal_prefix: "glob (ts @ us) s \<Longrightarrow> starts_with (literal_prefix ts) s"
proof (induction ts arbitrary: s)
  case (Cons t ts)
  from Cons.prems obtain a b where s: "s = a @ b" "token_text t a" "glob (ts @ us) b" by (auto simp: glob_Cons)
  then show ?case using Cons.IH [OF s(3)]
    by (auto simp: starts_with_def literal_of_text split: option.split)
qed (simp add: starts_with_def)

lemma glob_literal: "component_literal ts \<Longrightarrow> glob ts s \<longleftrightarrow> s = literal_prefix ts"
proof (induction ts arbitrary: s)
  case (Cons t ts)
  then obtain c where "literal_of t = Some c" by (auto simp: component_literal_def)
  with Cons show ?case by (auto simp: glob_Cons literal_of_text component_literal_def)
qed simp

lemma literal_not_recursive: "component_literal ts \<Longrightarrow> \<not> component_recursive ts"
  by (induction ts) (auto simp: component_literal_def component_recursive_def literal_of_def)

text \<open>A key matches a pattern of several components whose first is not recursive exactly when its
  text before the first slash matches that component, and the rest matches the others.\<close>

definition glob_path :: "glob_token list list \<Rightarrow> ustring \<Rightarrow> bool" where
  "glob_path cs key = glob (join_with (Literal slash) cs) key"

lemma glob_path_single [simp]: "glob_path [c] key \<longleftrightarrow> glob c key"
  by (simp add: glob_path_def)

lemma glob_path_Cons:
  assumes "slashless c" "\<not> component_recursive c" "cs \<noteq> []"
  shows "glob_path (c # cs) key \<longleftrightarrow>
    (\<exists>segment rest. key = segment @ slash # rest \<and> slash \<notin> set segment \<and> glob c segment \<and> glob_path cs rest)"
proof -
  have "join_with (Literal slash) (c # cs) = c @ Literal slash # join_with (Literal slash) cs"
    using assms(3) by (cases cs) auto
  then show ?thesis
    using glob_slashless [OF assms(1,2)]
    by (auto simp: glob_path_def glob_append glob_Cons)
qed

lemma glob_path_prefix: "glob_path (c # cs) key \<Longrightarrow> starts_with (literal_prefix c) key"
  unfolding glob_path_def by (cases cs) (auto dest: glob_literal_prefix [of _ "[]", simplified] glob_literal_prefix)

end
