(* ===== verification/S3_Listing.thy ===== *)
theory S3_Listing
  imports S3_Pattern "HOL-Library.List_Lexorder" "HOL-Library.Multiset"
begin

section \<open>Listing S3 objects\<close>

text \<open>
  \<open>src/src/s3/listing/engine.rs\<close>: how the objects that match a pattern, or a literal prefix, are found
  with bounded pages of listing requests. The store is a parameter: one request is a function of
  its prefix, delimiter, continuation token and starting key, and may fail. The asynchronous loop
  is a step relation in which any active job may be the next to finish; the semaphore that bounds
  the requests in flight changes no answer and is left out.
\<close>

record s3_entry =
  en_key :: ustring
  en_size :: nat
  en_last_modified :: "ustring option"
  en_etag :: "ustring option"

record page =
  pg_entries :: "s3_entry list"
  pg_prefixes :: "ustring list"
  pg_next :: "ustring option"

type_synonym 'e pager = "ustring \<Rightarrow> bool \<Rightarrow> ustring option \<Rightarrow> ustring option \<Rightarrow> 'e + page"

record 'e store =
  sr_ordered :: bool
  sr_page :: "'e pager"

datatype 'e listing_error =
    StoreFailed 'e
  | PageTooLong
  | BadToken
  | KeyOutsidePrefix
  | BadCommonPrefix
  | BadConcurrency
  | EmitFailed 'e

definition MAX_CHILDREN :: nat where "MAX_CHILDREN = 256"

definition MAX_RECURSIVE_CHILDREN :: nat where "MAX_RECURSIVE_CHILDREN = 64"

definition SPLIT_QUEUE_LIMIT :: nat where "SPLIT_QUEUE_LIMIT = 4096"

definition MAX_RECURSIVE_PROBES :: nat where "MAX_RECURSIVE_PROBES = 4"

datatype job =
    Discover ustring nat nat
  | RecursiveJob ustring nat "ustring option"
  | Scan ustring bool "ustring option" "ustring option"

record batch =
  bt_entries :: "s3_entry list"
  bt_jobs :: "job list"

definition scan_batch :: "ustring \<Rightarrow> bool \<Rightarrow> page \<Rightarrow> ustring option \<Rightarrow> batch" where
  "scan_batch prefix delimiter page start_after =
     \<lparr>bt_entries = pg_entries page,
      bt_jobs = (case pg_next page of
          None \<Rightarrow> []
        | Some token \<Rightarrow> [Scan prefix delimiter (Some token) start_after])\<rparr>"

subsection \<open>One page\<close>

definition after_start :: "ustring option \<Rightarrow> s3_entry \<Rightarrow> bool" where
  "after_start start_after e = (case start_after of None \<Rightarrow> True | Some s \<Rightarrow> en_key e > s)"

definition valid_child :: "ustring \<Rightarrow> bool \<Rightarrow> ustring \<Rightarrow> bool" where
  "valid_child prefix delimiter child \<longleftrightarrow>
     delimiter \<and> starts_with prefix child \<and> length child > length prefix \<and> last child = slash"

definition read_after ::
  "'e store \<Rightarrow> ustring \<Rightarrow> bool \<Rightarrow> ustring option \<Rightarrow> ustring option \<Rightarrow> 'e listing_error + page" where
  "read_after S prefix delimiter token start_after =
     and_then (map_sum StoreFailed id
       (sr_page S prefix delimiter token (if token = None then start_after else None))) (\<lambda>page.
     if length (pg_entries page) + length (pg_prefixes page) > 1000 then Inl PageTooLong
     else if pg_next page = Some [] \<or> (pg_next page \<noteq> None \<and> pg_next page = token) then Inl BadToken
     else if \<not> list_all (\<lambda>e. starts_with prefix (en_key e)) (pg_entries page) then Inl KeyOutsidePrefix
     else if \<not> list_all (valid_child prefix delimiter) (pg_prefixes page) then Inl BadCommonPrefix
     else Inr (page\<lparr>pg_entries := filter (after_start start_after) (pg_entries page)\<rparr>))"

definition read_page ::
  "'e store \<Rightarrow> ustring \<Rightarrow> bool \<Rightarrow> ustring option \<Rightarrow> 'e listing_error + page" where
  "read_page S prefix delimiter token = read_after S prefix delimiter token None"

subsection \<open>Splitting a recursive listing\<close>

text \<open>The key up to and including the first slash after the query.\<close>

definition common_prefix :: "ustring \<Rightarrow> ustring \<Rightarrow> ustring option" where
  "common_prefix query key =
     (let suffix = drop (length query) key in
      if starts_with query key \<and> slash \<in> set suffix
      then Some (query @ takeWhile (\<lambda>c. c \<noteq> slash) suffix @ [slash]) else None)"

definition dense_children :: "ustring \<Rightarrow> page \<Rightarrow> nat" where
  "dense_children query page =
     (let children = List.map_filter (\<lambda>e. common_prefix query (en_key e)) (pg_entries page) in
      length (filter (\<lambda>c. count_list children c \<ge> 256) (remdups children)))"

definition ascending :: "ustring list \<Rightarrow> bool" where
  "ascending ks = list_all (\<lambda>(a, b). a < b) (zip ks (tl ks))"

definition below_any :: "ustring list \<Rightarrow> s3_entry \<Rightarrow> bool" where
  "below_any prefixes e = list_ex (\<lambda>p. starts_with p (en_key e)) prefixes"

text \<open>The page \<open>flat\<close> with the entries of the next one, and its continuation.\<close>

definition extend_page :: "page \<Rightarrow> page \<Rightarrow> page" where
  "extend_page flat extra = flat\<lparr>pg_entries := pg_entries flat @ pg_entries extra, pg_next := pg_next extra\<rparr>"

text \<open>The entries sampled below a branch and the branches that may hold more; \<open>None\<close> is the panic of
  \<open>last().unwrap()\<close>.\<close>

definition split_batch :: "nat \<Rightarrow> ustring option \<Rightarrow> page \<Rightarrow> page \<Rightarrow> batch option" where
  "split_batch depth start_after flat branches =
     (case rev (pg_entries flat) of
        [] \<Rightarrow> None
      | e # _ \<Rightarrow>
          let last_key = en_key e in
          Some \<lparr>bt_entries =
              filter (after_start start_after) (pg_entries branches) @
              filter (below_any (pg_prefixes branches)) (pg_entries flat),
            bt_jobs =
              map (\<lambda>p. RecursiveJob p (depth + 1) (if starts_with p last_key then Some last_key else None))
                (filter (\<lambda>p. p \<ge> last_key \<or> starts_with p last_key) (pg_prefixes branches))\<rparr>)"

definition unsafe_split :: "ustring \<Rightarrow> page \<Rightarrow> page \<Rightarrow> bool" where
  "unsafe_split query flat branches \<longleftrightarrow>
     pg_next flat = None \<or> dense_children query flat < 2 \<or> \<not> ascending (map en_key (pg_entries flat)) \<or>
     list_ex (\<lambda>e. \<not> list_ex (\<lambda>d. en_key d = en_key e) (pg_entries branches) \<and>
                 \<not> below_any (pg_prefixes branches) e) (pg_entries flat)"

definition recursive_split ::
  "'e store \<Rightarrow> ustring \<Rightarrow> nat \<Rightarrow> ustring option \<Rightarrow> page \<Rightarrow> page \<Rightarrow> ('e listing_error + batch) option" where
  "recursive_split S query depth start_after flat branches =
     (if pg_next branches \<noteq> None \<or>
         \<not> (2 \<le> length (pg_prefixes branches) \<and> length (pg_prefixes branches) \<le> MAX_RECURSIVE_CHILDREN)
      then Some (Inr (scan_batch query False flat start_after))
      else
        case (if dense_children query flat < 2
              then map_sum id (extend_page flat) (read_after S query False (pg_next flat) start_after)
              else Inr flat) of
          Inl e \<Rightarrow> Some (Inl e)
        | Inr flat \<Rightarrow>
            if unsafe_split query flat branches then Some (Inr (scan_batch query False flat start_after))
            else map_option Inr (split_batch depth start_after flat branches))"

definition recursive ::
  "'e store \<Rightarrow> ustring \<Rightarrow> nat \<Rightarrow> bool \<Rightarrow> ustring option \<Rightarrow> ('e listing_error + batch) option" where
  "recursive S query depth split start_after =
     (case read_after S query False None start_after of
        Inl e \<Rightarrow> Some (Inl e)
      | Inr flat \<Rightarrow>
          if pg_next flat = None \<or> \<not> split \<or> \<not> sr_ordered S \<or> depth \<ge> MAX_RECURSIVE_PROBES \<or>
             length (pg_entries flat) < 1000 \<or> dense_children query flat = 0
          then Some (Inr (scan_batch query False flat start_after))
          else
            (case read_after S query False (pg_next flat) start_after of
               Inl e \<Rightarrow> Some (Inl e)
             | Inr continuation \<Rightarrow>
                 let flat = extend_page flat continuation in
                 if pg_next flat = None then Some (Inr (scan_batch query False flat start_after))
                 else
                   (case read_page S query True None of
                      Inl e \<Rightarrow> Some (Inl e)
                    | Inr branches \<Rightarrow> recursive_split S query depth start_after flat branches)))"

subsection \<open>One job\<close>

text \<open>Literal intermediate components need no request of their own.\<close>

function skip_literals :: "glob_token list list \<Rightarrow> ustring \<Rightarrow> nat \<Rightarrow> ustring \<times> nat" where
  "skip_literals components prefix component =
     (if component + 1 < length components \<and> component_literal (components ! component)
      then skip_literals components
        (prefix @ literal_prefix (components ! component) @ [slash]) (component + 1)
      else (prefix, component))"
  by pat_completeness auto
termination
  by (relation "measure (\<lambda>(components, _, component). length components - component)") auto

text \<open>The component a child prefix adds; the outer \<open>None\<close> is the panic of \<open>unwrap\<close>.\<close>

definition child_segment :: "ustring \<Rightarrow> ustring \<Rightarrow> ustring option" where
  "child_segment prefix child =
     (let rest = drop (length prefix) child in
      if starts_with prefix child \<and> rest \<noteq> [] \<and> last rest = slash then Some (butlast rest) else None)"

fun select_children :: "ustring \<Rightarrow> glob_token list \<Rightarrow> nat \<Rightarrow> ustring list \<Rightarrow> job list option" where
  "select_children prefix part component [] = Some []"
| "select_children prefix part component (child # children) =
     Option.bind (child_segment prefix child) (\<lambda>segment.
     Option.bind (select_children prefix part component children) (\<lambda>jobs.
     Some (if slash \<notin> set segment \<and> token_matches part segment
           then Discover child (component + 1) 0 # jobs else jobs)))"

definition discover ::
  "'e store \<Rightarrow> glob_token list list \<Rightarrow> ustring \<Rightarrow> nat \<Rightarrow> nat \<Rightarrow> bool \<Rightarrow> ('e listing_error + batch) option" where
  "discover S components prefix component depth split =
     (let (prefix, component) = skip_literals components prefix component in
      if component \<ge> length components then None
      else
        let part = components ! component;
            query = prefix @ literal_prefix part;
            flat = (\<lambda>_. Some (and_then (read_page S query False None) (\<lambda>page.
                      Inr (scan_batch query False page None))))
        in
        if component_recursive part then recursive S query depth split None
        else if \<not> split \<and> component + 1 < length components then flat ()
        else
          (case read_page S query True None of
             Inl e \<Rightarrow> Some (Inl e)
           | Inr page \<Rightarrow>
               if component + 1 = length components then Some (Inr (scan_batch query True page None))
               else if pg_next page \<noteq> None \<or> length (pg_prefixes page) > MAX_CHILDREN then flat ()
               else map_option (\<lambda>jobs. Inr \<lparr>bt_entries = pg_entries page, bt_jobs = jobs\<rparr>)
                 (select_children prefix part component (pg_prefixes page))))"

definition execute ::
  "'e store \<Rightarrow> glob_token list list option \<Rightarrow> job \<Rightarrow> bool \<Rightarrow> ('e listing_error + batch) option" where
  "execute S components job split =
     (case job of
        RecursiveJob prefix depth start_after \<Rightarrow> recursive S prefix depth split start_after
      | Scan prefix delimiter token start_after \<Rightarrow>
          Some (and_then (read_after S prefix delimiter token start_after) (\<lambda>page.
            Inr (scan_batch prefix delimiter page start_after)))
      | Discover prefix component depth \<Rightarrow>
          Option.bind components (\<lambda>components. discover S components prefix component depth split))"

subsection \<open>The loop\<close>

datatype 'e run =
    Running "job list" "(job \<times> bool) multiset" "s3_entry list"
  | Finished "s3_entry list"
  | Failed "'e listing_error" "s3_entry list"
  | Panicked

text \<open>The entries of a batch in order, up to the first the caller's \<open>emit\<close> refuses.\<close>

fun emit_all ::
  "(s3_entry \<Rightarrow> 'e option) \<Rightarrow> (ustring \<Rightarrow> bool) \<Rightarrow> s3_entry list \<Rightarrow> s3_entry list \<Rightarrow> s3_entry list \<times> 'e option"
where
  "emit_all refuse wanted [] out = (out, None)"
| "emit_all refuse wanted (e # es) out =
     (if wanted (en_key e)
      then (case refuse e of Some x \<Rightarrow> (out, Some x) | None \<Rightarrow> emit_all refuse wanted es (out @ [e]))
      else emit_all refuse wanted es out)"

definition settle_batch ::
  "(s3_entry \<Rightarrow> 'e option) \<Rightarrow> (ustring \<Rightarrow> bool) \<Rightarrow> job list \<Rightarrow> (job \<times> bool) multiset \<Rightarrow> s3_entry list \<Rightarrow>
   ('e listing_error + batch) option \<Rightarrow> 'e run" where
  "settle_batch refuse wanted pending active out result =
     (case result of
        None \<Rightarrow> Panicked
      | Some (Inl e) \<Rightarrow> Failed e out
      | Some (Inr b) \<Rightarrow>
          (case emit_all refuse wanted (bt_entries b) out of
             (out, Some x) \<Rightarrow> Failed (EmitFailed x) out
           | (out, None) \<Rightarrow> Running (pending @ bt_jobs b) active out))"

inductive listing_step ::
  "'e store \<Rightarrow> glob_token list list option \<Rightarrow> (ustring \<Rightarrow> bool) \<Rightarrow> (s3_entry \<Rightarrow> 'e option) \<Rightarrow> nat \<Rightarrow> 'e run \<Rightarrow> 'e run \<Rightarrow> bool"
  for S components wanted refuse concurrency where
  launch: "size active < concurrency \<Longrightarrow>
    listing_step S components wanted refuse concurrency (Running (job # pending) active out)
      (Running pending
        (add_mset (job, concurrency > 1 \<and> length pending + size active < SPLIT_QUEUE_LIMIT) active) out)"
| settle: "size (add_mset (job, split) active) \<ge> concurrency \<or> pending = [] \<Longrightarrow>
    listing_step S components wanted refuse concurrency (Running pending (add_mset (job, split) active) out)
      (settle_batch refuse wanted pending active out (execute S components job split))"
| finish: "listing_step S components wanted refuse concurrency (Running [] {#} out) (Finished out)"

definition enumerate_jobs :: "nat \<Rightarrow> job \<Rightarrow> 'e run" where
  "enumerate_jobs concurrency first =
     (if 1 \<le> concurrency \<and> concurrency \<le> 256 then Running [first] {#} [] else Failed BadConcurrency [])"

text \<open>Without a pattern every entry is emitted.\<close>

definition enumerate_prefix :: "ustring \<Rightarrow> nat \<Rightarrow> 'e run" where
  "enumerate_prefix prefix concurrency = enumerate_jobs concurrency (RecursiveJob prefix 0 None)"

definition literal_key :: "glob_token list list \<Rightarrow> ustring" where
  "literal_key components = join_with slash (map literal_prefix components)"

definition enumerate_pattern ::
  "'e store \<Rightarrow> glob_token list list \<Rightarrow> (s3_entry \<Rightarrow> 'e option) \<Rightarrow> nat \<Rightarrow> 'e run" where
  "enumerate_pattern S components refuse concurrency =
     (if \<not> (1 \<le> concurrency \<and> concurrency \<le> 256) then Failed BadConcurrency []
      else if sr_ordered S \<and> list_all component_literal components then
        (case read_page S (literal_key components) False None of
           Inl e \<Rightarrow> Failed e []
         | Inr page \<Rightarrow>
             (case emit_all refuse (\<lambda>k. k = literal_key components) (pg_entries page) [] of
                (out, Some x) \<Rightarrow> Failed (EmitFailed x) out
              | (out, None) \<Rightarrow> Finished out))
      else enumerate_jobs concurrency (Discover [] 0 0))"

end
