(* ===== verification/S3_Listing_Props.thy ===== *)
theory S3_Listing_Props
  imports S3_Listing
begin

section \<open>A listing is exact\<close>

text \<open>
  What the listing of \<^theory_text>\<open>S3_Listing\<close> relies on of the service, and what it gives: every run ends,
  none panics, and a run that succeeds has emitted exactly the objects the pattern matches, each
  once, whatever the order in which the requests are answered. Each job owes a set of entries; a
  job that is executed hands what it owes to its batch and to the jobs it leaves.
\<close>

subsection \<open>The service\<close>

text \<open>The answers of the service when it does not fail, and the pages of one listing from a token on.\<close>

type_synonym answers = "ustring \<Rightarrow> bool \<Rightarrow> ustring option \<Rightarrow> ustring option \<Rightarrow> page"

inductive pages :: "answers \<Rightarrow> ustring \<Rightarrow> bool \<Rightarrow> ustring option \<Rightarrow> ustring option \<Rightarrow> page list \<Rightarrow> bool"
  for A prefix delimiter start_after where
  last_page: "pg_next (A prefix delimiter token (if token = None then start_after else None)) = None \<Longrightarrow>
    pages A prefix delimiter start_after token
      [A prefix delimiter token (if token = None then start_after else None)]"
| next_page: "pg_next (A prefix delimiter token (if token = None then start_after else None)) = Some t \<Longrightarrow>
    pages A prefix delimiter start_after (Some t) pgs \<Longrightarrow>
    pages A prefix delimiter start_after token
      (A prefix delimiter token (if token = None then start_after else None) # pgs)"

inductive_cases pages_cases: "pages A prefix delimiter start_after token pgs"

definition entries_of :: "page list \<Rightarrow> s3_entry list" where
  "entries_of pgs = concat (map pg_entries pgs)"

definition prefixes_of :: "page list \<Rightarrow> ustring list" where
  "prefixes_of pgs = concat (map pg_prefixes pgs)"

lemma entries_of_simps [simp]:
  "entries_of [] = []" "entries_of (pg # pgs) = pg_entries pg @ entries_of pgs"
  "entries_of (as @ bs) = entries_of as @ entries_of bs"
  by (simp_all add: entries_of_def)

definition direct :: "ustring \<Rightarrow> s3_entry \<Rightarrow> bool" where
  "direct prefix e \<longleftrightarrow> slash \<notin> set (drop (length prefix) (en_key e))"

definition listed :: "s3_entry list \<Rightarrow> ustring \<Rightarrow> bool \<Rightarrow> s3_entry set" where
  "listed objs prefix delimiter =
     {e \<in> set objs. starts_with prefix (en_key e) \<and> (delimiter \<longrightarrow> direct prefix e)}"

definition children :: "s3_entry list \<Rightarrow> ustring \<Rightarrow> ustring set" where
  "children objs prefix = {c. \<exists>e\<in>set objs. common_prefix prefix (en_key e) = Some c}"

text \<open>
  A listing gives, over all its pages, each object below the prefix once, or at least those after the
  starting key, which a service may ignore; with a delimiter, the objects with no further slash
  and each group of the others once. An ordered service lists in the order of the keys, and never
  gives an empty page before the last.
\<close>

definition listing_of ::
  "answers \<Rightarrow> bool \<Rightarrow> s3_entry list \<Rightarrow> ustring \<Rightarrow> bool \<Rightarrow> ustring option \<Rightarrow> page list \<Rightarrow> bool" where
  "listing_of A ordered objs prefix delimiter start_after pgs \<longleftrightarrow>
     pages A prefix delimiter start_after None pgs \<and>
     distinct (entries_of pgs) \<and> set (entries_of pgs) \<subseteq> listed objs prefix delimiter \<and>
     {e \<in> listed objs prefix delimiter. after_start start_after e} \<subseteq> set (entries_of pgs) \<and>
     distinct (prefixes_of pgs) \<and> set (prefixes_of pgs) = (if delimiter then children objs prefix else {}) \<and>
     (ordered \<longrightarrow> sorted (map en_key (entries_of pgs)) \<and>
       (\<forall>pg\<in>set pgs. pg_next pg \<noteq> None \<longrightarrow> pg_entries pg \<noteq> [] \<or> pg_prefixes pg \<noteq> []))"

definition serves :: "answers \<Rightarrow> bool \<Rightarrow> s3_entry list \<Rightarrow> bool" where
  "serves A ordered objs \<longleftrightarrow>
     distinct (map en_key objs) \<and>
     (\<forall>prefix delimiter start_after. (delimiter \<longrightarrow> start_after = None) \<longrightarrow>
       (\<exists>pgs. listing_of A ordered objs prefix delimiter start_after pgs))"

text \<open>A request fails, or is answered as above.\<close>

definition service :: "'e store \<Rightarrow> answers \<Rightarrow> s3_entry list \<Rightarrow> bool" where
  "service S A objs \<longleftrightarrow> serves A (sr_ordered S) objs \<and>
     (\<forall>prefix delimiter token start_after page.
        sr_page S prefix delimiter token start_after = Inr page \<longrightarrow> page = A prefix delimiter token start_after)"

lemma pages_unique: "pages A p d sa t as \<Longrightarrow> pages A p d sa t bs \<Longrightarrow> as = bs"
proof (induction arbitrary: bs rule: pages.induct)
  case (last_page token)
  from last_page.prems last_page.hyps show ?case by cases simp_all
next
  case (next_page token t pgs)
  let ?page = "A p d token (if token = None then sa else None)"
  from next_page.prems obtain qs where "bs = ?page # qs" "pages A p d sa (Some t) qs"
  proof cases
    case (next_page t' qs)
    with \<open>pg_next ?page = Some t\<close> that show ?thesis by simp
  qed (use next_page.hyps in simp)
  with next_page.IH show ?case by simp
qed

subsection \<open>What a job owes\<close>

fun owed :: "answers \<Rightarrow> s3_entry list \<Rightarrow> job \<Rightarrow> s3_entry set" where
  "owed A objs (Discover prefix component depth) = listed objs prefix False"
| "owed A objs (RecursiveJob prefix depth start_after) = {e \<in> listed objs prefix False. after_start start_after e}"
| "owed A objs (Scan prefix delimiter token start_after) =
     {e. after_start start_after e \<and>
       (\<exists>pgs. pages A prefix delimiter start_after token pgs \<and> e \<in> set (entries_of pgs))}"

definition owed_by :: "answers \<Rightarrow> s3_entry list \<Rightarrow> job list \<Rightarrow> s3_entry \<Rightarrow> nat" where
  "owed_by A objs jobs e = (\<Sum>j\<leftarrow>jobs. of_bool (e \<in> owed A objs j))"

lemma owed_by_simps [simp]:
  "owed_by A objs [] e = 0" "owed_by A objs (j # js) e = of_bool (e \<in> owed A objs j) + owed_by A objs js e"
  "owed_by A objs (js @ ks) e = owed_by A objs js e + owed_by A objs ks e"
  by (simp_all add: owed_by_def)

definition hands_over :: "answers \<Rightarrow> s3_entry list \<Rightarrow> (ustring \<Rightarrow> bool) \<Rightarrow> s3_entry set \<Rightarrow> batch \<Rightarrow> bool" where
  "hands_over A objs wanted E b \<longleftrightarrow>
     (\<forall>e. wanted (en_key e) \<longrightarrow>
       count_list (bt_entries b) e + owed_by A objs (bt_jobs b) e = of_bool (e \<in> E))"

lemma count_distinct: "distinct xs \<Longrightarrow> count_list xs x = of_bool (x \<in> set xs)"
  by (induction xs) auto


subsection \<open>Reading pages\<close>

text \<open>The pages a continuation still leads to, and those read before it.\<close>

definition continues :: "answers \<Rightarrow> ustring \<Rightarrow> bool \<Rightarrow> ustring option \<Rightarrow> ustring option \<Rightarrow> page list \<Rightarrow> bool" where
  "continues A prefix delimiter start_after token rest \<longleftrightarrow>
     (case token of None \<Rightarrow> rest = [] | Some t \<Rightarrow> pages A prefix delimiter start_after (Some t) rest)"

definition reading :: "answers \<Rightarrow> ustring \<Rightarrow> bool \<Rightarrow> ustring option \<Rightarrow> page list \<Rightarrow> ustring option \<Rightarrow> page list \<Rightarrow> bool" where
  "reading A prefix delimiter start_after before token rest \<longleftrightarrow>
     pages A prefix delimiter start_after None (before @ rest) \<and> continues A prefix delimiter start_after token rest"

lemma read_after_answer:
  assumes "service S A objs" "read_after S p d t sa = Inr page"
  shows "page = (A p d t (if t = None then sa else None))\<lparr>pg_entries :=
      filter (after_start sa) (pg_entries (A p d t (if t = None then sa else None)))\<rparr>"
    "list_all (valid_child p d) (pg_prefixes page)"
    "list_all (\<lambda>e. starts_with p (en_key e)) (pg_entries page)"
  using assms
  by (cases "sr_page S p d t (if t = None then sa else None)",
      auto simp: read_after_def service_def list_all_iff split: if_splits)+

lemma read_page_at:
  assumes "service S A objs" "read_after S p d t sa = Inr page" "pages A p d sa t pgs"
  obtains pg rest where "pgs = pg # rest" "continues A p d sa (pg_next page) rest"
    "pg_entries page = filter (after_start sa) (pg_entries pg)" "pg_prefixes page = pg_prefixes pg"
    "pg_next page = pg_next pg"
proof -
  let ?pg = "A p d t (if t = None then sa else None)"
  note page = read_after_answer(1) [OF assms(1,2)]
  from assms(3) show ?thesis
  proof (rule pages_cases)
    assume "pgs = [?pg]" "pg_next ?pg = None"
    then show ?thesis by (intro that [of ?pg "[]"]) (simp_all add: page continues_def)
  next
    fix u rest
    assume "pgs = ?pg # rest" "pg_next ?pg = Some u" "pages A p d sa (Some u) rest"
    then show ?thesis by (intro that [of ?pg rest]) (simp_all add: page continues_def)
  qed
qed

text \<open>The rest of a listing goes to a scan.\<close>

lemma count_filter: "distinct xs \<Longrightarrow> count_list (filter P xs) x = of_bool (x \<in> set xs \<and> P x)"
  by (simp add: count_distinct)

lemma owed_scan:
  assumes "pages A p d sa t rest"
  shows "e \<in> owed A objs (Scan p d t sa) \<longleftrightarrow> after_start sa e \<and> e \<in> set (entries_of rest)"
proof -
  have "(\<exists>pgs. pages A p d sa t pgs \<and> e \<in> set (entries_of pgs)) \<longleftrightarrow> e \<in> set (entries_of rest)"
    by (metis assms pages_unique)
  then show ?thesis by simp
qed

lemma scan_hands_over:
  assumes "continues A p d sa (pg_next flat) rest" "distinct (entries_of (before @ rest))"
    "pg_entries flat = filter (after_start sa) (entries_of before)"
  shows "hands_over A objs wanted {e \<in> set (entries_of (before @ rest)). after_start sa e} (scan_batch p d flat sa)"
proof -
  have "owed_by A objs (bt_jobs (scan_batch p d flat sa)) e = of_bool (after_start sa e \<and> e \<in> set (entries_of rest))"
    for e
  proof (cases "pg_next flat")
    case (Some t)
    then have "pages A p d sa (Some t) rest" using assms(1) by (simp add: continues_def)
    from owed_scan [OF this] Some show ?thesis by (simp add: scan_batch_def del: owed.simps)
  qed (use assms(1) in \<open>simp add: scan_batch_def continues_def\<close>)
  moreover have "count_list (bt_entries (scan_batch p d flat sa)) e =
      of_bool (e \<in> set (entries_of before) \<and> after_start sa e)" for e
    using assms(2,3) by (simp add: scan_batch_def count_filter)
  ultimately show ?thesis using assms(2) by (auto simp: hands_over_def)
qed


subsection \<open>Prefixes and the order of keys\<close>

lemma starts_with_iff: "starts_with p s \<longleftrightarrow> (\<exists>rest. s = p @ rest)"
  unfolding starts_with_def by (metis append_eq_conv_conj append_take_drop_id)

lemma starts_with_le: "starts_with p s \<Longrightarrow> p \<le> (s :: ustring)"
proof -
  have "p \<le> p @ rest" for rest :: ustring by (induction p) simp_all
  then show "starts_with p s \<Longrightarrow> p \<le> s" by (auto simp: starts_with_iff)
qed

text \<open>Everything below a prefix sorts on one side of a key that is not below it.\<close>

lemma prefix_below_key:
  assumes "p < (k :: ustring)" "\<not> starts_with p k"
  shows "p @ rest < k"
  using assms
proof (induction p arbitrary: k)
  case (Cons x p)
  then show ?case by (cases k) (auto simp: starts_with_iff)
qed (simp add: starts_with_iff)

lemma takeWhile_segment: "slash \<notin> set segment \<Longrightarrow> takeWhile (\<lambda>c. c \<noteq> slash) (segment @ slash # rest) = segment"
  by (induction segment) auto

lemma common_prefix_iff:
  "common_prefix query key = Some c \<longleftrightarrow>
     (\<exists>segment rest. slash \<notin> set segment \<and> key = query @ segment @ slash # rest \<and> c = query @ segment @ [slash])"
proof
  assume "common_prefix query key = Some c"
  then obtain suffix where k: "key = query @ suffix" "slash \<in> set suffix"
      "c = query @ takeWhile (\<lambda>x. x \<noteq> slash) suffix @ [slash]"
    by (auto simp: common_prefix_def Let_def starts_with_iff split: if_splits)
  from split_list_first [OF k(2)] obtain segment rest where
    "suffix = segment @ slash # rest" "slash \<notin> set segment" by blast
  with k show "\<exists>segment rest. slash \<notin> set segment \<and> key = query @ segment @ slash # rest \<and> c = query @ segment @ [slash]"
    by (auto simp: takeWhile_segment)
next
  assume "\<exists>segment rest. slash \<notin> set segment \<and> key = query @ segment @ slash # rest \<and> c = query @ segment @ [slash]"
  then show "common_prefix query key = Some c"
    by (auto simp: common_prefix_def starts_with_iff takeWhile_segment)
qed

lemma children_iff:
  assumes "c \<in> children objs query"
  shows "starts_with c key \<longleftrightarrow> common_prefix query key = Some c"
    "\<exists>segment. slash \<notin> set segment \<and> c = query @ segment @ [slash]"
proof -
  obtain segment where c: "slash \<notin> set segment" "c = query @ segment @ [slash]"
    using assms by (auto simp: children_def common_prefix_iff)
  then show "\<exists>segment. slash \<notin> set segment \<and> c = query @ segment @ [slash]" by blast
  show "starts_with c key \<longleftrightarrow> common_prefix query key = Some c"
    unfolding common_prefix_iff starts_with_iff using c by auto
qed

lemma child_of_entry:
  assumes "e \<in> listed objs query False"
  shows "direct query e \<longleftrightarrow> common_prefix query (en_key e) = None"
    "common_prefix query (en_key e) = Some c \<Longrightarrow> c \<in> children objs query"
  using assms by (auto simp: listed_def direct_def common_prefix_def children_def Let_def split: if_splits)

lemma count_matching:
  "distinct xs \<Longrightarrow> (\<Sum>x\<leftarrow>xs. of_bool (P x)) = card {x \<in> set xs. P x}"
proof (induction xs)
  case (Cons x xs)
  have "{y \<in> set (x # xs). P y} = (if P x then insert x {y \<in> set xs. P y} else {y \<in> set xs. P y})" by auto
  with Cons show ?case by simp
qed simp


subsection \<open>A split loses nothing\<close>

text \<open>A branch is resumed for exactly its keys after the last one sampled.\<close>

lemma split_resumes:
  assumes "starts_with c (en_key e)"
  shows "(c \<ge> k \<or> starts_with c k) \<and> after_start (if starts_with c k then Some k else None) e \<longleftrightarrow> en_key e > k"
proof (cases "starts_with c k")
  case False
  then have "c \<noteq> k" by (auto simp: starts_with_iff)
  moreover have "c \<le> en_key e" using assms by (rule starts_with_le)
  moreover have "\<not> c < k" if "en_key e > k"
  proof
    assume "c < k"
    obtain rest where "en_key e = c @ rest" using assms by (auto simp: starts_with_iff)
    with prefix_below_key [OF \<open>c < k\<close> False, of rest] that show False by simp
  qed
  ultimately show ?thesis using False by (auto simp: after_start_def)
qed (simp add: after_start_def)

lemma sampled_iff:
  assumes "distinct (map en_key objs)" "sorted (map en_key (entries_of (before @ rest)))"
    "set (entries_of (before @ rest)) \<subseteq> set objs" "filter P (entries_of before) = us @ [l]"
    "e \<in> set (entries_of (before @ rest))" "P e"
  shows "e \<in> set (us @ [l]) \<longleftrightarrow> en_key e \<le> en_key l"
proof
  assume "e \<in> set (us @ [l])"
  moreover have "sorted (map en_key (us @ [l]))"
    using assms(2) sorted_filter [of en_key "entries_of before" P] by (simp add: sorted_append flip: assms(4))
  ultimately show "en_key e \<le> en_key l" by (auto simp: sorted_append)
next
  assume le: "en_key e \<le> en_key l"
  have l: "l \<in> set (entries_of before)" using assms(4) by (metis filter_is_subset in_set_conv_decomp subsetD)
  show "e \<in> set (us @ [l])"
  proof (rule ccontr)
    assume no: "e \<notin> set (us @ [l])"
    then have "e \<notin> set (entries_of before)" unfolding assms(4) [symmetric] using assms(6) by simp
    then have "e \<in> set (entries_of rest)" using assms(5) by simp
    then have "en_key l \<le> en_key e" using assms(2) l by (auto simp: sorted_append)
    with le have "en_key e = en_key l" by simp
    moreover have "e \<in> set objs" "l \<in> set objs" using assms(3,5) l by auto
    ultimately have "e = l" using assms(1) by (auto simp: distinct_map dest: inj_onD)
    with no show False by simp
  qed
qed

lemma split_jobs_owed:
  assumes "distinct prefixes" "set prefixes = children objs q"
  shows "owed_by A objs (map (\<lambda>p. RecursiveJob p n (if starts_with p k then Some k else None))
      (filter (\<lambda>p. p \<ge> k \<or> starts_with p k) prefixes)) e =
    of_bool (e \<in> set objs \<and> common_prefix q (en_key e) \<noteq> None \<and> en_key e > k)" (is "?l = ?r")
proof -
  let ?owes = "\<lambda>p. e \<in> set objs \<and> starts_with p (en_key e) \<and>
    after_start (if starts_with p k then Some k else None) e"
  have "?l = card {p \<in> set (filter (\<lambda>p. p \<ge> k \<or> starts_with p k) prefixes). ?owes p}"
    unfolding owed_by_def
    using count_matching [of "filter (\<lambda>p. p \<ge> k \<or> starts_with p k) prefixes" ?owes] assms(1)
    by (simp add: comp_def listed_def)
  also have "{p \<in> set (filter (\<lambda>p. p \<ge> k \<or> starts_with p k) prefixes). ?owes p} =
      {p. common_prefix q (en_key e) = Some p \<and> e \<in> set objs \<and> en_key e > k}"
    (is "?a = ?b")
  proof (rule set_eqI)
    fix p
    have "p \<in> set prefixes \<and> e \<in> set objs \<and> starts_with p (en_key e) \<longleftrightarrow>
        e \<in> set objs \<and> common_prefix q (en_key e) = Some p"
      using children_iff(1) [of p objs q "en_key e"] unfolding assms(2) children_def by blast
    then show "p \<in> ?a \<longleftrightarrow> p \<in> ?b" using split_resumes [of p e k] by auto
  qed
  also have "card \<dots> = ?r" by (cases "common_prefix q (en_key e)") auto
  finally show ?thesis .
qed


lemma listing_owed:
  assumes "listing_of A ordered objs p d sa pgs"
  shows "{e \<in> set (entries_of pgs). after_start sa e} = {e \<in> listed objs p d. after_start sa e}"
  using assms by (auto simp: listing_of_def)

lemma split_hands_over:
  assumes objs: "distinct (map en_key objs)" and all: "listing_of A True objs q False sa (before @ rest)"
    and flat: "pg_entries flat = filter (after_start sa) (entries_of before)"
    and br: "listing_of A ordered objs q True None [pg]" "pg_entries branches = pg_entries pg"
      "pg_prefixes branches = pg_prefixes pg"
    and b: "split_batch depth sa flat branches = Some b"
  shows "hands_over A objs wanted {e \<in> listed objs q False. after_start sa e} b"
  unfolding hands_over_def
proof (intro allI impI)
  fix e :: s3_entry
  from b obtain us l where ul: "pg_entries flat = us @ [l]"
    by (cases "pg_entries flat" rule: rev_cases) (auto simp: split_batch_def)
  let ?child = "common_prefix q (en_key e)"
  have prefixes: "distinct (pg_prefixes pg)" "set (pg_prefixes pg) = children objs q"
    and direct: "distinct (pg_entries pg)" "set (pg_entries pg) = listed objs q True"
    using br(1) by (auto simp: listing_of_def prefixes_of_def after_start_def)
  have sorted: "sorted (map en_key (entries_of (before @ rest)))" "distinct (entries_of before)"
    and sub: "set (entries_of (before @ rest)) \<subseteq> listed objs q False"
    using all by (simp_all add: listing_of_def)
  have sampled: "us @ [l] = filter (after_start sa) (entries_of before)" using flat ul by simp
  have inside: "x \<in> listed objs q False \<and> after_start sa x" if "x \<in> set (us @ [l])" for x
    using that sub unfolding sampled by auto
  then have l: "after_start sa l" by simp
  have b': "b = \<lparr>bt_entries = filter (after_start sa) (pg_entries pg) @ filter (below_any (pg_prefixes pg)) (us @ [l]),
      bt_jobs = map (\<lambda>p. RecursiveJob p (depth + 1) (if starts_with p (en_key l) then Some (en_key l) else None))
        (filter (\<lambda>p. p \<ge> en_key l \<or> starts_with p (en_key l)) (pg_prefixes pg))\<rparr>"
    using b by (simp add: split_batch_def ul br Let_def)
  have jobs: "owed_by A objs (bt_jobs b) e = of_bool (e \<in> set objs \<and> ?child \<noteq> None \<and> en_key e > en_key l)"
    by (simp only: b' batch.select_convs split_jobs_owed [OF prefixes])
  have "distinct (us @ [l])" unfolding sampled using sorted(2) by simp
  moreover have "below_any (pg_prefixes pg) e \<longleftrightarrow> ?child \<noteq> None" if "e \<in> set objs"
    using children_iff(1) [of _ objs q "en_key e"] that prefixes(2)
    by (fastforce simp: below_any_def list_ex_iff children_def)
  moreover have "e \<in> set (us @ [l]) \<Longrightarrow> e \<in> set objs" using inside by (auto simp: listed_def)
  ultimately have entries: "count_list (bt_entries b) e = of_bool (e \<in> listed objs q True \<and> after_start sa e) +
      of_bool (e \<in> set (us @ [l]) \<and> ?child \<noteq> None)"
    using direct unfolding b' batch.select_convs count_list_append by (auto simp: count_filter)
  show "count_list (bt_entries b) e + owed_by A objs (bt_jobs b) e =
      of_bool (e \<in> {e \<in> listed objs q False. after_start sa e})"
  proof (cases "e \<in> listed objs q False \<and> after_start sa e")
    case True
    then have "e \<in> set (entries_of (before @ rest))" using listing_owed [OF all] by blast
    then have "e \<in> set (us @ [l]) \<longleftrightarrow> en_key e \<le> en_key l"
      using sampled_iff [OF objs sorted(1) _ sampled [symmetric]] True sub by (auto simp: listed_def)
    with True child_of_entry(1) [of e objs q] show ?thesis
      unfolding entries jobs by (auto simp: listed_def)
  next
    case False
    have "after_start sa e" if "en_key e > en_key l" using l that by (auto simp: after_start_def split: option.splits)
    moreover have "e \<in> listed objs q False" if "e \<in> set objs" "?child \<noteq> None"
      using that by (auto simp: listed_def common_prefix_def Let_def split: if_splits)
    ultimately show ?thesis using False inside [of e] unfolding entries jobs by (auto simp: listed_def)
  qed
qed


subsection \<open>Jobs get simpler\<close>

definition pages_left :: "answers \<Rightarrow> ustring \<Rightarrow> bool \<Rightarrow> ustring option \<Rightarrow> ustring option \<Rightarrow> nat" where
  "pages_left A p d sa t = (THE n. \<exists>pgs. pages A p d sa t pgs \<and> n = length pgs)"

lemma pages_left_eq: "pages A p d sa t rest \<Longrightarrow> pages_left A p d sa t = length rest"
  unfolding pages_left_def by (rule the_equality) (auto dest: pages_unique)

fun rank :: "answers \<Rightarrow> nat \<Rightarrow> job \<Rightarrow> nat \<times> nat" where
  "rank A n (Discover p c depth) = (2, n - c)"
| "rank A n (RecursiveJob p depth sa) = (1, MAX_RECURSIVE_PROBES - depth)"
| "rank A n (Scan p d t sa) = (0, pages_left A p d sa t)"

definition rank_less :: "((nat \<times> nat) \<times> (nat \<times> nat)) set" where
  "rank_less = less_than <*lex*> less_than"

lemma wf_rank_less: "wf rank_less" and trans_rank_less: "trans rank_less"
  by (simp_all add: rank_less_def wf_lex_prod trans_lex_prod)

fun job_ok :: "answers \<Rightarrow> glob_token list list option \<Rightarrow> (ustring \<Rightarrow> bool) \<Rightarrow> job \<Rightarrow> bool" where
  "job_ok A components wanted (Discover p c depth) \<longleftrightarrow>
     (\<exists>cs. components = Some cs \<and> c < length cs \<and>
       (\<forall>key. wanted key \<longrightarrow> starts_with p key \<longrightarrow> glob_path (drop c cs) (drop (length p) key)))"
| "job_ok A components wanted (RecursiveJob p depth sa) \<longleftrightarrow> True"
| "job_ok A components wanted (Scan p d t sa) \<longleftrightarrow> (\<exists>rest. pages A p d sa t rest \<and> distinct (entries_of rest))"

text \<open>A batch takes over what is owed, and the jobs it leaves rank lower.\<close>

definition batch_ok ::
  "answers \<Rightarrow> s3_entry list \<Rightarrow> glob_token list list option \<Rightarrow> (ustring \<Rightarrow> bool) \<Rightarrow> nat \<Rightarrow> s3_entry set \<Rightarrow> nat \<times> nat \<Rightarrow>
   batch \<Rightarrow> bool" where
  "batch_ok A objs components wanted n E r b \<longleftrightarrow>
     hands_over A objs wanted E b \<and>
     (\<forall>j\<in>set (bt_jobs b). job_ok A components wanted j \<and> (rank A n j, r) \<in> rank_less)"

text \<open>Some pages of a listing have been read into \<open>flat\<close>.\<close>

definition sampled :: "answers \<Rightarrow> bool \<Rightarrow> s3_entry list \<Rightarrow> ustring \<Rightarrow> bool \<Rightarrow> ustring option \<Rightarrow> page \<Rightarrow>
    page list \<Rightarrow> page list \<Rightarrow> bool" where
  "sampled A ordered objs q d sa flat before rest \<longleftrightarrow>
     listing_of A ordered objs q d sa (before @ rest) \<and> reading A q d sa before (pg_next flat) rest \<and>
     pg_entries flat = filter (after_start sa) (entries_of before)"

lemma service_listing:
  assumes "service S A objs" "d \<longrightarrow> sa = None"
  obtains pgs where "listing_of A (sr_ordered S) objs q d sa pgs"
proof -
  have "\<exists>pgs. listing_of A (sr_ordered S) objs q d sa pgs" using assms by (simp add: service_def serves_def)
  then show thesis using that by blast
qed

lemma sampled_first:
  assumes "service S A objs" "d \<longrightarrow> sa = None" "read_after S q d None sa = Inr page"
  obtains pg rest where "sampled A (sr_ordered S) objs q d sa page [pg] rest" "pg_prefixes page = pg_prefixes pg"
proof -
  obtain pgs where pgs: "listing_of A (sr_ordered S) objs q d sa pgs" using service_listing [OF assms(1,2)] .
  then have all: "pages A q d sa None pgs" by (simp add: listing_of_def)
  from read_page_at [OF assms(1,3) this] obtain pg rest where "pgs = pg # rest" "continues A q d sa (pg_next page) rest"
    "pg_entries page = filter (after_start sa) (pg_entries pg)" "pg_prefixes page = pg_prefixes pg" .
  with pgs all show ?thesis by (intro that [of pg rest]) (simp_all add: sampled_def reading_def)
qed

lemma sampled_extend:
  assumes "service S A objs" "sampled A ordered objs q d sa flat before rest" "pg_next flat = Some t"
    "read_after S q d (Some t) sa = Inr page"
  obtains before' rest' where "sampled A ordered objs q d sa (extend_page flat page) before' rest'"
proof -
  have "pages A q d sa (Some t) rest" using assms(2,3) by (simp add: sampled_def reading_def continues_def)
  from read_page_at [OF assms(1,4) this] obtain pg rest' where "rest = pg # rest'"
    "continues A q d sa (pg_next page) rest'" "pg_entries page = filter (after_start sa) (pg_entries pg)" .
  with assms(2) show ?thesis
    by (intro that [of "before @ [pg]" rest']) (simp_all add: sampled_def reading_def extend_page_def)
qed

lemma scan_jobs_ok:
  assumes "continues A q d sa (pg_next flat) rest" "distinct (entries_of rest)" "((0, length rest), r) \<in> rank_less"
    "j \<in> set (bt_jobs (scan_batch q d flat sa))"
  shows "job_ok A components wanted j \<and> (rank A n j, r) \<in> rank_less"
proof -
  from assms(4) obtain t where t: "pg_next flat = Some t" "j = Scan q d (Some t) sa"
    by (cases "pg_next flat") (auto simp: scan_batch_def)
  with assms(1) have "pages A q d sa (Some t) rest" by (simp add: continues_def)
  with t assms(2,3) show ?thesis by (auto simp: pages_left_eq)
qed

lemma sampled_scan:
  assumes "sampled A ordered objs q d sa flat before rest" "((0, length rest), r) \<in> rank_less"
  shows "batch_ok A objs components wanted n {e \<in> listed objs q d. after_start sa e} r (scan_batch q d flat sa)"
proof -
  have all: "listing_of A ordered objs q d sa (before @ rest)" and rest: "continues A q d sa (pg_next flat) rest"
    and flat: "pg_entries flat = filter (after_start sa) (entries_of before)"
    using assms(1) by (simp_all add: sampled_def reading_def)
  then have "distinct (entries_of (before @ rest))" by (simp add: listing_of_def)
  from scan_hands_over [OF rest this flat] have
    "hands_over A objs wanted {e \<in> listed objs q d. after_start sa e} (scan_batch q d flat sa)"
    unfolding listing_owed [OF all] .
  moreover have "distinct (entries_of rest)" using \<open>distinct (entries_of (before @ rest))\<close> by simp
  ultimately show ?thesis using scan_jobs_ok [OF rest _ assms(2)] by (simp add: batch_ok_def)
qed


subsection \<open>Executing a job\<close>

definition result_ok ::
  "answers \<Rightarrow> s3_entry list \<Rightarrow> glob_token list list option \<Rightarrow> (ustring \<Rightarrow> bool) \<Rightarrow> nat \<Rightarrow> s3_entry set \<Rightarrow> nat \<times> nat \<Rightarrow>
   ('e listing_error + batch) option \<Rightarrow> bool" where
  "result_ok A objs components wanted n E r result \<longleftrightarrow>
     (case result of None \<Rightarrow> False | Some (Inl e) \<Rightarrow> True | Some (Inr b) \<Rightarrow> batch_ok A objs components wanted n E r b)"

lemma result_ok_simps [simp]:
  "\<not> result_ok A objs components wanted n E r None" "result_ok A objs components wanted n E r (Some (Inl e))"
  "result_ok A objs components wanted n E r (Some (Inr b)) \<longleftrightarrow> batch_ok A objs components wanted n E r b"
  by (simp_all add: result_ok_def)

lemma rank_less_simps [simp]: "((a, b), (c, d)) \<in> rank_less \<longleftrightarrow> a < c \<or> a = c \<and> b < d"
  by (simp add: rank_less_def)

lemma split_ok:
  assumes "service S A objs" "sampled A True objs q False sa flat before rest" "pg_entries flat \<noteq> []"
    "sampled A (sr_ordered S) objs q True None branches [pg] []" "pg_prefixes branches = pg_prefixes pg"
    "depth < MAX_RECURSIVE_PROBES" "(1, MAX_RECURSIVE_PROBES - depth) = r \<or> fst r = 2"
  shows "result_ok A objs components wanted n {e \<in> listed objs q False. after_start sa e} r
    (map_option Inr (split_batch depth sa flat branches))"
proof -
  have objs: "distinct (map en_key objs)" using assms(1) by (simp add: service_def serves_def)
  obtain b where b: "split_batch depth sa flat branches = Some b"
    using assms(3) by (cases "pg_entries flat" rule: rev_cases) (auto simp: split_batch_def Let_def)
  have "pg_entries branches = pg_entries pg" using assms(4) by (simp add: sampled_def after_start_def)
  then have "hands_over A objs wanted {e \<in> listed objs q False. after_start sa e} b"
    using assms(2,4,5) b
    by (intro split_hands_over [OF objs, of _ _ _ before rest flat "sr_ordered S" pg branches depth])
      (simp_all add: sampled_def)
  moreover have "job_ok A components wanted j \<and> (rank A n j, r) \<in> rank_less" if "j \<in> set (bt_jobs b)" for j
    using that b assms(6,7) by (cases r) (auto simp: split_batch_def Let_def split: list.splits)
  ultimately show ?thesis using b by (simp add: batch_ok_def)
qed

lemma recursive_split_ok:
  assumes "service S A objs" "sr_ordered S" "sampled A True objs q False sa flat before rest" "pg_entries flat \<noteq> []"
    "pg_next flat \<noteq> None" "read_page S q True None = Inr branches"
    "depth < MAX_RECURSIVE_PROBES" "(1, MAX_RECURSIVE_PROBES - depth) = r \<or> fst r = 2"
  shows "result_ok A objs components wanted n {e \<in> listed objs q False. after_start sa e} r
    (recursive_split S q depth sa flat branches)"
proof -
  obtain pg restb where br: "sampled A (sr_ordered S) objs q True None branches [pg] restb"
      "pg_prefixes branches = pg_prefixes pg"
    using sampled_first [OF assms(1) _ assms(6) [unfolded read_page_def]] by auto
  have low: "((0, m), r) \<in> rank_less" for m using assms(8) by (cases r) auto
  have scan: "batch_ok A objs components wanted n {e \<in> listed objs q False. after_start sa e} r
      (scan_batch q False flat' sa)" if "sampled A True objs q False sa flat' before' rest'" for flat' before' rest'
    using sampled_scan [OF that low] .
  have split: "result_ok A objs components wanted n {e \<in> listed objs q False. after_start sa e} r
      (map_option Inr (split_batch depth sa flat' branches))"
    if "sampled A True objs q False sa flat' before' rest'" "pg_entries flat' \<noteq> []" "pg_next branches = None"
    for flat' before' rest'
  proof (rule split_ok [OF assms(1) that(1,2) _ br(2) assms(7,8)])
    show "sampled A (sr_ordered S) objs q True None branches [pg] []"
      using br(1) that(3) by (auto simp: sampled_def reading_def continues_def)
  qed
  obtain t where t: "pg_next flat = Some t" using assms(5) by auto
  show ?thesis
  proof (cases "read_after S q False (Some t) sa")
    case (Inl e)
    then show ?thesis
      using scan [OF assms(3)] split [OF assms(3,4)] by (auto simp: recursive_split_def t)
  next
    case (Inr page)
    obtain before' rest' where ext: "sampled A True objs q False sa (extend_page flat page) before' rest'"
      using sampled_extend [OF assms(1,3) t Inr] .
    have "pg_entries (extend_page flat page) \<noteq> []" using assms(4) by (simp add: extend_page_def)
    then show ?thesis
      using scan [OF assms(3)] scan [OF ext] split [OF assms(3,4)] split [OF ext] Inr
      by (auto simp: recursive_split_def t)
  qed
qed

lemma recursive_ok:
  assumes "service S A objs" "(1, MAX_RECURSIVE_PROBES - depth) = r \<or> fst r = 2"
  shows "result_ok A objs components wanted n {e \<in> listed objs q False. after_start sa e} r
    (recursive S q depth split sa)"
proof (cases "read_after S q False None sa")
  case (Inr flat)
  have low: "((0, m), r) \<in> rank_less" for m using assms(2) by (cases r) auto
  obtain pg rest where flat: "sampled A (sr_ordered S) objs q False sa flat [pg] rest"
    using sampled_first [OF assms(1) _ Inr] by blast
  note scan = sampled_scan [OF _ low, of _ "sr_ordered S" objs q False sa]
  show ?thesis
  proof (cases "pg_next flat = None \<or> \<not> split \<or> \<not> sr_ordered S \<or> depth \<ge> MAX_RECURSIVE_PROBES \<or>
      length (pg_entries flat) < 1000 \<or> dense_children q flat = 0")
    case True
    with scan [OF flat] Inr show ?thesis by (auto simp: recursive_def)
  next
    case False
    then obtain t where t: "pg_next flat = Some t" by auto
    show ?thesis
    proof (cases "read_after S q False (Some t) sa")
      case (Inl e)
      with False Inr t show ?thesis by (simp add: recursive_def)
    next
      case cont: (Inr page)
      obtain before' rest' where ext: "sampled A (sr_ordered S) objs q False sa (extend_page flat page) before' rest'"
        using sampled_extend [OF assms(1) flat t cont] .
      have "pg_entries (extend_page flat page) \<noteq> []" using False by (auto simp: extend_page_def)
      moreover have "depth < MAX_RECURSIVE_PROBES" "sr_ordered S" using False by auto
      ultimately have "result_ok A objs components wanted n {e \<in> listed objs q False. after_start sa e} r
          (recursive_split S q depth sa (extend_page flat page) branches)"
        if "pg_next (extend_page flat page) \<noteq> None" "read_page S q True None = Inr branches" for branches
        using recursive_split_ok [OF assms(1) _ _ _ that _ assms(2), of sa before' rest'] ext by simp
      then show ?thesis
        using False Inr t cont scan [OF ext]
        by (auto simp: recursive_def Let_def split: sum.split)
    qed
  qed
qed (simp add: recursive_def)


subsection \<open>Discovering components\<close>

lemma first_slash:
  assumes "a @ slash # x = b @ slash # y" "slash \<notin> set a" "slash \<notin> set b"
  shows "a = b" "x = y"
proof -
  show "a = b" using takeWhile_segment [OF assms(2), of x] takeWhile_segment [OF assms(3), of y] assms(1) by simp
  with assms(1) show "x = y" by simp
qed

lemma literal_prefix_slashless: "slashless c \<Longrightarrow> slash \<notin> set (literal_prefix c)"
  by (induction c) (auto simp: slashless_def literal_of_def split: option.splits glob_token.splits)

declare skip_literals.simps [simp del]

definition discovered :: "glob_token list list \<Rightarrow> (ustring \<Rightarrow> bool) \<Rightarrow> ustring \<Rightarrow> nat \<Rightarrow> bool" where
  "discovered cs wanted p c \<longleftrightarrow> c < length cs \<and>
     (\<forall>key. wanted key \<longrightarrow> starts_with p key \<longrightarrow> glob_path (drop c cs) (drop (length p) key))"

lemma discoveredD:
  assumes "discovered cs wanted p c" "wanted (p @ s)"
  shows "glob_path (drop c cs) s"
proof -
  have "glob_path (drop c cs) (drop (length p) (p @ s))"
    using assms unfolding discovered_def by (simp only: starts_with_iff) blast
  then show ?thesis by simp
qed

lemma skip_literals_ok:
  assumes "\<forall>c\<in>set cs. slashless c" "discovered cs wanted p c" "skip_literals cs p c = (p', c')"
  shows "discovered cs wanted p' c'" "c \<le> c'" "starts_with p p'"
    "wanted key \<Longrightarrow> starts_with p key \<Longrightarrow> starts_with p' key"
proof -
  have "discovered cs wanted p' c' \<and> c \<le> c' \<and> starts_with p p' \<and>
    (\<forall>key. wanted key \<longrightarrow> starts_with p key \<longrightarrow> starts_with p' key)"
    using assms
  proof (induction cs p c rule: skip_literals.induct)
    case (1 cs p c)
    let ?part = "cs ! c"
    show ?case
    proof (cases "c + 1 < length cs \<and> component_literal ?part")
      case True
      let ?p = "p @ literal_prefix ?part @ [slash]"
      have part: "slashless ?part" "\<not> component_recursive ?part" "drop c cs = ?part # drop (c + 1) cs" "drop (c + 1) cs \<noteq> []"
        using True 1(2) by (auto simp: literal_not_recursive Cons_nth_drop_Suc)
      have key: "\<exists>rest. key = ?p @ rest \<and> glob_path (drop (c + 1) cs) rest"
        if wk: "wanted key" and sk: "starts_with p key" for key
      proof -
        obtain s where s: "key = p @ s" using sk by (auto simp: starts_with_iff)
        then have "glob_path (?part # drop (c + 1) cs) s"
          using discoveredD [OF 1(3)] wk unfolding part(3) [symmetric] by simp
        then obtain segment rest where "s = segment @ slash # rest" "glob ?part segment" "glob_path (drop (c + 1) cs) rest"
          unfolding glob_path_Cons [OF part(1,2,4)] by blast
        with s True show ?thesis by (simp add: glob_literal)
      qed
      have "discovered cs wanted ?p (c + 1)"
        unfolding discovered_def
      proof (intro conjI allI impI)
        fix k assume k: "wanted k" "starts_with ?p k"
        then have "starts_with p k" by (auto simp: starts_with_iff)
        from key [OF k(1) this] show "glob_path (drop (c + 1) cs) (drop (length ?p) k)" by auto
      qed (use True in simp)
      moreover have "skip_literals cs ?p (c + 1) = (p', c')"
        using 1(4) True by (simp add: skip_literals.simps [of cs p c])
      ultimately have IH: "discovered cs wanted p' c'" "c + 1 \<le> c'" "starts_with ?p p'"
        "\<And>k. wanted k \<Longrightarrow> starts_with ?p k \<Longrightarrow> starts_with p' k"
        using 1(1) [OF True 1(2)] by blast+
      have "starts_with p p'" using IH(3) by (auto simp: starts_with_iff)
      moreover have "starts_with p' k" if "wanted k" "starts_with p k" for k
        using key [OF that] IH(4) [OF that(1)] by (auto simp: starts_with_iff)
      ultimately show ?thesis using IH(1,2) by auto
    next
      case False
      then have "skip_literals cs p c = (p, c)" by (subst skip_literals.simps) auto
      with 1(3,4) show ?thesis by (auto simp: starts_with_iff)
    qed
  qed
  then show "discovered cs wanted p' c'" "c \<le> c'" "starts_with p p'"
    "wanted key \<Longrightarrow> starts_with p key \<Longrightarrow> starts_with p' key" by blast+
qed

lemma select_children_eq:
  assumes "\<forall>child\<in>set ks. child_segment p child = Some (f child)"
  shows "select_children p part c ks =
    Some (map (\<lambda>child. Discover child (c + 1) 0)
      (filter (\<lambda>child. slash \<notin> set (f child) \<and> glob part (f child)) ks))"
  using assms by (induction ks) (simp_all add: token_matches_glob)


lemma hands_over_cong:
  assumes "hands_over A objs wanted E b" "\<And>e. wanted (en_key e) \<Longrightarrow> e \<in> E \<longleftrightarrow> e \<in> E'"
  shows "hands_over A objs wanted E' b"
  using assms by (simp add: hands_over_def)

lemma result_ok_cong:
  assumes "result_ok A objs components wanted n E r result" "\<And>e. wanted (en_key e) \<Longrightarrow> e \<in> E \<longleftrightarrow> e \<in> E'"
  shows "result_ok A objs components wanted n E' r result"
  using assms hands_over_cong [OF _ assms(2)] by (auto simp: result_ok_def batch_ok_def split: option.splits sum.splits)

text \<open>The children of a component that lead on: each wanted key below the query is below exactly one.\<close>

lemma children_hand_over:
  assumes part: "slashless part" "\<not> component_recursive part" "cs \<noteq> []"
    and wanted: "\<And>s. wanted (p @ s) \<Longrightarrow> glob_path (part # cs) s"
    and prefixes: "distinct ks" "set ks = children objs (p @ literal_prefix part)"
    and direct: "set es = listed objs (p @ literal_prefix part) True"
  defines "f \<equiv> \<lambda>child. butlast (drop (length p) child)"
  shows "hands_over A objs wanted (listed objs (p @ literal_prefix part) False)
    \<lparr>bt_entries = es, bt_jobs = map (\<lambda>child. Discover child c 0)
      (filter (\<lambda>child. slash \<notin> set (f child) \<and> glob part (f child)) ks)\<rparr>"
  unfolding hands_over_def
proof (intro allI impI)
  fix e :: s3_entry
  assume e: "wanted (en_key e)"
  let ?q = "p @ literal_prefix part"
  let ?lead = "\<lambda>child. slash \<notin> set (f child) \<and> glob part (f child)"
  have none: "e \<notin> set es"
  proof
    assume "e \<in> set es"
    then obtain s where s: "en_key e = p @ literal_prefix part @ s" "slash \<notin> set s"
      unfolding direct by (auto simp: listed_def direct_def starts_with_iff)
    with wanted [of "literal_prefix part @ s"] e obtain a b where "literal_prefix part @ s = a @ slash # b"
      by (auto simp: glob_path_Cons [OF part])
    then have "slash \<in> set (literal_prefix part @ s)" by simp
    with s(2) literal_prefix_slashless [OF part(1)] show False by simp
  qed
  have lead: "?lead k" if "common_prefix ?q (en_key e) = Some k" for k
  proof -
    from that obtain segment rest where k: "slash \<notin> set segment" "en_key e = ?q @ segment @ slash # rest"
      "k = ?q @ segment @ [slash]" by (auto simp: common_prefix_iff)
    with wanted [of "literal_prefix part @ segment @ slash # rest"] e obtain a b where
      "(literal_prefix part @ segment) @ slash # rest = a @ slash # b" "slash \<notin> set a" "glob part a"
      by (auto simp: glob_path_Cons [OF part])
    with first_slash [of "literal_prefix part @ segment" rest a b] k(1) literal_prefix_slashless [OF part(1)]
    have "glob part (literal_prefix part @ segment)" by simp
    moreover have "f k = literal_prefix part @ segment" by (simp add: f_def k(3) butlast_append)
    ultimately show ?thesis using k(1) literal_prefix_slashless [OF part(1)] by simp
  qed
  have "owed_by A objs (map (\<lambda>child. Discover child c 0) (filter ?lead ks)) e =
      card {k \<in> set (filter ?lead ks). e \<in> set objs \<and> starts_with k (en_key e)}"
    unfolding owed_by_def
    using count_matching [of "filter ?lead ks" "\<lambda>k. e \<in> set objs \<and> starts_with k (en_key e)"] prefixes(1)
    by (simp add: comp_def listed_def)
  also have "{k \<in> set (filter ?lead ks). e \<in> set objs \<and> starts_with k (en_key e)} =
      {k. common_prefix ?q (en_key e) = Some k \<and> e \<in> set objs}"
    using lead children_iff(1) [of _ objs ?q "en_key e"] unfolding prefixes(2) set_filter
    by (auto simp: children_def)
  also have "card \<dots> = of_bool (common_prefix ?q (en_key e) \<noteq> None \<and> e \<in> set objs)"
    by (cases "common_prefix ?q (en_key e)") auto
  also have "common_prefix ?q (en_key e) \<noteq> None \<and> e \<in> set objs \<longleftrightarrow> e \<in> listed objs ?q False"
    using none child_of_entry(1) [of e objs ?q] unfolding direct
    by (auto simp: listed_def common_prefix_def Let_def split: if_splits)
  finally show "count_list (bt_entries \<lparr>bt_entries = es, bt_jobs = map (\<lambda>child. Discover child c 0) (filter ?lead ks)\<rparr>) e +
      owed_by A objs (bt_jobs \<lparr>bt_entries = es, bt_jobs = map (\<lambda>child. Discover child c 0) (filter ?lead ks)\<rparr>) e =
      of_bool (e \<in> listed objs ?q False)"
    using none by (simp add: count_list_0_iff [THEN iffD2] del: filter_filter)
qed


lemma discover_children_ok:
  assumes part: "slashless part" "\<not> component_recursive part" "c + 1 < length cs" "cs ! c = part"
    and wanted: "\<And>s. wanted (p @ s) \<Longrightarrow> glob_path (part # drop (c + 1) cs) s"
    and page: "sampled A ordered objs (p @ literal_prefix part) True None page [pg] []" "pg_prefixes page = pg_prefixes pg"
    and r: "length cs - (c + 1) < snd r" "fst r = 2"
  shows "result_ok A objs (Some cs) wanted (length cs) (listed objs (p @ literal_prefix part) False) r
    (map_option (\<lambda>jobs. Inr \<lparr>bt_entries = pg_entries page, bt_jobs = jobs\<rparr>)
      (select_children p part c (pg_prefixes page)))"
proof -
  let ?q = "p @ literal_prefix part" and ?f = "\<lambda>child. butlast (drop (length p) child)"
  have rest: "drop (c + 1) cs \<noteq> []" using part(3) by simp
  have prefixes: "distinct (pg_prefixes page)" "set (pg_prefixes page) = children objs ?q"
    and entries: "set (pg_entries page) = listed objs ?q True"
    using page by (auto simp: sampled_def listing_of_def prefixes_of_def after_start_def)
  have "child_segment p k = Some (?f k)" if "k \<in> children objs ?q" for k
    using children_iff(2) [OF that] by (auto simp: child_segment_def starts_with_iff)
  then have jobs: "select_children p part c (pg_prefixes page) = Some (map (\<lambda>child. Discover child (c + 1) 0)
      (filter (\<lambda>child. slash \<notin> set (?f child) \<and> glob part (?f child)) (pg_prefixes page)))"
    by (intro select_children_eq) (simp add: prefixes(2))
  have "job_ok A (Some cs) wanted (Discover k (c + 1) 0)" if k: "k \<in> children objs ?q" for k
  proof -
    obtain segment where segment: "slash \<notin> set segment" "k = ?q @ segment @ [slash]" using children_iff(2) [OF k] by blast
    have "glob_path (drop (c + 1) cs) s" if "wanted (k @ s)" for s
    proof -
      from that have "wanted (p @ (literal_prefix part @ segment) @ slash # s)" by (simp add: segment(2))
      from wanted [OF this, unfolded glob_path_Cons [OF part(1,2) rest]] obtain a b where
        "(literal_prefix part @ segment) @ slash # s = a @ slash # b" "slash \<notin> set a" "glob_path (drop (c + 1) cs) b"
        by blast
      with first_slash(2) [of "literal_prefix part @ segment" s a b] segment(1) literal_prefix_slashless [OF part(1)]
      show ?thesis by simp
    qed
    with part(3) show ?thesis by (auto simp: starts_with_iff)
  qed
  moreover note children_hand_over [OF part(1,2) rest wanted prefixes entries, where A = A and c = "c + 1"]
  ultimately show ?thesis
    using r unfolding jobs by (cases r) (auto simp: batch_ok_def prefixes(2))
qed

lemma discover_ok:
  assumes svc: "service S A objs" and cs: "\<forall>c\<in>set cs. slashless c" and disc: "discovered cs wanted p c"
  shows "result_ok A objs (Some cs) wanted (length cs) (listed objs p False) (2, length cs - c)
    (discover S cs p c depth split)"
proof -
  obtain p' c' where skip: "skip_literals cs p c = (p', c')" by fastforce
  note sk = skip_literals_ok [OF cs disc skip]
  have c': "c' < length cs" using sk(1) by (simp add: discovered_def)
  define part where "part = cs ! c'"
  define q where "q = p' @ literal_prefix part"
  let ?r = "(2, length cs - c) :: nat \<times> nat"
  have drop: "drop c' cs = part # drop (c' + 1) cs" using c' by (simp add: part_def Cons_nth_drop_Suc)
  have slashless: "slashless part" using cs c' by (simp add: part_def)
  have wanted: "glob_path (part # drop (c' + 1) cs) s" if "wanted (p' @ s)" for s
    using discoveredD [OF sk(1) that] unfolding drop .
  have below: "e \<in> listed objs q False \<longleftrightarrow> e \<in> listed objs p False" if "wanted (en_key e)" for e
  proof -
    have "starts_with q (en_key e)" if start: "starts_with p (en_key e)"
    proof -
      obtain s where s: "en_key e = p' @ s"
        using sk(4) [OF \<open>wanted (en_key e)\<close> start] by (auto simp: starts_with_iff)
      with wanted [of s] \<open>wanted (en_key e)\<close> have "starts_with (literal_prefix part) s"
        by (auto dest: glob_path_prefix)
      with s show ?thesis by (auto simp: starts_with_iff q_def)
    qed
    moreover have "starts_with p (en_key e)" if "starts_with q (en_key e)"
      using that sk(3) by (auto simp: starts_with_iff q_def)
    ultimately show ?thesis by (auto simp: listed_def)
  qed
  have any: "{e \<in> listed objs q d. after_start None e} = listed objs q d" for d by (simp add: after_start_def)
  have flat: "result_ok A objs (Some cs) wanted (length cs) (listed objs q False) ?r
      (Some (and_then (read_page S q False None) (\<lambda>page. Inr (scan_batch q False page None))))"
  proof (cases "read_page S q False None")
    case (Inr page)
    obtain pg rest where "sampled A (sr_ordered S) objs q False None page [pg] rest"
      using sampled_first [OF svc _ Inr [unfolded read_page_def]] by blast
    from sampled_scan [OF this, of ?r] Inr show ?thesis by (simp add: any)
  qed simp
  have "result_ok A objs (Some cs) wanted (length cs) (listed objs q False) ?r (discover S cs p c depth split)"
  proof (cases "component_recursive part")
    case True
    with recursive_ok [OF svc, of depth ?r "Some cs" wanted "length cs" q None split] c' show ?thesis
      by (simp add: discover_def skip any flip: part_def q_def)
  next
    case False
    show ?thesis
    proof (cases "\<not> split \<and> c' + 1 < length cs")
      case True
      with flat False c' show ?thesis by (simp add: discover_def skip flip: part_def q_def)
    next
      case go: False
      show ?thesis
      proof (cases "read_page S q True None")
        case (Inl e)
        with go False c' show ?thesis by (auto simp: discover_def skip simp flip: part_def q_def)
      next
        case (Inr page)
        obtain pg rest where page: "sampled A (sr_ordered S) objs q True None page [pg] rest"
            "pg_prefixes page = pg_prefixes pg"
          using sampled_first [OF svc _ Inr [unfolded read_page_def]] by blast
        have last: "result_ok A objs (Some cs) wanted (length cs) (listed objs q False) ?r
            (Some (Inr (scan_batch q True page None)))" if "c' + 1 = length cs"
        proof (rule result_ok_cong)
          show "result_ok A objs (Some cs) wanted (length cs) (listed objs q True) ?r
              (Some (Inr (scan_batch q True page None)))"
            using sampled_scan [OF page(1), of ?r] by (simp add: any)
          fix e :: s3_entry
          assume e: "wanted (en_key e)"
          have "direct q e" if start: "starts_with q (en_key e)"
          proof -
            obtain s where s: "en_key e = p' @ literal_prefix part @ s" using start by (auto simp: starts_with_iff q_def)
            have "glob part (literal_prefix part @ s)"
              using wanted [of "literal_prefix part @ s"] e s \<open>c' + 1 = length cs\<close> by simp
            from glob_slashless [OF slashless False this] s show ?thesis by (simp add: direct_def q_def)
          qed
          then show "e \<in> listed objs q True \<longleftrightarrow> e \<in> listed objs q False" by (auto simp: listed_def)
        qed
        have inner: "result_ok A objs (Some cs) wanted (length cs) (listed objs q False) ?r
            (map_option (\<lambda>jobs. Inr \<lparr>bt_entries = pg_entries page, bt_jobs = jobs\<rparr>)
              (select_children p' part c' (pg_prefixes page)))" if "c' + 1 < length cs" "pg_next page = None"
          unfolding q_def
        proof (rule discover_children_ok [OF slashless False that(1) part_def [symmetric] wanted _ page(2)])
          show "sampled A (sr_ordered S) objs (p' @ literal_prefix part) True None page [pg] []"
            using page(1) that(2) by (auto simp: q_def sampled_def reading_def continues_def)
        qed (use that(1) sk(2) in auto)
        from go False c' Inr last inner flat show ?thesis
          by (auto simp: discover_def skip simp flip: part_def q_def)
      qed
    qed
  qed
  then show ?thesis by (rule result_ok_cong) (rule below)
qed


definition component_count :: "glob_token list list option \<Rightarrow> nat" where
  "component_count components = (case components of None \<Rightarrow> 0 | Some cs \<Rightarrow> length cs)"

lemma execute_ok:
  assumes svc: "service S A objs" and cs: "\<And>cs. components = Some cs \<Longrightarrow> \<forall>c\<in>set cs. slashless c"
    and job: "job_ok A components wanted job"
  shows "result_ok A objs components wanted (component_count components) (owed A objs job)
    (rank A (component_count components) job) (execute S components job split)"
proof (cases job)
  case (Discover p c depth)
  with job obtain cs' where c: "components = Some cs'" "discovered cs' wanted p c"
    by (auto simp: discovered_def)
  with discover_ok [OF svc cs [OF c(1)] c(2)] Discover show ?thesis
    by (simp add: execute_def component_count_def)
next
  case (RecursiveJob p depth sa)
  with recursive_ok [OF svc] show ?thesis by (simp add: execute_def)
next
  case (Scan p d t sa)
  with job obtain rest where rest: "pages A p d sa t rest" "distinct (entries_of rest)" by auto
  show ?thesis
  proof (cases "read_after S p d t sa")
    case (Inr page)
    from read_page_at [OF svc Inr rest(1)] obtain pg rest' where "rest = pg # rest'"
      "continues A p d sa (pg_next page) rest'" "pg_entries page = filter (after_start sa) (pg_entries pg)" .
    then have page: "rest = [pg] @ rest'" "continues A p d sa (pg_next page) rest'"
      "pg_entries page = filter (after_start sa) (entries_of [pg])" by simp_all
    have "hands_over A objs wanted (owed A objs job) (scan_batch p d page sa)"
      using scan_hands_over [OF page(2) _ page(3), where objs = objs and wanted = wanted] rest owed_scan [OF rest(1)]
      unfolding page(1) Scan by (auto simp: hands_over_def simp del: owed.simps)
    moreover have "distinct (entries_of rest')" using rest(2) page(1) by simp
    ultimately show ?thesis
      using scan_jobs_ok [OF page(2), where r = "(0, length rest)"] Inr rest(1) page(1) Scan
      by (simp add: execute_def batch_ok_def pages_left_eq)
  qed (use Scan in \<open>simp add: execute_def\<close>)
qed

end
