(* ===== verification/Transition.thy ===== *)
theory Transition
  imports Syq_Prelude
begin

section \<open>Runs of a step relation\<close>

text \<open>
  Components that many threads share are modelled as step relations. The locale
  \<open>kept_invariant\<close> is the contract of such a component, a property that every step keeps, and its
  lemmas carry the property along runs; \<open>ending_invariant\<close> adds an effort that every step lowers in a
  well-founded order, and with it that no run is endless and that one can always come to an end. The
  theories \<open>Write_Gate\<close>, \<open>Wire_Budget\<close> and \<open>S3_Listing_Runs\<close> interpret them.
\<close>

locale kept_invariant =
  fixes step :: "'s \<Rightarrow> 's \<Rightarrow> bool" and inv :: "'s \<Rightarrow> bool"
  assumes step_kept: "step s t \<Longrightarrow> inv s \<Longrightarrow> inv t"
begin

lemma kept_steps: "step\<^sup>*\<^sup>* s t \<Longrightarrow> inv s \<Longrightarrow> inv t"
  by (induction rule: rtranclp_induct) (auto intro: step_kept)

lemma kept_along: "(\<And>i. step (runs i) (runs (Suc i))) \<Longrightarrow> inv (runs 0) \<Longrightarrow> inv (runs i)"
  by (induction i) (auto intro: step_kept)

end

locale ending_invariant = kept_invariant step inv
  for step :: "'s \<Rightarrow> 's \<Rightarrow> bool" and inv :: "'s \<Rightarrow> bool" +
  fixes effort :: "'s \<Rightarrow> 'm" and less :: "('m \<times> 'm) set"
  assumes wf_less: "wf less" and lowered: "step s t \<Longrightarrow> inv s \<Longrightarrow> (effort t, effort s) \<in> less"
begin

lemma no_endless:
  assumes "\<And>i. step (runs i) (runs (Suc i))"
  shows "\<not> inv (runs 0)"
proof
  assume "inv (runs 0)"
  then have "(effort (runs (Suc i)), effort (runs i)) \<in> less" for i
    using lowered [OF assms] kept_along [where runs = runs, OF assms] by blast
  then have "\<exists>f. \<forall>i. (f (Suc i), f i) \<in> less" by (intro exI [of _ "\<lambda>i. effort (runs i)"]) simp
  with wf_less show False by (simp add: wf_iff_no_infinite_down_chain)
qed

lemma can_end: "inv s \<Longrightarrow> \<exists>t. step\<^sup>*\<^sup>* s t \<and> (\<nexists>u. step t u)"
proof (induction "effort s" arbitrary: s rule: wf_induct_rule [OF wf_less])
  case 1
  show ?case
  proof (cases "\<exists>u. step s u")
    case True
    then obtain u where u: "step s u" by blast
    from "1.hyps" [OF lowered [OF u "1.prems"]] step_kept [OF u "1.prems"] show ?thesis
      using u by (meson converse_rtranclp_into_rtranclp)
  qed auto
qed

end

end
