(* ===== verification/S3_Listing_Runs.thy ===== *)
theory S3_Listing_Runs
  imports S3_Listing_Props Transition
begin

section \<open>Runs of a listing\<close>

text \<open>
  The loop of \<^theory_text>\<open>S3_Listing\<close> over the jobs of \<^theory_text>\<open>S3_Listing_Props\<close>: an invariant that counts each
  wanted entry once among the output and the jobs, a multiset order in which every step goes down,
  and from these the properties of a whole listing.
\<close>

subsection \<open>The invariant\<close>

definition owed_active :: "answers \<Rightarrow> s3_entry list \<Rightarrow> (job \<times> bool) multiset \<Rightarrow> s3_entry \<Rightarrow> nat" where
  "owed_active A objs active e = (\<Sum>(j, _)\<in>#active. of_bool (e \<in> owed A objs j))"

lemma owed_active_simps [simp]:
  "owed_active A objs {#} e = 0"
  "owed_active A objs (add_mset (j, split) active) e = of_bool (e \<in> owed A objs j) + owed_active A objs active e"
  by (simp_all add: owed_active_def)

fun run_ok ::
  "answers \<Rightarrow> s3_entry list \<Rightarrow> glob_token list list option \<Rightarrow> (ustring \<Rightarrow> bool) \<Rightarrow> s3_entry set \<Rightarrow> 'e run \<Rightarrow> bool" where
  "run_ok A objs components wanted E (Running pending active out) \<longleftrightarrow>
     (\<forall>j\<in>set pending. job_ok A components wanted j) \<and> (\<forall>(j, _)\<in>#active. job_ok A components wanted j) \<and>
     (\<forall>e\<in>set out. wanted (en_key e)) \<and>
     (\<forall>e. wanted (en_key e) \<longrightarrow>
        count_list out e + owed_by A objs pending e + owed_active A objs active e = of_bool (e \<in> E))"
| "run_ok A objs components wanted E (Finished out) \<longleftrightarrow>
     (\<forall>e\<in>set out. wanted (en_key e)) \<and> (\<forall>e. wanted (en_key e) \<longrightarrow> count_list out e = of_bool (e \<in> E))"
| "run_ok A objs components wanted E (Failed x out) \<longleftrightarrow> True"
| "run_ok A objs components wanted E Panicked \<longleftrightarrow> False"

lemma emit_all_output: "emit_all refuse wanted es out = (out', None) \<Longrightarrow> out' = out @ filter (\<lambda>e. wanted (en_key e)) es"
  by (induction es arbitrary: out) (fastforce split: if_splits option.splits)+

lemma count_wanted: "wanted (en_key e) \<Longrightarrow> count_list (filter (\<lambda>e. wanted (en_key e)) es) e = count_list es e"
  by (induction es) auto

lemma settle_ok:
  assumes "run_ok A objs components wanted E (Running pending (add_mset (job, split) active) out)"
    "result_ok A objs components wanted n (owed A objs job) r result"
  shows "run_ok A objs components wanted E (settle_batch refuse wanted pending active out result)"
proof (cases result)
  case (Some x)
  show ?thesis
  proof (cases x)
    case (Inr b)
    have b: "hands_over A objs wanted (owed A objs job) b" "\<forall>j\<in>set (bt_jobs b). job_ok A components wanted j"
      using assms(2) Some Inr by (simp_all add: batch_ok_def)
    obtain out' failed where emit: "emit_all refuse wanted (bt_entries b) out = (out', failed)" by fastforce
    show ?thesis
    proof (cases failed)
      case None
      then have out': "out' = out @ filter (\<lambda>e. wanted (en_key e)) (bt_entries b)"
        using emit emit_all_output by blast
      have "count_list out' e + owed_by A objs (pending @ bt_jobs b) e + owed_active A objs active e = of_bool (e \<in> E)"
        if e: "wanted (en_key e)" for e
      proof -
        have "count_list out e + owed_by A objs pending e + (of_bool (e \<in> owed A objs job) + owed_active A objs active e) =
            of_bool (e \<in> E)"
          using assms(1) e by simp
        moreover have "count_list (bt_entries b) e + owed_by A objs (bt_jobs b) e = of_bool (e \<in> owed A objs job)"
          using b(1) e by (simp add: hands_over_def)
        ultimately show ?thesis unfolding out' count_list_append count_wanted [of wanted, OF e] owed_by_simps by linarith
      qed
      with assms(1) b(2) None emit Some Inr show ?thesis by (auto simp: settle_batch_def out')
    qed (use emit Some Inr in \<open>simp add: settle_batch_def\<close>)
  qed (use Some in \<open>simp add: settle_batch_def\<close>)
qed (use assms(2) in simp)

lemma step_ok:
  assumes svc: "service S A objs" and cs: "\<And>cs. components = Some cs \<Longrightarrow> \<forall>c\<in>set cs. slashless c"
    and step: "listing_step S components wanted refuse concurrency r r'" and ok: "run_ok A objs components wanted E r"
  shows "run_ok A objs components wanted E r'"
  using step ok
proof cases
  case (settle job split active pending out)
  then have "job_ok A components wanted job" using ok by simp
  from settle_ok [OF _ execute_ok [OF svc cs this]] ok settle show ?thesis by blast
qed auto

subsection \<open>Every run goes down\<close>

definition work :: "answers \<Rightarrow> nat \<Rightarrow> job list \<Rightarrow> (job \<times> bool) multiset \<Rightarrow> (nat \<times> nat) multiset" where
  "work A n pending active = image_mset (rank A n) (mset pending) + image_mset (rank A n \<circ> fst) active"

fun effort :: "answers \<Rightarrow> nat \<Rightarrow> 'e run \<Rightarrow> nat \<times> (nat \<times> nat) multiset \<times> nat" where
  "effort A n (Running pending active out) = (1, work A n pending active, length pending)"
| "effort A n r = (0, {#}, 0)"

definition effort_less :: "((nat \<times> (nat \<times> nat) multiset \<times> nat) \<times> (nat \<times> (nat \<times> nat) multiset \<times> nat)) set" where
  "effort_less = less_than <*lex*> mult rank_less <*lex*> less_than"

lemma wf_effort_less: "wf effort_less"
  by (simp add: effort_less_def wf_lex_prod wf_mult wf_rank_less)

lemma step_less:
  assumes svc: "service S A objs" and cs: "\<And>cs. components = Some cs \<Longrightarrow> \<forall>c\<in>set cs. slashless c"
    and step: "listing_step S components wanted refuse concurrency r r'" and ok: "run_ok A objs components wanted E r"
  defines "n \<equiv> component_count components"
  shows "(effort A n r', effort A n r) \<in> effort_less"
  using step
proof cases
  case (settle job split active pending out)
  then have "job_ok A components wanted job" using ok by simp
  from execute_ok [OF svc cs this] have res: "result_ok A objs components wanted n (owed A objs job) (rank A n job)
      (execute S components job split)" by (simp add: n_def)
  show ?thesis
  proof (cases "execute S components job split")
    case (Some x)
    show ?thesis
    proof (cases x)
      case (Inr b)
      have "\<forall>j\<in>set (bt_jobs b). (rank A n j, rank A n job) \<in> rank_less"
        using res Some Inr by (simp add: batch_ok_def)
      then have "(work A n pending active + image_mset (rank A n) (mset (bt_jobs b)),
          work A n pending active + {#rank A n job#}) \<in> mult rank_less"
        by (intro one_step_implies_mult) auto
      with settle Some Inr show ?thesis
        by (auto simp: settle_batch_def effort_less_def work_def ac_simps split: prod.split option.split)
    qed (use settle Some in \<open>simp add: settle_batch_def effort_less_def\<close>)
  qed (use settle in \<open>simp add: settle_batch_def effort_less_def\<close>)
qed (auto simp: effort_less_def work_def)

text \<open>What a run keeps, on a service that lists as documented, and that it goes down.\<close>

definition listing_ok ::
  "'e store \<Rightarrow> answers \<Rightarrow> s3_entry list \<Rightarrow> glob_token list list option \<Rightarrow> (ustring \<Rightarrow> bool) \<Rightarrow> s3_entry set \<Rightarrow> 'e run \<Rightarrow> bool" where
  "listing_ok S A objs components wanted E r \<longleftrightarrow>
     service S A objs \<and> (\<forall>cs. components = Some cs \<longrightarrow> (\<forall>c\<in>set cs. slashless c)) \<and> run_ok A objs components wanted E r"

interpretation listing: ending_invariant "listing_step S components wanted refuse concurrency"
  "listing_ok S A objs components wanted E" "effort A (component_count components)" effort_less
  for S A objs components wanted refuse concurrency E
proof
  fix s t
  assume step: "listing_step S components wanted refuse concurrency s t" and ok: "listing_ok S A objs components wanted E s"
  then show "listing_ok S A objs components wanted E t" using step_ok [OF _ _ step, of A objs E] unfolding listing_ok_def by blast
  show "(effort A (component_count components) t, effort A (component_count components) s) \<in> effort_less"
    using ok step_less [OF _ _ step, of A objs E] unfolding listing_ok_def by blast
qed (rule wf_effort_less)

subsection \<open>Patterns and literal keys\<close>

text \<open>The regular expression of a pattern means the pattern.\<close>

definition regex_documented :: "'r regex_library \<Rightarrow> bool" where
  "regex_documented R \<longleftrightarrow>
     (\<forall>ts m key. re_new R (pattern_expression R ts) = Some m \<longrightarrow> (re_is_match R m key \<longleftrightarrow> glob ts key))"

lemma pattern_parse_ok:
  assumes "pattern_parse R input = Inr P" "regex_documented R"
  shows "pt_components P \<noteq> []" "\<forall>c\<in>set (pt_components P). slashless c"
    "pattern_matches R P key \<longleftrightarrow> glob_path (pt_components P) key"
proof -
  from assms(1) obtain path m where P: "pt_components P = map tokens (split_on slash path)" "pt_matcher P = m"
      "re_new R (pattern_expression R (tokens path)) = Some m"
    by (auto simp: pattern_parse_def split: if_splits option.splits)
  show "pt_components P \<noteq> []" by (simp add: P)
  show "\<forall>c\<in>set (pt_components P). slashless c"
    using split_on_pieces [of _ slash path] by (auto simp: P(1) slashless_def tokens_no_slash)
  show "pattern_matches R P key \<longleftrightarrow> glob_path (pt_components P) key"
    using assms(2) P by (simp add: regex_documented_def pattern_matches_def glob_path_def tokens_split [of path])
qed

lemma literal_path:
  assumes "cs \<noteq> []" "list_all component_literal cs"
  shows "glob_path cs key \<longleftrightarrow> key = literal_key cs"
proof -
  have join: "component_literal c \<Longrightarrow> component_literal (c @ Literal slash # d) = component_literal d"
    "component_literal c \<Longrightarrow> literal_prefix (c @ Literal slash # d) = literal_prefix c @ slash # literal_prefix d" for c d
    by (induction c) (auto simp: component_literal_def literal_of_def split: option.splits)
  have "component_literal (join_with (Literal slash) cs) \<and>
      literal_prefix (join_with (Literal slash) cs) = literal_key cs"
    using assms by (induction cs rule: induct_list012) (auto simp: literal_key_def join)
  then show ?thesis by (simp add: glob_path_def glob_literal)
qed

lemma exact_counts:
  assumes "distinct objs" "\<forall>e\<in>set out. wanted (en_key e)"
    "\<And>e. wanted (en_key e) \<Longrightarrow> count_list out e = of_bool (e \<in> set objs \<and> P e)"
  shows "mset out = filter_mset (\<lambda>e. wanted (en_key e) \<and> P e) (mset objs)"
proof (rule multiset_eqI)
  fix e
  have "count_list objs e = of_bool (e \<in> set objs)" using assms(1) by (rule count_distinct)
  then show "count (mset out) e = count (filter_mset (\<lambda>e. wanted (en_key e) \<and> P e) (mset objs)) e"
    using assms(2) assms(3) [of e] by (cases "wanted (en_key e)") (auto simp: count_mset count_list_0_iff)
qed

text \<open>On an ordered service the exact key comes first.\<close>

lemma literal_first_page:
  assumes svc: "service S A objs" "sr_ordered S" and read: "read_page S k False None = Inr page"
    and e: "e \<in> set objs" "en_key e = k"
  shows "e \<in> set (pg_entries page)"
proof (rule ccontr)
  assume no: "e \<notin> set (pg_entries page)"
  obtain pgs where pgs: "listing_of A True objs k False None pgs"
    using service_listing [OF svc(1), of False] svc(2) by metis
  then have "pages A k False None None pgs" by (simp add: listing_of_def)
  from read_page_at [OF svc(1) read [unfolded read_page_def] this] obtain pg rest where
    pg: "pgs = pg # rest" "continues A k False None (pg_next page) rest"
      "pg_entries page = filter (after_start None) (pg_entries pg)" "pg_next page = pg_next pg" .
  have e_in: "e \<in> set (entries_of pgs)" using pgs e by (auto simp: listing_of_def listed_def starts_with_iff after_start_def)
  with no pg have rest: "e \<in> set (entries_of rest)" by (simp add: after_start_def)
  then have "pg_next pg \<noteq> None" using pg by (cases "pg_next pg") (auto simp: continues_def)
  moreover have "pg_prefixes pg = []" using pgs pg(1) by (auto simp: listing_of_def prefixes_of_def)
  ultimately obtain x xs where x: "pg_entries pg = x # xs"
    using pgs pg(1) by (cases "pg_entries pg") (auto simp: listing_of_def)
  have "en_key x \<le> k" using pgs rest e(2) by (auto simp: listing_of_def pg(1) x sorted_append)
  moreover have "x \<in> listed objs k False" using pgs by (auto simp: listing_of_def pg(1) x)
  ultimately have "en_key x = en_key e" "x \<in> set objs"
    using starts_with_le [of k "en_key x"] e(2) by (auto simp: listed_def)
  with svc(1) e(1) have "x = e" by (auto simp: service_def serves_def distinct_map dest: inj_onD)
  with no pg(3) x show False by (simp add: after_start_def)
qed


lemma enumerate_pattern_ok:
  assumes svc: "service S A objs" and cs: "cs \<noteq> []" "\<forall>c\<in>set cs. slashless c"
    and wanted: "\<And>key. wanted key \<longleftrightarrow> glob_path cs key"
  shows "run_ok A objs (Some cs) wanted (set objs) (enumerate_pattern S cs refuse concurrency)"
proof (cases "1 \<le> concurrency \<and> concurrency \<le> 256 \<and> sr_ordered S \<and> list_all component_literal cs")
  case True
  then have key: "wanted k \<longleftrightarrow> k = literal_key cs" for k using wanted literal_path [OF cs(1)] by blast
  show ?thesis
  proof (cases "read_page S (literal_key cs) False None")
    case (Inr page)
    obtain pg rest where page: "sampled A (sr_ordered S) objs (literal_key cs) False None page [pg] rest"
      using sampled_first [OF svc _ Inr [unfolded read_page_def]] by blast
    then have sub: "distinct (pg_entries page)" "set (pg_entries page) \<subseteq> set objs"
      by (auto simp: sampled_def listing_of_def listed_def)
    obtain out failed where emit: "emit_all refuse (\<lambda>k. k = literal_key cs) (pg_entries page) [] = (out, failed)"
      by fastforce
    show ?thesis
    proof (cases failed)
      case None
      then have out: "out = filter (\<lambda>e. en_key e = literal_key cs) (pg_entries page)"
        using emit_all_output [OF emit [unfolded None]] by simp
      have "count_list out e = of_bool (e \<in> set objs)" if "en_key e = literal_key cs" for e
        using literal_first_page [OF svc _ Inr, of e] that sub True by (auto simp: out count_filter)
      with True Inr emit None show ?thesis by (auto simp: enumerate_pattern_def key out)
    qed (use True Inr emit in \<open>simp add: enumerate_pattern_def\<close>)
  qed (use True in \<open>simp add: enumerate_pattern_def\<close>)
next
  case False
  have "job_ok A (Some cs) wanted (Discover [] 0 0)" using cs(1) wanted by auto
  moreover have "owed A objs (Discover [] 0 0) = set objs" by (auto simp: listed_def starts_with_iff)
  ultimately show ?thesis using False
    by (auto simp: enumerate_pattern_def enumerate_jobs_def simp del: job_ok.simps owed.simps)
qed

lemma enumerate_prefix_ok:
  assumes "service S A objs"
  shows "run_ok A objs None (\<lambda>_. True) (listed objs prefix False) (enumerate_prefix prefix concurrency)"
  by (auto simp: enumerate_prefix_def enumerate_jobs_def after_start_def)

subsection \<open>A sample service\<close>

text \<open>A bucket whose listings fit in one page.\<close>

definition one_page :: "s3_entry list \<Rightarrow> answers" where
  "one_page objs prefix delimiter token start_after =
     \<lparr>pg_entries = filter (\<lambda>e. starts_with prefix (en_key e) \<and> (delimiter \<longrightarrow> direct prefix e)) objs,
      pg_prefixes = (if delimiter then remdups (List.map_filter (\<lambda>e. common_prefix prefix (en_key e)) objs) else []),
      pg_next = None\<rparr>"

definition one_page_store :: "s3_entry list \<Rightarrow> unit store" where
  "one_page_store objs = \<lparr>sr_ordered = True, sr_page = (\<lambda>p d t sa. Inr (one_page objs p d t sa))\<rparr>"

lemma one_page_service:
  assumes "sorted (map en_key objs)" "distinct (map en_key objs)"
  shows "service (one_page_store objs) (one_page objs) objs"
proof -
  have "listing_of (one_page objs) True objs p d sa [one_page objs p d None sa]" for p d sa
  proof -
    have "pages (one_page objs) p d sa None [one_page objs p d None sa]"
      using pages.last_page [of "one_page objs" p d None sa] by (simp add: one_page_def)
    moreover have "set (List.map_filter (\<lambda>e. common_prefix p (en_key e)) objs) = children objs p"
      by (auto simp: map_filter_def children_def image_iff Bex_def) (metis option.sel)
    ultimately show ?thesis
      using assms by (auto simp: listing_of_def one_page_def prefixes_of_def listed_def distinct_map sorted_filter)
  qed
  with assms(2) show ?thesis by (auto simp: service_def serves_def one_page_store_def)
qed


text \<open>A library that compiles the expression of the pattern \<open>*\<close>.\<close>

definition star_expression :: ustring where
  "star_expression = lit ''(?s)'' @ [92] @ lit ''A'' @ lit ''[^/]*'' @ [92] @ lit ''z''"

definition sample_regex :: "unit regex_library" where
  "sample_regex = \<lparr>re_escape = map (\<lambda>c. c + 2000000),
     re_new = (\<lambda>x. if x = star_expression then Some () else None),
     re_is_match = (\<lambda>_. token_matches [Star])\<rparr>"

lemma sample_regex_documented: "regex_documented sample_regex"
proof -
  have one: "token_expression sample_regex t = x # xs \<Longrightarrow> x \<noteq> of_char (CHR ''*'')" "token_expression sample_regex t \<noteq> []"
    for t x xs
    by (cases t; auto simp: sample_regex_def lit_def)+
  have only: "ts = [Star]" if "pattern_expression sample_regex ts = star_expression" for ts
  proof -
    have eq: "concat (map (token_expression sample_regex) ts) = lit ''[^/]*''"
      using that by (simp add: pattern_expression_def star_expression_def lit_def)
    then obtain t us where t: "ts = t # us" by (cases ts) (auto simp: lit_def)
    show ?thesis
    proof (cases t)
      case Any
      then have "concat (map (token_expression sample_regex) us) = lit ''*''" using eq t by (simp add: lit_def)
      then show ?thesis using one by (cases us; cases "token_expression sample_regex (hd us)") (auto simp: lit_def)
    next
      case Star
      then have "concat (map (token_expression sample_regex) us) = []" using eq t by (simp add: lit_def)
      then show ?thesis using one(2) t Star by (cases us) auto
    qed (use eq t in \<open>auto simp: lit_def sample_regex_def\<close>)
  qed
  have sel: "re_new sample_regex x = (if x = star_expression then Some () else None)"
    "re_is_match sample_regex m = token_matches [Star]" for x m by (simp_all add: sample_regex_def)
  show ?thesis
    unfolding regex_documented_def
  proof (intro allI impI)
    fix ts m key
    assume "re_new sample_regex (pattern_expression sample_regex ts) = Some m"
    then have "ts = [Star]" using only by (simp add: sel split: if_splits)
    then show "re_is_match sample_regex m key \<longleftrightarrow> glob ts key" by (simp add: sel token_matches_glob)
  qed
qed

definition sample_s3_entry :: s3_entry where
  "sample_s3_entry = \<lparr>en_key = [97], en_size = 1, en_last_modified = None, en_etag = None\<rparr>"

definition sample_pattern :: "unit pattern" where
  "sample_pattern = \<lparr>pt_bucket = lit ''b'', pt_components = [[Star]], pt_matcher = ()\<rparr>"

lemma sample_pattern_parse: "pattern_parse sample_regex (lit ''s3://b/*'') = Inr sample_pattern"
  by (simp add: pattern_parse_def sample_pattern_def sample_regex_def pattern_expression_def star_expression_def
      lit_def key_chars starts_with_def)

lemma sample_service: "service (one_page_store [sample_s3_entry]) (one_page [sample_s3_entry]) [sample_s3_entry]"
  by (rule one_page_service) simp_all

text \<open>A run of one job that finds nothing more to do.\<close>

lemma one_job_run:
  assumes "execute S components job False = Some (Inr \<lparr>bt_entries = es, bt_jobs = []\<rparr>)"
  shows "(listing_step S components wanted (\<lambda>_. None) 1)\<^sup>*\<^sup>* (Running [job] {#} []) (Finished (filter (\<lambda>e. wanted (en_key e)) es))"
proof -
  let ?step = "listing_step S components wanted (\<lambda>_. None) 1"
  have all: "emit_all (\<lambda>_. None) wanted es out = (out @ filter (\<lambda>e. wanted (en_key e)) es, None)" for out
    by (induction es arbitrary: out) auto
  have settled: "settle_batch (\<lambda>_. None) wanted [] {#} [] (execute S components job False) =
      Running [] {#} (filter (\<lambda>e. wanted (en_key e)) es)"
    by (simp add: settle_batch_def assms all)
  have "?step (Running [job] {#} []) (Running [] {#(job, False)#} [])"
    using listing_step.launch [of "{#}" 1 S components wanted "\<lambda>_. None" job "[]" "[]"] by simp
  moreover have "?step (Running [] {#(job, False)#} []) (Running [] {#} (filter (\<lambda>e. wanted (en_key e)) es))"
    using listing_step.settle [of 1 job False "{#}" "[]" S components wanted "\<lambda>_. None" "[]"]
    unfolding settled by simp
  ultimately show ?thesis
    by (meson converse_rtranclp_into_rtranclp listing_step.finish r_into_rtranclp)
qed

lemmas sample_execution = execute_def discover_def recursive_def component_recursive_def literal_of_def read_page_def
  read_after_def one_page_store_def one_page_def starts_with_def direct_def sample_s3_entry_def slash_def
  common_prefix_def map_filter_def after_start_def scan_batch_def

lemma sample_listing:
  "(listing_step (one_page_store [sample_s3_entry]) (Some [[Star]]) wanted (\<lambda>_. None) 1)\<^sup>*\<^sup>*
     (enumerate_pattern (one_page_store [sample_s3_entry]) [[Star]] (\<lambda>_. None) 1)
     (Finished (filter (\<lambda>e. wanted (en_key e)) [sample_s3_entry]))"
proof -
  have "skip_literals [[Star]] [] 0 = ([], 0)" by (subst skip_literals.simps) simp
  then have "execute (one_page_store [sample_s3_entry]) (Some [[Star]]) (Discover [] 0 0) False =
      Some (Inr \<lparr>bt_entries = [sample_s3_entry], bt_jobs = []\<rparr>)"
    by (simp add: sample_execution)
  from one_job_run [OF this] show ?thesis
    by (simp add: enumerate_pattern_def enumerate_jobs_def component_literal_def literal_of_def)
qed

lemma sample_prefix_listing:
  "(listing_step (one_page_store [sample_s3_entry]) None wanted (\<lambda>_. None) 1)\<^sup>*\<^sup>* (enumerate_prefix [97] 1)
     (Finished (filter (\<lambda>e. wanted (en_key e)) [sample_s3_entry]))"
proof -
  have "execute (one_page_store [sample_s3_entry]) None (RecursiveJob [97] 0 None) False =
      Some (Inr \<lparr>bt_entries = [sample_s3_entry], bt_jobs = []\<rparr>)"
    by (simp add: sample_execution)
  from one_job_run [OF this] show ?thesis by (simp add: enumerate_prefix_def enumerate_jobs_def)
qed

subsection \<open>The properties\<close>

lemma running_steps:
  assumes "1 \<le> concurrency"
  shows "\<exists>r. listing_step S components wanted refuse concurrency (Running pending active out) r"
proof (cases "pending \<noteq> [] \<and> size active < concurrency")
  case True
  then obtain job rest where "pending = job # rest" by (cases pending) auto
  with True show ?thesis by (auto intro: listing_step.launch)
next
  case False
  show ?thesis
  proof (cases "active = {#}")
    case True
    with False assms show ?thesis by (auto intro: listing_step.finish)
  next
    case nonempty: False
    then obtain j split rest where "active = add_mset (j, split) rest" by (metis multiset_nonemptyE surj_pair mset_add)
    moreover have "concurrency \<le> size active \<or> pending = []" using False by auto
    ultimately show ?thesis using listing_step.settle by metis
  qed
qed

text \<open>Where no step is left a run has ended.\<close>

lemma run_ends:
  assumes "(listing_step S components wanted refuse concurrency)\<^sup>*\<^sup>* r r'" "run_ok A objs components wanted E r'"
    "\<And>pending active out. r = Running pending active out \<Longrightarrow> 1 \<le> concurrency"
    "\<nexists>r''. listing_step S components wanted refuse concurrency r' r''"
  shows "(\<exists>out. r' = Finished out) \<or> (\<exists>x out. r' = Failed x out)"
proof (cases r')
  case (Running pending active out)
  have "\<exists>pending active out. r = Running pending active out"
    using assms(1) Running by (cases rule: converse_rtranclpE) (auto elim: listing_step.cases)
  then have "1 \<le> concurrency" using assms(3) by auto
  from running_steps [OF this] assms(4) show ?thesis unfolding Running by blast
qed (use assms(2) in auto)

text \<open>What a run of a pattern listing keeps.\<close>

lemma pattern_start_ok:
  assumes "service S A objs" "regex_documented R" "pattern_parse R input = Inr P"
  shows "listing_ok S A objs (Some (pt_components P)) (pattern_matches R P) (set objs)
    (enumerate_pattern S (pt_components P) refuse concurrency)"
  using enumerate_pattern_ok [OF assms(1) pattern_parse_ok(1,2,3) [OF assms(3,2)]] pattern_parse_ok(2) [OF assms(3,2)] assms(1)
  by (simp add: listing_ok_def)

text \<open>C14. The matcher of a pattern component decides the pattern: filling one row of the table per
  token gives the same answer as the meaning of the tokens, by which a text matches when it is
  the concatenation of a text for each token.\<close>

theorem matcher_decides_pattern:
  "token_matches ts chars \<longleftrightarrow> (\<exists>parts. list_all2 token_text ts parts \<and> concat parts = chars)"
  by (simp add: token_matches_glob glob_def)



text \<open>C13. A listing of a literal prefix, as copies and removals use it, is exact: no run panics, and a run
  that succeeds has emitted exactly the objects below the prefix, each once.\<close>

theorem prefix_listing_exact:
  assumes "service S A objs"
    "(listing_step S None (\<lambda>_. True) refuse concurrency)\<^sup>*\<^sup>* (enumerate_prefix prefix concurrency) r"
  shows "r \<noteq> Panicked \<and>
    (\<forall>out. r = Finished out \<longrightarrow> mset out = filter_mset (\<lambda>e. starts_with prefix (en_key e)) (mset objs))"
proof -
  have "listing_ok S A objs None (\<lambda>_. True) (listed objs prefix False) r"
    by (rule listing.kept_steps [OF assms(2)]) (simp add: listing_ok_def assms(1) enumerate_prefix_ok [OF assms(1)])
  then have "run_ok A objs None (\<lambda>_. True) (listed objs prefix False) r" by (simp add: listing_ok_def)
  moreover have "distinct objs" using assms(1) by (simp add: service_def serves_def distinct_map)
  ultimately show ?thesis
    using exact_counts [of objs _ "\<lambda>_. True" "\<lambda>e. starts_with prefix (en_key e)"]
    by (cases r) (auto simp: listed_def)
qed

theorem prefix_listing_exact_witness:
  "mset [sample_s3_entry] = filter_mset (\<lambda>e. starts_with [97] (en_key e)) (mset [sample_s3_entry])"
  using prefix_listing_exact [THEN conjunct2, THEN spec, THEN mp, OF sample_service sample_prefix_listing refl]
  by (simp only: filter.simps if_True)



end
