(* ===== verification/Work_Budget.thy ===== *)
theory Work_Budget
  imports Syq_Prelude "HOL-Library.Log_Nat"
begin

section \<open>Service-time budgets of a worker\<close>

text \<open>
  \<open>src/src/transfer/work_budget.rs\<close>: how much work a worker asks for at a time, resized after
  each reply so that a reply takes about as long as the connection's latency allows. A
  \<open>Duration\<close> is a number of nanoseconds up to \<open>Duration::MAX\<close> and an \<open>Instant\<close> is a number of
  nanoseconds of the clock. \<^const>\<open>None\<close> is a panic: \<open>clamp\<close> with its bounds out of order, or a
  power of two past 64 bits.

  A budget is reached when it comes from a new one by the calls of \<open>src/src/transfer/worker.rs\<close>.
  A reached budget never panics and stays within its ceiling; it follows the service it
  observes, and grows back to its ceiling once replies are quick again.
\<close>

type_synonym duration = nat
type_synonym instant = nat

definition duration_max :: duration where
  "duration_max = u64_max * 1000000000 + 999999999"

definition millis :: "nat \<Rightarrow> duration" where
  "millis n = n * 1000000"

definition secs :: "nat \<Rightarrow> duration" where
  "secs n = n * 1000000000"

definition duration_mul :: "duration \<Rightarrow> nat \<Rightarrow> duration" where
  "duration_mul d n = min (d * n) duration_max"

definition u128_max :: nat where
  "u128_max = 2 ^ 128 - 1"

definition next_power_of_two :: "nat \<Rightarrow> nat option" where
  "next_power_of_two n = (let p = 2 ^ floorlog 2 (n - 1) in if p \<le> u64_max then Some p else None)"

definition clamp :: "nat \<Rightarrow> nat \<Rightarrow> nat \<Rightarrow> nat option" where
  "clamp x lo hi = (if lo \<le> hi then Some (max lo (min x hi)) else None)"

subsection \<open>The budget\<close>

record work_size =
  ws_bytes :: nat
  ws_files :: nat

record work_budget =
  wb_limit :: work_size
  wb_max_bytes :: nat
  wb_target :: duration
  wb_recheck_latency :: bool
  wb_ever_slow :: bool
  wb_next_latency_check :: instant
  wb_earliest_latency_check :: instant
  wb_limit_at_check :: work_size

definition DEFAULT_PIPELINE_DEPTH :: nat where
  "DEFAULT_PIPELINE_DEPTH = 4"

text \<open>The two readings of the clock are \<open>now\<close> and \<open>now'\<close>.\<close>

definition budget_default :: "instant \<Rightarrow> instant \<Rightarrow> work_budget" where
  "budget_default now now' =
     \<lparr>wb_limit = \<lparr>ws_bytes = 64 * 1024, ws_files = 64\<rparr>,
      wb_max_bytes = 2 ^ 20,
      wb_target = millis 250,
      wb_recheck_latency = False,
      wb_ever_slow = False,
      wb_next_latency_check = now + secs 30,
      wb_earliest_latency_check = now' + secs 2,
      wb_limit_at_check = \<lparr>ws_bytes = 64 * 1024, ws_files = 64\<rparr>\<rparr>"

definition budget_ranges :: "instant \<Rightarrow> instant \<Rightarrow> nat \<Rightarrow> duration \<Rightarrow> nat option \<Rightarrow> work_budget" where
  "budget_ranges now now' max_bytes target starting_bytes =
     (let limit = \<lparr>ws_bytes = min (max (case starting_bytes of None \<Rightarrow> 2 ^ 20 | Some n \<Rightarrow> n) 512) max_bytes, ws_files = 0\<rparr>
      in (budget_default now now')
           \<lparr>wb_limit := limit, wb_max_bytes := max_bytes, wb_target := target, wb_limit_at_check := limit\<rparr>)"

definition request_bytes :: "work_budget \<Rightarrow> nat option" where
  "request_bytes b =
     map_option (\<lambda>p. min p (wb_max_bytes b)) (next_power_of_two (max (ws_bytes (wb_limit b)) 512))"

definition latency_check_due :: "work_budget \<Rightarrow> instant \<Rightarrow> bool" where
  "latency_check_due b now =
     (let shrunk = sat_mul (ws_bytes (wb_limit b)) 2 < ws_bytes (wb_limit_at_check b) \<or>
            sat_mul (ws_files (wb_limit b)) 2 < ws_files (wb_limit_at_check b)
      in (now \<ge> wb_next_latency_check b \<and> (wb_recheck_latency b \<or> wb_target b > millis 250)) \<or>
         (now \<ge> wb_earliest_latency_check b \<and> wb_recheck_latency b \<and> shrunk))"

definition range_latency_check_due :: "work_budget \<Rightarrow> instant \<Rightarrow> bool option" where
  "range_latency_check_due b now =
     (if wb_ever_slow b then Some (latency_check_due b now)
      else map_option (\<lambda>r. r < wb_max_bytes b \<and> latency_check_due b now) (request_bytes b))"

definition set_latency :: "duration \<Rightarrow> work_budget \<Rightarrow> work_budget" where
  "set_latency round_trip b =
     b\<lparr>wb_target := max (millis 250) (duration_mul round_trip DEFAULT_PIPELINE_DEPTH)\<rparr>"

definition refreshed_latency :: "duration \<Rightarrow> instant \<Rightarrow> work_budget \<Rightarrow> work_budget" where
  "refreshed_latency round_trip now b =
     (let previous = wb_target b;
          periodic = now \<ge> wb_next_latency_check b;
          b = set_latency round_trip b;
          b = (if periodic then b else b\<lparr>wb_target := max (wb_target b) previous\<rparr>)
      in b\<lparr>wb_recheck_latency := False,
           wb_limit_at_check := wb_limit b,
           wb_earliest_latency_check := now + min (max (secs 2) (duration_mul round_trip 8)) (secs 300),
           wb_next_latency_check := now + min (max (secs 30) (duration_mul round_trip 32)) (secs 300)\<rparr>)"

definition overdue :: "work_budget \<Rightarrow> instant \<Rightarrow> instant option \<Rightarrow> bool" where
  "overdue b now oldest =
     (case oldest of None \<Rightarrow> False | Some start \<Rightarrow> now - start > duration_mul (wb_target b) 2)"

definition resized :: "nat \<Rightarrow> nat \<Rightarrow> nat \<Rightarrow> nat \<Rightarrow> nat option" where
  "resized current amount elapsed target =
     (if amount = 0 then Some current
      else do {
        let measured = (if elapsed > target then max amount current else amount);
        estimate \<leftarrow> clamp (min (measured * target) u128_max div elapsed) 1 (sat_mul current 4);
        Some (if elapsed \<le> target then max estimate current else min estimate current)
      })"

definition budget_observe :: "work_size \<Rightarrow> duration \<Rightarrow> work_budget \<Rightarrow> work_budget option" where
  "budget_observe work elapsed b = do {
     let recheck = wb_recheck_latency b \<or> elapsed > wb_target b;
     let slow = wb_ever_slow b \<or> recheck;
     let elapsed = max elapsed 1000;
     let target = wb_target b;
     bytes \<leftarrow> resized (ws_bytes (wb_limit b)) (ws_bytes work) elapsed target;
     files \<leftarrow> resized (ws_files (wb_limit b)) (ws_files work) elapsed target;
     Some (b\<lparr>wb_recheck_latency := recheck, wb_ever_slow := slow,
             wb_limit := \<lparr>ws_bytes = min bytes (wb_max_bytes b), ws_files = min files 2048\<rparr>\<rparr>)
   }"

text \<open>The least range another worker may take from one whose requests are of \<open>request\<close> bytes.\<close>

definition range_split_minimum :: "nat \<Rightarrow> nat \<Rightarrow> nat \<Rightarrow> nat" where
  "range_split_minimum request block min_split =
     (if request = block then min_split else min (sat_mul request 2) min_split)"

subsection \<open>One step\<close>

lemma next_power_of_two_ok:
  assumes "1 \<le> n" "n \<le> 2 ^ 63"
  obtains k where "next_power_of_two n = Some (2 ^ k)" "n \<le> 2 ^ k" "2 ^ k < 2 * n"
proof -
  let ?k = "floorlog 2 (n - 1)"
  have "n \<le> 2 ^ ?k \<and> 2 ^ ?k < 2 * n"
  proof (cases "n = 1")
    case False
    then have "2 ^ (?k - 1) \<le> n - 1" "n - 1 < 2 ^ ?k" "0 < ?k"
      using floorlog_bounds [of "n - 1" 2] assms(1) by (auto simp: floorlog_def)
    moreover have "(2::nat) ^ ?k = 2 * 2 ^ (?k - 1)" using \<open>0 < ?k\<close> by (metis power_eq_if neq0_conv)
    ultimately show ?thesis by linarith
  qed (simp add: floorlog_def)
  then have "n \<le> 2 ^ ?k" "2 ^ ?k < 2 * n" "(2::nat) ^ ?k < 2 ^ 64" using assms(2) by auto
  then show ?thesis by (intro that [of ?k]) (simp_all add: next_power_of_two_def u64_max_def Let_def)
qed

lemma resized_ok:
  assumes "1 \<le> current \<or> amount = 0" "current \<le> u64_max"
  obtains n where "resized current amount elapsed target = Some n" "n \<le> sat_mul current 4" "1 \<le> current \<longrightarrow> 1 \<le> n"
    "elapsed \<le> target \<longrightarrow> current \<le> n" "target < elapsed \<longrightarrow> n \<le> current" "amount = 0 \<longrightarrow> n = current"
proof (cases "amount = 0")
  case False
  define measured where "measured = (if elapsed > target then max amount current else amount)"
  define estimate where "estimate = max 1 (min (min (measured * target) u128_max div elapsed) (sat_mul current 4))"
  have fits: "current \<le> sat_mul current 4" "1 \<le> sat_mul current 4"
    using assms False by (auto simp: sat_mul_def u64_max_def)
  then have "resized current amount elapsed target =
      Some (if elapsed \<le> target then max estimate current else min estimate current)"
    using False by (simp add: resized_def clamp_def estimate_def measured_def Let_def)
  moreover have "1 \<le> estimate" "estimate \<le> sat_mul current 4" using fits by (auto simp: estimate_def)
  ultimately show ?thesis using fits False assms(1) 
    by (intro that [of "if elapsed \<le> target then max estimate current else min estimate current"]) auto
qed (use assms that in \<open>auto simp: resized_def sat_mul_def\<close>)

lemma resized_bounds:
  assumes "resized current amount elapsed target = Some n" "1 \<le> current \<or> amount = 0" "current \<le> u64_max"
  shows "n \<le> sat_mul current 4" "1 \<le> current \<longrightarrow> 1 \<le> n" "elapsed \<le> target \<longrightarrow> current \<le> n"
    "target < elapsed \<longrightarrow> n \<le> current" "amount = 0 \<longrightarrow> n = current"
  using resized_ok [OF assms(2,3), of elapsed target] assms(1) by (metis option.inject)+

subsection \<open>The budgets a worker reaches\<close>

text \<open>The flag tells the budget of batches of files from a budget of ranges, which counts no files.\<close>

inductive budget_reached :: "bool \<Rightarrow> work_budget \<Rightarrow> bool" where
  batches: "budget_reached True (budget_default now now')"
| ranges: "budget_reached True c \<Longrightarrow> 1 \<le> block \<Longrightarrow> block \<le> 2 ^ 63 \<Longrightarrow>
    budget_reached False (budget_ranges now now' block (wb_target c) starting_bytes)"
| observed: "budget_reached files b \<Longrightarrow> (ws_files work = 0 \<or> files) \<Longrightarrow> budget_observe work elapsed b = Some b' \<Longrightarrow>
    budget_reached files b'"
| latency: "budget_reached files b \<Longrightarrow> budget_reached files (set_latency round_trip b)"
| refreshed: "budget_reached files b \<Longrightarrow> budget_reached files (refreshed_latency round_trip now b)"

definition budget_ok :: "bool \<Rightarrow> work_budget \<Rightarrow> bool" where
  "budget_ok files b \<longleftrightarrow>
     1 \<le> ws_bytes (wb_limit b) \<and> ws_bytes (wb_limit b) \<le> wb_max_bytes b \<and> wb_max_bytes b \<le> 2 ^ 63 \<and>
     ws_files (wb_limit b) \<le> 2048 \<and> (if files then 1 \<le> ws_files (wb_limit b) else ws_files (wb_limit b) = 0) \<and>
     millis 250 \<le> wb_target b"

lemma observe_Some:
  "budget_observe work elapsed b = Some b' \<longleftrightarrow>
     (\<exists>m n. resized (ws_bytes (wb_limit b)) (ws_bytes work) (max elapsed 1000) (wb_target b) = Some m \<and>
        resized (ws_files (wb_limit b)) (ws_files work) (max elapsed 1000) (wb_target b) = Some n \<and>
        b' = b\<lparr>wb_recheck_latency := wb_recheck_latency b \<or> elapsed > wb_target b,
               wb_ever_slow := wb_ever_slow b \<or> wb_recheck_latency b \<or> elapsed > wb_target b,
               wb_limit := \<lparr>ws_bytes = min m (wb_max_bytes b), ws_files = min n 2048\<rparr>\<rparr>)"
  by (auto simp: budget_observe_def Let_def bind_eq_Some_conv)

lemma sizes_small:
  assumes "budget_ok files b" "ws_files work = 0 \<or> files"
  shows "1 \<le> ws_bytes (wb_limit b) \<or> ws_bytes work = 0" "ws_bytes (wb_limit b) \<le> u64_max"
    "1 \<le> ws_files (wb_limit b) \<or> ws_files work = 0" "ws_files (wb_limit b) \<le> u64_max"
  using assms by (auto simp: budget_ok_def u64_max_def split: if_splits)

lemma observe_returns:
  assumes "budget_ok files b" "ws_files work = 0 \<or> files"
  shows "\<exists>b'. budget_observe work elapsed b = Some b'"
proof -
  note small = sizes_small [OF assms]
  obtain m where "resized (ws_bytes (wb_limit b)) (ws_bytes work) (max elapsed 1000) (wb_target b) = Some m"
    using resized_ok [OF small(1,2)] by blast
  moreover obtain n where "resized (ws_files (wb_limit b)) (ws_files work) (max elapsed 1000) (wb_target b) = Some n"
    using resized_ok [OF small(3,4)] by blast
  ultimately show ?thesis by (auto simp: observe_Some)
qed

lemma observe_keeps:
  assumes "budget_ok files b" "ws_files work = 0 \<or> files" "budget_observe work elapsed b = Some b'"
  shows "budget_ok files b'"
proof -
  note small = sizes_small [OF assms(1,2)]
  from assms(3) obtain m n where
    m: "resized (ws_bytes (wb_limit b)) (ws_bytes work) (max elapsed 1000) (wb_target b) = Some m" and
    n: "resized (ws_files (wb_limit b)) (ws_files work) (max elapsed 1000) (wb_target b) = Some n" and
    b': "wb_limit b' = \<lparr>ws_bytes = min m (wb_max_bytes b), ws_files = min n 2048\<rparr>"
      "wb_max_bytes b' = wb_max_bytes b" "wb_target b' = wb_target b"
    by (auto simp: observe_Some)
  have "1 \<le> m" using resized_bounds(2) [OF m small(1,2)] assms(1) by (simp add: budget_ok_def)
  moreover have "if files then 1 \<le> n else n = 0"
    using resized_bounds(2,5) [OF n small(3,4)] assms(1,2) by (auto simp: budget_ok_def split: if_splits)
  ultimately show ?thesis using assms(1) b' by (auto simp: budget_ok_def)
qed

lemma reached_ok: "budget_reached files b \<Longrightarrow> budget_ok files b"
proof (induction rule: budget_reached.induct)
  case (observed files b work elapsed b')
  then show ?case using observe_keeps by blast
qed (auto simp: budget_ok_def budget_default_def budget_ranges_def set_latency_def refreshed_latency_def Let_def
    split: option.split)

subsection \<open>Properties\<close>

lemma request_ok:
  assumes "budget_ok files b"
  shows "\<exists>r. request_bytes b = Some r \<and> ws_bytes (wb_limit b) \<le> r \<and> min 512 (wb_max_bytes b) \<le> r \<and> r \<le> wb_max_bytes b"
proof -
  have "1 \<le> max (ws_bytes (wb_limit b)) 512" "max (ws_bytes (wb_limit b)) 512 \<le> 2 ^ 63"
    using assms by (auto simp: budget_ok_def)
  then obtain k where "next_power_of_two (max (ws_bytes (wb_limit b)) 512) = Some (2 ^ k)"
      "max (ws_bytes (wb_limit b)) 512 \<le> 2 ^ k"
    by (rule next_power_of_two_ok)
  then show ?thesis using assms by (auto simp: request_bytes_def budget_ok_def)
qed

lemma resized_late:
  assumes m: "resized current amount elapsed target = Some m" and late: "target < elapsed"
    and amount: "1 \<le> amount" "amount \<le> current" "current \<le> u64_max"
  shows "m = max 1 (min (current * target) u128_max div elapsed)"
proof -
  have "min (current * target) u128_max div elapsed \<le> current * elapsed div elapsed"
    using late by (intro div_le_mono min.coboundedI1 mult_le_mono2) simp
  then have "min (current * target) u128_max div elapsed \<le> current" using late by simp
  moreover have "current \<le> sat_mul current 4" using amount(3) by (simp add: sat_mul_def)
  ultimately show ?thesis
    using m late amount by (auto simp: resized_def clamp_def Let_def max_absorb2 min_absorb1)
qed

text \<open>C31. A worker's budget follows the service it sees. Observing a reply never panics; a reply
  within the target never lowers the budget and raises it at most fourfold, a late one never
  raises it, and a late reply to a request no larger than the budget scales the budget by the
  ratio of the target to the time taken. The next request is between 512 bytes and the ceiling.\<close>

theorem work_budget_follows_service:
  assumes "budget_reached files b" "ws_files work = 0 \<or> files"
  shows "\<exists>b' r. budget_observe work elapsed b = Some b' \<and> request_bytes b' = Some r \<and>
    min 512 (wb_max_bytes b) \<le> r \<and> r \<le> wb_max_bytes b \<and>
    (if elapsed \<le> wb_target b
     then ws_bytes (wb_limit b) \<le> ws_bytes (wb_limit b') \<and> ws_bytes (wb_limit b') \<le> 4 * ws_bytes (wb_limit b) \<and>
       ws_files (wb_limit b) \<le> ws_files (wb_limit b') \<and> ws_files (wb_limit b') \<le> 4 * ws_files (wb_limit b)
     else ws_bytes (wb_limit b') \<le> ws_bytes (wb_limit b) \<and> ws_files (wb_limit b') \<le> ws_files (wb_limit b) \<and>
       (1 \<le> ws_bytes work \<and> ws_bytes work \<le> ws_bytes (wb_limit b) \<longrightarrow>
          ws_bytes (wb_limit b') = max 1 (min (ws_bytes (wb_limit b) * wb_target b) u128_max div elapsed)))"
proof -
  note ok = reached_ok [OF assms(1)]
  note small = sizes_small [OF ok assms(2)]
  obtain b' where b': "budget_observe work elapsed b = Some b'" using observe_returns [OF ok assms(2)] by blast
  then obtain m n where
    m: "resized (ws_bytes (wb_limit b)) (ws_bytes work) (max elapsed 1000) (wb_target b) = Some m" and
    n: "resized (ws_files (wb_limit b)) (ws_files work) (max elapsed 1000) (wb_target b) = Some n" and
    lim: "wb_limit b' = \<lparr>ws_bytes = min m (wb_max_bytes b), ws_files = min n 2048\<rparr>" "wb_max_bytes b' = wb_max_bytes b"
    by (auto simp: observe_Some)
  have in_time: "max elapsed 1000 \<le> wb_target b \<longleftrightarrow> elapsed \<le> wb_target b"
    using ok by (auto simp: budget_ok_def millis_def)
  have below: "ws_bytes (wb_limit b) \<le> wb_max_bytes b" "ws_files (wb_limit b) \<le> 2048" using ok by (simp_all add: budget_ok_def)
  have grown: "m \<le> 4 * ws_bytes (wb_limit b)" "n \<le> 4 * ws_files (wb_limit b)"
    using resized_bounds(1) [OF m small(1,2)] resized_bounds(1) [OF n small(3,4)] by (auto simp: sat_mul_def)
  note m' = resized_bounds(3,4) [OF m small(1,2)] and n' = resized_bounds(3,4) [OF n small(3,4)]
  obtain r where r: "request_bytes b' = Some r" "min 512 (wb_max_bytes b) \<le> r" "r \<le> wb_max_bytes b"
    using request_ok [OF observe_keeps [OF ok assms(2) b']] lim(2) by auto
  show ?thesis
  proof (cases "elapsed \<le> wb_target b")
    case True
    with m' n' in_time have "ws_bytes (wb_limit b) \<le> m" "ws_files (wb_limit b) \<le> n" by simp_all
    with True show ?thesis using b' lim(1) grown r below by (intro exI [of _ b'] exI [of _ r]) (simp add: min.coboundedI1)
  next
    case False
    then have slow: "wb_target b < elapsed" "max elapsed 1000 = elapsed"
      using ok by (auto simp: budget_ok_def millis_def)
    with m' n' have shrunk: "m \<le> ws_bytes (wb_limit b)" "n \<le> ws_files (wb_limit b)" by simp_all
    have "m = max 1 (min (ws_bytes (wb_limit b) * wb_target b) u128_max div elapsed)"
      if "1 \<le> ws_bytes work" "ws_bytes work \<le> ws_bytes (wb_limit b)"
      using resized_late [OF m [unfolded slow(2)] slow(1) that small(2)] .
    moreover have "min m (wb_max_bytes b) = m" "min n 2048 = n" using shrunk below by simp_all
    ultimately show ?thesis using False shrunk b' lim(1) r by (intro exI [of _ b'] exI [of _ r]) simp
  qed
qed

theorem work_budget_follows_service_witness:
  "\<exists>b'. budget_observe \<lparr>ws_bytes = 1, ws_files = 1\<rparr> (secs 1) (budget_default 0 0) = Some b' \<and>
     ws_bytes (wb_limit b') = 16384"
  using work_budget_follows_service [OF batches, of "\<lparr>ws_bytes = 1, ws_files = 1\<rparr>" "secs 1" 0 0]
  by (auto simp: budget_default_def secs_def millis_def u128_max_def)

text \<open>Replies to \<open>n\<close> full requests, each after the time \<open>elapsed\<close>.\<close>

primrec full_replies :: "nat \<Rightarrow> duration \<Rightarrow> work_budget \<Rightarrow> work_budget option" where
  "full_replies 0 elapsed b = Some b"
| "full_replies (Suc n) elapsed b = Option.bind (budget_observe (wb_limit b) elapsed b) (full_replies n elapsed)"

lemma quick_reply:
  assumes ok: "budget_ok files b" and quick: "4 * max elapsed 1000 \<le> wb_target b" "wb_target b \<le> u64_max"
  obtains b' where "budget_observe (wb_limit b) elapsed b = Some b'" "budget_ok files b'" "wb_target b' = wb_target b"
    "wb_max_bytes b' = wb_max_bytes b" "ws_bytes (wb_limit b') = min (4 * ws_bytes (wb_limit b)) (wb_max_bytes b)"
proof -
  let ?c = "ws_bytes (wb_limit b)" and ?e = "max elapsed 1000"
  have work: "ws_files (wb_limit b) = 0 \<or> files" using ok by (auto simp: budget_ok_def)
  obtain b' where b': "budget_observe (wb_limit b) elapsed b = Some b'" using observe_returns [OF ok work] by blast
  have c: "1 \<le> ?c" "?c \<le> 2 ^ 63" "wb_max_bytes b \<le> 2 ^ 63" using ok by (auto simp: budget_ok_def)
  have "?c * wb_target b \<le> 2 ^ 63 * u64_max" by (rule mult_le_mono [OF c(2) quick(2)])
  then have fits: "?c * wb_target b \<le> u128_max" by (simp add: u128_max_def u64_max_def)
  have "4 * ?c \<le> ?c * wb_target b div ?e"
  proof -
    have "4 * ?c * ?e \<le> ?c * wb_target b" using mult_le_mono2 [OF quick(1), of ?c] by (simp add: mult.commute mult.left_commute)
    then show ?thesis by (simp add: less_eq_div_iff_mult_less_eq)
  qed
  then have "resized ?c ?c ?e (wb_target b) = Some (sat_mul ?c 4)"
    using fits c quick(1) by (auto simp: resized_def clamp_def Let_def sat_mul_def u64_max_def)
  then have "ws_bytes (wb_limit b') = min (4 * ?c) (wb_max_bytes b)"
    using b' c by (auto simp: observe_Some sat_mul_def u64_max_def)
  then show ?thesis using b' observe_keeps [OF ok work b'] by (intro that [of b']) (auto simp: observe_Some)
qed

lemma quick_replies:
  assumes "budget_ok files b" "4 * max elapsed 1000 \<le> wb_target b" "wb_target b \<le> u64_max"
  shows "\<exists>b'. full_replies n elapsed b = Some b' \<and>
    ws_bytes (wb_limit b') = min (4 ^ n * ws_bytes (wb_limit b)) (wb_max_bytes b)"
  using assms
proof (induction n arbitrary: b)
  case (Suc n)
  from Suc.prems obtain c where c: "budget_observe (wb_limit b) elapsed b = Some c" "budget_ok files c"
    "wb_target c = wb_target b" "wb_max_bytes c = wb_max_bytes b"
    "ws_bytes (wb_limit c) = min (4 * ws_bytes (wb_limit b)) (wb_max_bytes b)" by (rule quick_reply)
  with Suc.IH [of c] Suc.prems obtain b' where "full_replies n elapsed c = Some b'"
    "ws_bytes (wb_limit b') = min (4 ^ n * min (4 * ws_bytes (wb_limit b)) (wb_max_bytes b)) (wb_max_bytes b)" by auto
  moreover have "min (4 ^ n * min (4 * x) y) y = min (4 ^ Suc n * x) y" for x y :: nat
  proof (cases "4 * x \<le> y")
    case False
    have grow: "z \<le> 4 ^ n * z" for z :: nat by simp
    with False have "y \<le> 4 ^ n * (4 * x)" by (meson nat_le_linear order_trans)
    with False grow [of y] show ?thesis by (simp add: mult.assoc mult.left_commute)
  qed (simp add: mult.assoc mult.left_commute)
  ultimately show ?case using c(1) by simp
qed (simp add: budget_ok_def)



end
