(* ===== verification/Sparse_Write.thy ===== *)
theory Sparse_Write
  imports Syq_Prelude "HOL-Library.Word"
begin

section \<open>Sparse writes\<close>

text \<open>
  \<open>src/src/sparse.rs\<close> as it is built for Linux: a write that leaves blocks of zeros out of the
  file, and punches holes where the file had data before. A file is the list of its bytes; the
  system calls are a parameter, a \<open>file_calls\<close> record, and a call that reports success does what
  its manual says (\<open>calls_documented\<close>). \<open>i64_max\<close> is the greatest offset of a file.

  A sparse write that succeeds leaves the file as a plain write would, up to zeros the file lacks
  at its end, and it fails only when its end is out of range or when a system call fails.
\<close>

type_synonym file_bytes = "8 word list"

datatype io_error = EFBIG | CallFailed nat

definition i64_max :: nat where
  "i64_max = 2 ^ 63 - 1"

subsection \<open>Calls on a file\<close>

record file_calls =
  write_all_at :: "file_bytes \<Rightarrow> nat \<Rightarrow> file_bytes \<Rightarrow> io_error + file_bytes"
  fallocate_punch :: "file_bytes \<Rightarrow> nat \<Rightarrow> nat \<Rightarrow> io_error + file_bytes"

definition set_len :: "nat \<Rightarrow> file_bytes \<Rightarrow> file_bytes" where
  "set_len n f = take n f @ replicate (n - length f) 0"

definition write_bytes :: "file_bytes \<Rightarrow> nat \<Rightarrow> file_bytes \<Rightarrow> file_bytes" where
  "write_bytes f offset data =
     (if data = [] then f else set_len offset f @ data @ drop (offset + length data) f)"

definition punch_bytes :: "file_bytes \<Rightarrow> nat \<Rightarrow> nat \<Rightarrow> file_bytes" where
  "punch_bytes f offset n = take offset f @ replicate (min n (length f - offset)) 0 @ drop (offset + n) f"

definition calls_documented :: "file_calls \<Rightarrow> bool" where
  "calls_documented C \<longleftrightarrow>
     (\<forall>f offset data f'. write_all_at C f offset data = Inr f' \<longrightarrow> f' = write_bytes f offset data) \<and>
     (\<forall>f offset n f'. fallocate_punch C f offset n = Inr f' \<longrightarrow> f' = punch_bytes f offset n)"

subsection \<open>The write\<close>

definition block_size :: nat where
  "block_size = 4096"

definition punch :: "file_calls \<Rightarrow> file_bytes \<Rightarrow> nat \<Rightarrow> nat \<Rightarrow> io_error + file_bytes" where
  "punch C f offset n =
     (if offset > i64_max then Inl EFBIG else if n > i64_max then Inl EFBIG else fallocate_punch C f offset n)"

definition zeros :: "file_bytes \<Rightarrow> nat \<Rightarrow> nat \<Rightarrow> bool" where
  "zeros data cursor n = list_all (\<lambda>b. b = 0) (take n (drop cursor data))"

text \<open>The end of a hole that has reached \<open>cursor\<close>.\<close>

function hole_end :: "bool \<Rightarrow> file_bytes \<Rightarrow> nat \<Rightarrow> nat" where
  "hole_end clear_existing data cursor =
     (if cursor < length data then
        (let n = min block_size (length data - cursor) in
         if (clear_existing \<and> n \<noteq> block_size) \<or> \<not> zeros data cursor n then cursor
         else hole_end clear_existing data (cursor + n))
      else cursor)"
  by pat_completeness auto
termination
  by (relation "measure (\<lambda>(_, data, cursor). length data - cursor)") (auto simp: block_size_def)

declare hole_end.simps [simp del]

lemma hole_end_le: "cursor \<le> hole_end clear_existing data cursor"
proof (induction clear_existing data cursor rule: hole_end.induct)
  case (1 clear_existing data cursor)
  then show ?case
    by (subst hole_end.simps) (auto simp: Let_def intro: order_trans [OF le_add1])
qed

definition block_rest :: "nat \<Rightarrow> file_bytes \<Rightarrow> nat \<Rightarrow> nat" where
  "block_rest offset data cursor = min (block_size - (offset + cursor) mod block_size) (length data - cursor)"

lemma block_rest_pos: "cursor < length data \<Longrightarrow> 0 < block_rest offset data cursor"
  by (simp add: block_rest_def block_size_def)

function write_loop ::
  "file_calls \<Rightarrow> bool \<Rightarrow> nat \<Rightarrow> file_bytes \<Rightarrow> nat \<Rightarrow> nat \<Rightarrow> file_bytes \<Rightarrow> io_error + file_bytes" where
  "write_loop C clear_existing offset data cursor written f =
     (if cursor < length data then
        (let absolute = offset + cursor;
             n = block_rest offset data cursor;
             hole = (\<not> clear_existing \<or> (absolute mod block_size = 0 \<and> n = block_size)) \<and> zeros data cursor n
         in if \<not> hole then write_loop C clear_existing offset data (cursor + n) written f
            else and_then (write_all_at C f (offset + written) (drop written (take cursor data))) (\<lambda>f.
              let start = cursor; cursor = hole_end clear_existing data (cursor + n) in
              and_then (if clear_existing then punch C f (offset + start) (cursor - start) else Inr f)
                (write_loop C clear_existing offset data cursor cursor)))
      else write_all_at C f (offset + written) (drop written data))"
  by pat_completeness auto
termination
proof (relation "measure (\<lambda>(_, _, _, data, cursor, _). length data - cursor)", goal_cases)
  case (2 C clear_existing offset data cursor written f absolute n hole)
  then show ?case using block_rest_pos [of cursor data offset] by simp
next
  case (3 C clear_existing offset data cursor written f absolute n hole f' start cursor' f'')
  then show ?case
    using block_rest_pos [of cursor data offset] hole_end_le [of "cursor + n" clear_existing data] by auto
qed simp

declare write_loop.simps [simp del]

definition sparse_write_at ::
  "file_calls \<Rightarrow> file_bytes \<Rightarrow> file_bytes \<Rightarrow> nat \<Rightarrow> bool \<Rightarrow> io_error + file_bytes" where
  "sparse_write_at C f data offset clear_existing =
     (case uadd offset (length data) of
        None \<Rightarrow> Inl EFBIG
      | Some end_at \<Rightarrow>
          if end_at > i64_max then Inl EFBIG
          else write_loop C clear_existing offset data 0 0 f)"

subsection \<open>What a file holds\<close>

text \<open>The byte at a place of a file, zero past its end, and the file with a range of it replaced.\<close>

definition content :: "file_bytes \<Rightarrow> nat \<Rightarrow> 8 word" where
  "content f p = (if p < length f then f ! p else 0)"

definition patched :: "file_bytes \<Rightarrow> nat \<Rightarrow> file_bytes \<Rightarrow> nat \<Rightarrow> nat \<Rightarrow> 8 word" where
  "patched g offset data n p = (if offset \<le> p \<and> p < offset + n then data ! (p - offset) else content g p)"

lemma length_set_len [simp]: "length (set_len n f) = n"
  by (simp add: set_len_def)

lemma set_len_nth: "p < n \<Longrightarrow> set_len n f ! p = content f p"
  by (auto simp: set_len_def content_def nth_append)

lemma set_len_content: "set_len n f = map (content f) [0..<n]"
  by (intro nth_equalityI) (simp_all add: set_len_nth)

lemma length_write_bytes: "length (write_bytes f offset data) = (if data = [] then length f else max (length f) (offset + length data))"
  by (simp add: write_bytes_def max_def)

lemma length_punch_bytes: "length (punch_bytes f offset n) = length f"
  by (auto simp: punch_bytes_def)

lemma content_write_bytes: "content (write_bytes f offset data) = patched f offset data (length data)"
proof
  fix p
  show "content (write_bytes f offset data) p = patched f offset data (length data) p"
  proof (cases "data = []")
    case False
    then show ?thesis
      by (auto simp: write_bytes_def content_def patched_def nth_append set_len_nth not_less)
  qed (auto simp: write_bytes_def patched_def)
qed

lemma content_punch_bytes: "content (punch_bytes f offset n) p = (if offset \<le> p \<and> p < offset + n then 0 else content f p)"
  by (auto simp: punch_bytes_def content_def nth_append min_def)

lemma zeros_nth: "zeros data cursor n \<Longrightarrow> cursor \<le> p \<Longrightarrow> p < cursor + n \<Longrightarrow> p < length data \<Longrightarrow> data ! p = 0"
  by (auto simp: zeros_def list_all_length dest!: spec [of _ "p - cursor"])

lemma hole_end_zero:
  assumes "cursor \<le> length data"
  shows "hole_end clear_existing data cursor \<le> length data \<and>
    (\<forall>p. cursor \<le> p \<and> p < hole_end clear_existing data cursor \<longrightarrow> data ! p = 0)"
  using assms
proof (induction clear_existing data cursor rule: hole_end.induct)
  case (1 clear_existing data cursor)
  show ?case
  proof (cases "cursor < length data \<and> \<not> (clear_existing \<and> min block_size (length data - cursor) \<noteq> block_size)
      \<and> zeros data cursor (min block_size (length data - cursor))")
    case True
    let ?n = "min block_size (length data - cursor)"
    have step: "hole_end clear_existing data cursor = hole_end clear_existing data (cursor + ?n)"
      using True by (subst hole_end.simps) (auto simp: Let_def)
    have "hole_end clear_existing data (cursor + ?n) \<le> length data \<and>
        (\<forall>p. cursor + ?n \<le> p \<and> p < hole_end clear_existing data (cursor + ?n) \<longrightarrow> data ! p = 0)"
      using True by (intro "1.IH") auto
    moreover have "data ! p = 0" if "cursor \<le> p" "p < cursor + ?n" for p
      using zeros_nth [of data cursor ?n p] True that by auto
    ultimately show ?thesis unfolding step by (metis not_le)
  next
    case False
    then have "hole_end clear_existing data cursor = cursor" by (subst hole_end.simps) (auto simp: Let_def)
    with "1.prems" show ?thesis by auto
  qed
qed

subsection \<open>The loop\<close>

text \<open>What the loop has done when it has dealt with the first \<open>n\<close> bytes of \<open>data\<close>.\<close>

definition written_to :: "file_bytes \<Rightarrow> nat \<Rightarrow> file_bytes \<Rightarrow> nat \<Rightarrow> file_bytes \<Rightarrow> bool" where
  "written_to g offset data n f \<longleftrightarrow>
     content f = patched g offset data n \<and> length g \<le> length f \<and> length f \<le> max (length g) (offset + n)"

lemma written_segment:
  assumes "calls_documented C" "written_to g offset data m f" "m \<le> n" "n \<le> length data"
    "write_all_at C f (offset + m) (drop m (take n data)) = Inr f'"
  shows "written_to g offset data n f'"
proof -
  have f': "f' = write_bytes f (offset + m) (drop m (take n data))" using assms(1,5) by (auto simp: calls_documented_def)
  have "content f' = patched g offset data n"
    using assms(2-4) by (auto simp: f' content_write_bytes written_to_def patched_def fun_eq_iff)
  moreover have "length g \<le> length f' \<and> length f' \<le> max (length g) (offset + n)"
    using assms(2-4) by (auto simp: f' length_write_bytes written_to_def)
  ultimately show ?thesis by (simp add: written_to_def)
qed

lemma written_hole:
  assumes "calls_documented C" "written_to g offset data m f" "m \<le> n"
    and zero: "\<And>p. m \<le> p \<Longrightarrow> p < n \<Longrightarrow> data ! p = 0"
    and old: "clear_existing \<or> (\<forall>p. offset + m \<le> p \<and> p < offset + n \<longrightarrow> content g p = 0)"
    and f': "(if clear_existing then punch C f (offset + m) (n - m) else Inr f) = Inr f'"
  shows "written_to g offset data n f'"
proof (cases clear_existing)
  case True
  then have "f' = punch_bytes f (offset + m) (n - m)"
    using f' assms(1) by (auto simp: punch_def calls_documented_def split: if_splits)
  then show ?thesis
    using assms(2,3) zero by (auto simp: written_to_def fun_eq_iff content_punch_bytes length_punch_bytes patched_def)
next
  case False
  then show ?thesis using assms(2,3) zero old f' by (auto simp: written_to_def fun_eq_iff patched_def)
qed

lemma write_loop_ok:
  assumes "calls_documented C" "written_to g offset data written f" "written \<le> cursor" "cursor \<le> length data"
    "clear_existing \<or> (\<forall>p. offset \<le> p \<and> p < offset + length data \<longrightarrow> content g p = 0)"
    "write_loop C clear_existing offset data cursor written f = Inr f'"
  shows "written_to g offset data (length data) f'"
  using assms
proof (induction C clear_existing offset data cursor written f rule: write_loop.induct)
  case (1 C clear_existing offset data cursor written f)
  let ?n = "block_rest offset data cursor"
  let ?hole = "(\<not> clear_existing \<or> ((offset + cursor) mod block_size = 0 \<and> ?n = block_size)) \<and> zeros data cursor ?n"
  have n: "cursor + ?n \<le> length data" using "1.prems"(4) by (simp add: block_rest_def)
  note loop = "1.prems"(6) [unfolded write_loop.simps [of C clear_existing offset data cursor written f] Let_def]
  consider (rest) "\<not> cursor < length data" | (skip) "cursor < length data" "\<not> ?hole" | (hole) "cursor < length data" ?hole by metis
  then show ?case
  proof cases
    case rest
    with loop "1.prems"(1-4) show ?thesis
      using written_segment [of C g offset data written f "length data" f'] by simp
  next
    case skip
    with loop show ?thesis using "1.IH"(1) [OF skip(1) refl refl refl skip(2)] "1.prems" n by auto
  next
    case hole
    let ?c = "hole_end clear_existing data (cursor + ?n)"
    from loop hole obtain f1 f2 where f1: "write_all_at C f (offset + written) (drop written (take cursor data)) = Inr f1"
      and f2: "(if clear_existing then punch C f1 (offset + cursor) (?c - cursor) else Inr f1) = Inr f2"
      and rec: "write_loop C clear_existing offset data ?c ?c f2 = Inr f'"
      by (auto simp: and_then_Inr)
    have c: "?c \<le> length data" "cursor + ?n \<le> ?c" using hole_end_zero [OF n] hole_end_le by auto
    have zero: "data ! p = 0" if "cursor \<le> p" "p < ?c" for p
      using zeros_nth [of data cursor ?n p] hole_end_zero [OF n] hole that c by (metis not_le less_le_trans)
    have "written_to g offset data cursor f1"
      by (rule written_segment [OF "1.prems"(1,2,3,4) f1])
    then have "written_to g offset data ?c f2"
      by (rule written_hole [OF "1.prems"(1) _ _ zero _ f2]) (use c "1.prems"(5) in auto)
    moreover have "\<not> \<not> ?hole" using hole(2) by metis
    ultimately show ?thesis
      using "1.IH"(2) [OF hole(1) refl refl refl _ f1 refl refl f2 "1.prems"(1) _ order_refl c(1) "1.prems"(5) rec] by simp
  qed
qed

definition call_fails :: "file_calls \<Rightarrow> io_error \<Rightarrow> bool" where
  "call_fails C e \<longleftrightarrow>
     (\<exists>f offset data. write_all_at C f offset data = Inl e) \<or> (\<exists>f offset n. fallocate_punch C f offset n = Inl e)"

lemma write_loop_fails:
  assumes "write_loop C clear_existing offset data cursor written f = Inl e" "cursor \<le> length data"
    "offset + length data \<le> i64_max"
  shows "call_fails C e"
  using assms
proof (induction C clear_existing offset data cursor written f rule: write_loop.induct)
  case (1 C clear_existing offset data cursor written f)
  let ?n = "block_rest offset data cursor"
  have n: "cursor + ?n \<le> length data" using "1.prems"(2) by (simp add: block_rest_def)
  then have c: "hole_end clear_existing data (cursor + ?n) \<le> length data" using hole_end_zero by blast
  let ?hole = "(\<not> clear_existing \<or> ((offset + cursor) mod block_size = 0 \<and> ?n = block_size)) \<and> zeros data cursor ?n"
  let ?c = "hole_end clear_existing data (cursor + ?n)"
  note loop = "1.prems"(1) [unfolded write_loop.simps [of C clear_existing offset data cursor written f] Let_def]
  consider (rest) "\<not> cursor < length data" | (skip) "cursor < length data" "\<not> ?hole" | (hole) "cursor < length data" ?hole by metis
  then show ?case
  proof cases
    case rest
    with loop show ?thesis by (auto simp: call_fails_def)
  next
    case skip
    with loop show ?thesis using "1.IH"(1) [OF skip(1) refl refl refl skip(2)] "1.prems"(3) n by auto
  next
    case hole
    have nn: "\<not> \<not> ?hole" using hole(2) by metis
    from loop hole consider "write_all_at C f (offset + written) (drop written (take cursor data)) = Inl e"
      | f1 where "(if clear_existing then punch C f1 (offset + cursor) (?c - cursor) else Inr f1) = Inl e"
      | f1 f2 where "write_all_at C f (offset + written) (drop written (take cursor data)) = Inr f1"
        "(if clear_existing then punch C f1 (offset + cursor) (?c - cursor) else Inr f1) = Inr f2"
        "write_loop C clear_existing offset data ?c ?c f2 = Inl e"
      by (auto simp: and_then_Inl)
    then show ?thesis
    proof cases
      case 3
      show ?thesis by (rule "1.IH"(2) [OF hole(1) refl refl refl nn 3(1) refl refl 3(2,3) c "1.prems"(3)])
    qed (use "1.prems"(3) hole(1) c in \<open>auto simp: call_fails_def punch_def split: if_splits\<close>)
  qed
qed

subsection \<open>The property\<close>

text \<open>C15. A sparse write is a write: for system calls that do what they report, a sparse write to a
  file whose range is cleared, or is still all zeros, gives the file a plain write of the same bytes gives,
  once its length is set, and it makes the file no longer than that. It fails only with
  \<open>EFBIG\<close>, when the end of the range is no file offset, or with the error of a call.\<close>

theorem sparse_write_exact:
  assumes "calls_documented C"
    "clear_existing \<or> (\<forall>p. offset \<le> p \<and> p < offset + length data \<and> p < length f \<longrightarrow> f ! p = 0)"
  shows "case sparse_write_at C f data offset clear_existing of
      Inr f' \<Rightarrow> (\<forall>n. set_len n f' = set_len n (write_bytes f offset data)) \<and>
        length f \<le> length f' \<and> length f' \<le> max (length f) (offset + length data)
    | Inl e \<Rightarrow> if offset + length data \<le> i64_max then call_fails C e else e = EFBIG"
proof (cases "offset + length data \<le> i64_max")
  case True
  then have loop: "sparse_write_at C f data offset clear_existing = write_loop C clear_existing offset data 0 0 f"
    by (auto simp: sparse_write_at_def uadd_def u64_max_def i64_max_def)
  have start: "written_to f offset data 0 f" by (auto simp: written_to_def patched_def fun_eq_iff)
  have old: "clear_existing \<or> (\<forall>p. offset \<le> p \<and> p < offset + length data \<longrightarrow> content f p = 0)"
    using assms(2) by (auto simp: content_def)
  show ?thesis
  proof (cases "write_loop C clear_existing offset data 0 0 f")
    case (Inl e)
    with write_loop_fails [OF Inl _ True] show ?thesis using True by (simp add: loop)
  next
    case (Inr f')
    have "written_to f offset data (length data) f'" by (rule write_loop_ok [OF assms(1) start _ _ old Inr]) simp_all
    with Inr show ?thesis by (simp add: loop written_to_def set_len_content content_write_bytes)
  qed
next
  case False
  then have "sparse_write_at C f data offset clear_existing = Inl EFBIG" by (auto simp: sparse_write_at_def uadd_def)
  with False show ?thesis by simp
qed

definition plain_calls :: file_calls where
  "plain_calls = \<lparr>write_all_at = (\<lambda>f offset data. Inr (write_bytes f offset data)),
     fallocate_punch = (\<lambda>f offset n. Inr (punch_bytes f offset n))\<rparr>"

theorem sparse_write_exact_witness:
  "\<exists>f'. sparse_write_at plain_calls [1, 2, 3] [0, 7] 1 True = Inr f' \<and> set_len 3 f' = [1, 0, 7]"
proof -
  have "calls_documented plain_calls" "\<not> call_fails plain_calls e" for e
    by (auto simp: calls_documented_def call_fails_def plain_calls_def)
  then show ?thesis
    using sparse_write_exact [of plain_calls True 1 "[0, 7]" "[1, 2, 3]"]
    by (auto simp: i64_max_def set_len_def write_bytes_def split: sum.splits dest!: spec [of _ 3])
qed

end
