(* ===== verification/Write_Gate.thy ===== *)
theory Write_Gate
  imports Sparse_Write Transition "HOL-Library.AList"
begin

section \<open>Write gates\<close>

text \<open>
  \<open>src/src/write_gate.rs\<close>: writers of ranges of one file take turns through a gate they share. A
  gate, an \<open>Arc<Mutex<()>>\<close>, is a number; the registry has a weak reference to the gate of each
  inode, and a gate lives as long as an open file or a call in progress has a share of it. Numbers
  are never used again: an allocation is not freed while a weak reference to it is left. An open
  file pins its inode, so that two files with the same device and inode numbers are one file.

  The step relation interleaves the calls of all threads at the points where they take the
  registry's lock, set a file's cell and lock a gate. In every state that is reached the open files of an
  inode share one gate, those of two inodes share none, and at most one writer is at work on an inode.
\<close>

type_synonym inode = "nat \<times> nat"
type_synonym gate = nat

record gate_registry =
  rg_gates :: "(inode \<times> gate) list"
  rg_sweep_at :: nat

definition registry_new :: gate_registry where
  "registry_new = \<lparr>rg_gates = [], rg_sweep_at = 1024\<rparr>"

text \<open>\<open>live\<close> says which gates have a strong reference; \<open>fresh\<close> is the gate a call may create.\<close>

definition registry_sweep :: "(gate \<Rightarrow> bool) \<Rightarrow> gate_registry \<Rightarrow> gate_registry" where
  "registry_sweep live r =
     (if length (rg_gates r) > rg_sweep_at r then
        (let kept = filter (\<lambda>(_, g). live g) (rg_gates r)
         in \<lparr>rg_gates = kept, rg_sweep_at = max (sat_mul (length kept) 2) 1024\<rparr>)
      else r)"

definition registry_gate :: "(gate \<Rightarrow> bool) \<Rightarrow> gate \<Rightarrow> inode \<Rightarrow> gate_registry \<Rightarrow> gate \<times> gate_registry" where
  "registry_gate live fresh key r =
     (let r = registry_sweep live r in
      case map_of (rg_gates r) key of
        Some g \<Rightarrow> if live g then (g, r) else (fresh, r\<lparr>rg_gates := AList.update key fresh (rg_gates r)\<rparr>)
      | None \<Rightarrow> (fresh, r\<lparr>rg_gates := AList.update key fresh (rg_gates r)\<rparr>))"

text \<open>Whether writes to files of a device are serialized, cached by device; \<open>profile\<close> is what the
  profile of its file system says.\<close>

definition serializes_range_writes :: "(nat \<rightharpoonup> bool) \<Rightarrow> (nat \<Rightarrow> bool) \<Rightarrow> nat \<Rightarrow> bool \<times> (nat \<rightharpoonup> bool)" where
  "serializes_range_writes devices profile dev =
     (case devices dev of Some b \<Rightarrow> (b, devices) | None \<Rightarrow> (profile dev, devices(dev \<mapsto> profile dev)))"

text \<open>An open file. The cell of its gate is empty until a writer asks for it, then holds the gate or,
  where writes are not serialized, nothing.\<close>

record cached_file =
  cf_inode :: inode
  cf_gate :: "gate option option"
  cf_in_use :: bool
  cf_declared :: "nat option"

definition cached_file_new :: "inode \<Rightarrow> cached_file" where
  "cached_file_new i = \<lparr>cf_inode = i, cf_gate = None, cf_in_use = False, cf_declared = None\<rparr>"

definition cached_file_held :: "inode \<Rightarrow> nat \<Rightarrow> cached_file" where
  "cached_file_held i declared = (cached_file_new i)\<lparr>cf_in_use := True, cf_declared := Some declared\<rparr>"

text \<open>The bytes a writer puts in the file once it has the gate.\<close>

definition write_range_bytes :: "file_calls \<Rightarrow> file_bytes \<Rightarrow> file_bytes \<Rightarrow> nat \<Rightarrow> bool \<Rightarrow> io_error + file_bytes" where
  "write_range_bytes C f data offset sparse =
     (if sparse then sparse_write_at C f data offset True else write_all_at C f offset data)"

subsection \<open>Threads\<close>

text \<open>
  The process: its registry, the devices it knows, its open files by descriptor, the calls of
  \<open>write_gate\<close> that hold a share of a gate (or have found that there is none) and have not set the
  cell of their file, the writers in a gate, the writers of files without a gate, and the next gate.
\<close>

record gate_process =
  gp_registry :: gate_registry
  gp_devices :: "nat \<rightharpoonup> bool"
  gp_files :: "nat \<rightharpoonup> cached_file"
  gp_calls :: "(nat \<times> gate option) multiset"
  gp_writers :: "(nat \<times> gate option) multiset"
  gp_next :: gate

definition process_new :: gate_process where
  "process_new = \<lparr>gp_registry = registry_new, gp_devices = Map.empty, gp_files = Map.empty, gp_calls = {#},
     gp_writers = {#}, gp_next = 0\<rparr>"

definition alive :: "gate_process \<Rightarrow> gate \<Rightarrow> bool" where
  "alive s g \<longleftrightarrow> (\<exists>d f. gp_files s d = Some f \<and> cf_gate f = Some (Some g)) \<or> (\<exists>d. (d, Some g) \<in># gp_calls s)"

text \<open>A call of \<open>write_gate\<close> on a file whose cell is empty, up to the cell.\<close>

definition fetch_gate :: "(nat \<Rightarrow> bool) \<Rightarrow> nat \<Rightarrow> cached_file \<Rightarrow> gate_process \<Rightarrow> gate_process" where
  "fetch_gate profile d f s =
     (let (serialized, devices) = serializes_range_writes (gp_devices s) profile (fst (cf_inode f));
          s = s\<lparr>gp_devices := devices\<rparr>
      in if serialized then
           (let (g, r) = registry_gate (alive s) (gp_next s) (cf_inode f) (gp_registry s)
            in s\<lparr>gp_registry := r, gp_next := gp_next s + 1, gp_calls := add_mset (d, Some g) (gp_calls s)\<rparr>)
         else s\<lparr>gp_calls := add_mset (d, None) (gp_calls s)\<rparr>)"

text \<open>The end of the call, which keeps what the cell has.\<close>

definition set_gate :: "nat \<Rightarrow> gate option \<Rightarrow> cached_file \<Rightarrow> gate_process \<Rightarrow> gate_process" where
  "set_gate d g f s =
     s\<lparr>gp_calls := gp_calls s - {#(d, g)#},
       gp_files := (gp_files s)(d \<mapsto> (if cf_gate f = None then f\<lparr>cf_gate := Some g\<rparr> else f))\<rparr>"

inductive gate_step :: "(nat \<Rightarrow> bool) \<Rightarrow> gate_process \<Rightarrow> gate_process \<Rightarrow> bool"
  for profile where
  opened: "gp_files s d = None \<Longrightarrow> f = cached_file_new i \<or> f = cached_file_held i n \<Longrightarrow>
    gate_step profile s (s\<lparr>gp_files := (gp_files s)(d \<mapsto> f)\<rparr>)"
| fetched: "gp_files s d = Some f \<Longrightarrow> cf_gate f = None \<Longrightarrow> gate_step profile s (fetch_gate profile d f s)"
| stored: "(d, g) \<in># gp_calls s \<Longrightarrow> gp_files s d = Some f \<Longrightarrow> gate_step profile s (set_gate d g f s)"
| locked: "gp_files s d = Some f \<Longrightarrow> cf_gate f = Some g \<Longrightarrow> (g = None \<or> g \<notin> snd ` set_mset (gp_writers s)) \<Longrightarrow>
    gate_step profile s (s\<lparr>gp_writers := add_mset (d, g) (gp_writers s)\<rparr>)"
| unlocked: "(d, g) \<in># gp_writers s \<Longrightarrow> gate_step profile s (s\<lparr>gp_writers := gp_writers s - {#(d, g)#}\<rparr>)"
| closed: "d \<notin> fst ` set_mset (gp_calls s) \<Longrightarrow> d \<notin> fst ` set_mset (gp_writers s) \<Longrightarrow>
    gate_step profile s (s\<lparr>gp_files := (gp_files s)(d := None)\<rparr>)"

subsection \<open>The invariant\<close>

declare split_paired_All [simp del] split_paired_Ex [simp del]

text \<open>A gate is shared for an inode by the cell of one of its open files or by a call on one.\<close>

definition shared :: "gate_process \<Rightarrow> inode \<Rightarrow> gate \<Rightarrow> bool" where
  "shared s i g \<longleftrightarrow> (\<exists>d f. gp_files s d = Some f \<and> cf_inode f = i \<and> (cf_gate f = Some (Some g) \<or> (d, Some g) \<in># gp_calls s))"

definition registry_ok :: "gate_process \<Rightarrow> bool" where
  "registry_ok s \<longleftrightarrow> distinct (map fst (rg_gates (gp_registry s))) \<and> distinct (map snd (rg_gates (gp_registry s))) \<and>
     (\<forall>g\<in>snd ` set (rg_gates (gp_registry s)). g < gp_next s) \<and>
     (\<forall>i g. shared s i g \<longrightarrow> (i, g) \<in> set (rg_gates (gp_registry s)))"

definition files_ok :: "(nat \<Rightarrow> bool) \<Rightarrow> gate_process \<Rightarrow> bool" where
  "files_ok profile s \<longleftrightarrow>
     (\<forall>dev b. gp_devices s dev = Some b \<longrightarrow> b = profile dev) \<and>
     (\<forall>(d, g)\<in>#gp_calls s. \<exists>f. gp_files s d = Some f \<and> (g \<noteq> None \<longleftrightarrow> profile (fst (cf_inode f)))) \<and>
     (\<forall>d f g. gp_files s d = Some f \<and> cf_gate f = Some g \<longrightarrow> (g \<noteq> None \<longleftrightarrow> profile (fst (cf_inode f))))"

definition writers_ok :: "gate_process \<Rightarrow> bool" where
  "writers_ok s \<longleftrightarrow>
     (\<forall>(d, g)\<in>#gp_writers s. \<exists>f. gp_files s d = Some f \<and> cf_gate f = Some g) \<and>
     (\<forall>g. size (filter_mset (\<lambda>w. snd w = Some g) (gp_writers s)) \<le> 1)"

lemma registry_sweep_ok:
  assumes "distinct (map fst (rg_gates r))" "distinct (map snd (rg_gates r))"
  shows "distinct (map fst (rg_gates (registry_sweep live r)))" "distinct (map snd (rg_gates (registry_sweep live r)))"
    "set (rg_gates (registry_sweep live r)) \<subseteq> set (rg_gates r)"
    "(i, g) \<in> set (rg_gates r) \<Longrightarrow> live g \<Longrightarrow> (i, g) \<in> set (rg_gates (registry_sweep live r))"
  using assms by (auto simp: registry_sweep_def Let_def distinct_map inj_on_def)

lemma update_entries:
  assumes "distinct (map fst xs)"
  shows "set (AList.update k v xs) = insert (k, v) {x \<in> set xs. fst x \<noteq> k}"
  using assms by (induction xs) force+

lemma update_distinct_values:
  assumes "distinct (map fst xs)" "distinct (map snd xs)" "v \<notin> snd ` set xs"
  shows "distinct (map snd (AList.update k v xs))"
  using assms by (induction xs) (force simp: update_entries)+

text \<open>A gate comes from the registry as the only one of its inode, and the live gates of others stay.\<close>

lemma registry_gate_ok:
  assumes gates: "distinct (map fst (rg_gates r))" "distinct (map snd (rg_gates r))" "\<forall>g\<in>snd ` set (rg_gates r). g < fresh"
    and r': "registry_gate live fresh key r = (g, r')"
  shows "distinct (map fst (rg_gates r'))" "distinct (map snd (rg_gates r'))" "\<forall>g\<in>snd ` set (rg_gates r'). g < fresh + 1"
    "(key, g) \<in> set (rg_gates r')"
    "\<And>i h. (i, h) \<in> set (rg_gates r) \<Longrightarrow> live h \<Longrightarrow> (i, h) \<in> set (rg_gates r')"
proof -
  note swept = registry_sweep_ok [OF gates(1,2), where live = live]
  let ?gs = "rg_gates (registry_sweep live r)"
  have new: "fresh \<notin> snd ` set ?gs" "\<forall>g\<in>snd ` set ?gs. g < fresh + 1" using gates(3) swept(3) by force+
  consider (old) "map_of ?gs key = Some g" "live g" "r' = registry_sweep live r"
    | (created) "rg_gates r' = AList.update key fresh ?gs" "g = fresh" "\<forall>h. map_of ?gs key = Some h \<longrightarrow> \<not> live h"
  proof (cases "map_of ?gs key")
    case None
    then have "g = fresh" "rg_gates r' = AList.update key fresh ?gs" using r' by (auto simp: registry_gate_def Let_def)
    with None show ?thesis by (intro that(2)) simp_all
  next
    case (Some h)
    show ?thesis
    proof (cases "live h")
      case True
      then have "g = h" "r' = registry_sweep live r" using r' Some by (auto simp: registry_gate_def Let_def)
      with True Some show ?thesis by (intro that(1)) simp_all
    next
      case False
      then have "g = fresh" "rg_gates r' = AList.update key fresh ?gs" using r' Some by (auto simp: registry_gate_def Let_def)
      with False Some show ?thesis by (intro that(2)) simp_all
    qed
  qed
  then have all: "distinct (map fst (rg_gates r')) \<and> distinct (map snd (rg_gates r')) \<and> (\<forall>g\<in>snd ` set (rg_gates r'). g < fresh + 1) \<and>
    (key, g) \<in> set (rg_gates r') \<and> (\<forall>i h. (i, h) \<in> set (rg_gates r) \<and> live h \<longrightarrow> (i, h) \<in> set (rg_gates r'))"
  proof cases
    case old
    then show ?thesis using swept new by (auto dest: map_of_SomeD)
  next
    case created
    have "(i, h) \<in> set (rg_gates r')" if "(i, h) \<in> set (rg_gates r)" "live h" for i h
      using swept(4) [OF that] map_of_is_SomeI [OF swept(1) swept(4) [OF that]] that(2) created(1,3) swept(1)
      by (auto simp: update_entries)
    then show ?thesis
      using created swept new update_distinct_values [OF swept(1,2) new(1), of key] by (auto simp: update_entries distinct_update)
  qed
  then show "distinct (map fst (rg_gates r'))" "distinct (map snd (rg_gates r'))" "\<forall>g\<in>snd ` set (rg_gates r'). g < fresh + 1"
    "(key, g) \<in> set (rg_gates r')"
    "\<And>i h. (i, h) \<in> set (rg_gates r) \<Longrightarrow> live h \<Longrightarrow> (i, h) \<in> set (rg_gates r')" by blast+
qed

lemma call_file:
  assumes "files_ok profile s" "(d, g) \<in># gp_calls s"
  obtains f where "gp_files s d = Some f" "g \<noteq> None \<longleftrightarrow> profile (fst (cf_inode f))"
  using assms by (fastforce simp: files_ok_def)

lemma cell_file:
  assumes "files_ok profile s" "gp_files s d = Some f" "cf_gate f = Some g"
  shows "g \<noteq> None \<longleftrightarrow> profile (fst (cf_inode f))"
  using assms unfolding files_ok_def by blast

lemma alive_shared:
  assumes "files_ok profile s"
  shows "alive s g \<longleftrightarrow> (\<exists>i. shared s i g)"
  unfolding alive_def shared_def using call_file [OF assms] by metis

lemma registry_ok_mono:
  assumes "registry_ok s" "gp_registry s' = gp_registry s" "gp_next s' = gp_next s" "\<And>i g. shared s' i g \<Longrightarrow> shared s i g"
  shows "registry_ok s'"
  using assms by (simp add: registry_ok_def)

text \<open>The three ends of a call of \<open>fetch_gate\<close>.\<close>

lemma fetch_gate_cases:
  assumes "files_ok profile s"
  obtains devices where "\<not> profile (fst (cf_inode f))" "\<forall>dev b. devices dev = Some b \<longrightarrow> b = profile dev"
      "fetch_gate profile d f s = s\<lparr>gp_devices := devices, gp_calls := add_mset (d, None) (gp_calls s)\<rparr>"
  | devices g r where "profile (fst (cf_inode f))" "\<forall>dev b. devices dev = Some b \<longrightarrow> b = profile dev"
      "registry_gate (alive s) (gp_next s) (cf_inode f) (gp_registry s) = (g, r)"
      "fetch_gate profile d f s = s\<lparr>gp_devices := devices, gp_registry := r, gp_next := gp_next s + 1,
         gp_calls := add_mset (d, Some g) (gp_calls s)\<rparr>"
proof -
  define devices where "devices = snd (serializes_range_writes (gp_devices s) profile (fst (cf_inode f)))"
  have known: "b = profile dev" if "gp_devices s dev = Some b" for dev b using assms that by (simp add: files_ok_def)
  then have ser: "serializes_range_writes (gp_devices s) profile (fst (cf_inode f)) = (profile (fst (cf_inode f)), devices)"
    and dev: "\<forall>dev b. devices dev = Some b \<longrightarrow> b = profile dev"
    by (auto simp: serializes_range_writes_def devices_def split: option.splits)
  have same: "alive (s\<lparr>gp_devices := devices\<rparr>) = alive s" by (simp add: alive_def fun_eq_iff)
  show ?thesis
  proof (cases "profile (fst (cf_inode f))")
    case False
    then show ?thesis by (intro that(1) [OF False dev]) (simp add: fetch_gate_def ser Let_def)
  next
    case True
    obtain g r where gr: "registry_gate (alive s) (gp_next s) (cf_inode f) (gp_registry s) = (g, r)" by fastforce
    then show ?thesis by (intro that(2) [OF True dev gr]) (simp add: fetch_gate_def ser same Let_def True)
  qed
qed

lemma fetch_gate_keeps:
  assumes ok: "registry_ok s" "files_ok profile s" "writers_ok s" and f: "gp_files s d = Some f"
  shows "registry_ok (fetch_gate profile d f s) \<and> files_ok profile (fetch_gate profile d f s) \<and> writers_ok (fetch_gate profile d f s)"
  using ok(2)
proof (cases rule: fetch_gate_cases [where d = d and f = f])
  case (1 devices)
  have "registry_ok (fetch_gate profile d f s)"
    by (rule registry_ok_mono [OF ok(1)]) (auto simp: 1(3) shared_def)
  moreover have "files_ok profile (fetch_gate profile d f s)" using ok(2) f 1(1,2) by (auto simp: files_ok_def 1(3))
  ultimately show ?thesis using ok(3) by (auto simp: writers_ok_def 1(3))
next
  case (2 devices g r)
  from ok(1) have reg: "distinct (map fst (rg_gates (gp_registry s)))" "distinct (map snd (rg_gates (gp_registry s)))"
    "\<forall>g\<in>snd ` set (rg_gates (gp_registry s)). g < gp_next s" by (simp_all add: registry_ok_def)
  note gate = registry_gate_ok [OF reg 2(3)]
  have "(i, h) \<in> set (rg_gates r)" if "shared (fetch_gate profile d f s) i h" for i h
  proof (cases "shared s i h")
    case True
    then show ?thesis using gate(5) [of i h] ok(1) alive_shared [OF ok(2), of h] unfolding registry_ok_def by blast
  next
    case False
    with that f have "i = cf_inode f" "h = g" by (auto simp: shared_def 2(4))
    with gate(4) show ?thesis by simp
  qed
  then have "registry_ok (fetch_gate profile d f s)" using gate(1-3) by (simp add: registry_ok_def 2(4))
  moreover have "files_ok profile (fetch_gate profile d f s)" using ok(2) f 2(1,2) by (auto simp: files_ok_def 2(4))
  ultimately show ?thesis using ok(3) by (auto simp: writers_ok_def 2(4))
qed

lemma set_gate_keeps:
  assumes ok: "registry_ok s" "files_ok profile s" "writers_ok s" and d: "(d, g) \<in># gp_calls s" "gp_files s d = Some f"
  shows "registry_ok (set_gate d g f s) \<and> files_ok profile (set_gate d g f s) \<and> writers_ok (set_gate d g f s)"
proof -
  have call: "g \<noteq> None \<longleftrightarrow> profile (fst (cf_inode f))" using call_file [OF ok(2) d(1)] d(2) by auto
  note cell = cell_file [OF ok(2)]
  define F where "F = (if cf_gate f = None then f\<lparr>cf_gate := Some g\<rparr> else f)"
  have s': "set_gate d g f s = s\<lparr>gp_calls := gp_calls s - {#(d, g)#}, gp_files := (gp_files s)(d \<mapsto> F)\<rparr>"
    by (simp add: set_gate_def F_def)
  have F: "cf_inode F = cf_inode f" "cf_gate F = Some x \<Longrightarrow> cf_gate f = Some x \<or> x = g" for x by (auto simp: F_def split: if_splits)
  have "registry_ok (set_gate d g f s)"
    by (rule registry_ok_mono [OF ok(1)]) (use d F in \<open>auto simp: s' shared_def split: if_splits dest: in_diffD\<close>)
  moreover have "files_ok profile (set_gate d g f s)"
    unfolding files_ok_def
  proof (intro conjI allI impI ballI)
    fix dev b assume "gp_devices (set_gate d g f s) dev = Some b"
    then show "b = profile dev" using ok(2) by (simp add: s' files_ok_def)
  next
    fix c assume "c \<in># gp_calls (set_gate d g f s)"
    then have c: "(fst c, snd c) \<in># gp_calls s" by (auto simp: s' dest: in_diffD)
    then obtain f1 where "gp_files s (fst c) = Some f1" "snd c \<noteq> None \<longleftrightarrow> profile (fst (cf_inode f1))"
      by (rule call_file [OF ok(2)])
    then show "case c of (d', g') \<Rightarrow> \<exists>f'. gp_files (set_gate d g f s) d' = Some f' \<and> (g' \<noteq> None \<longleftrightarrow> profile (fst (cf_inode f')))"
      using d(2) F(1) by (auto simp: s' split_beta)
  next
    fix d' f' g' assume "gp_files (set_gate d g f s) d' = Some f' \<and> cf_gate f' = Some g'"
    then show "g' \<noteq> None \<longleftrightarrow> profile (fst (cf_inode f'))"
      using cell [of d' f' g'] cell [OF d(2), of g'] F(1) F(2) [of g'] call by (cases "d' = d") (auto simp: s')
  qed
  moreover have "writers_ok (set_gate d g f s)"
    using ok(3) d by (fastforce simp: writers_ok_def set_gate_def)
  ultimately show ?thesis by blast
qed

lemma fewer_writers:
  assumes "writers_ok s" "ws \<subseteq># gp_writers s"
  shows "writers_ok (s\<lparr>gp_writers := ws\<rparr>)"
proof -
  have "size (filter_mset P ws) \<le> size (filter_mset P (gp_writers s))" for P
    by (intro size_mset_mono multiset_filter_mono assms(2))
  then have "size (filter_mset (\<lambda>w. snd w = Some g) ws) \<le> 1" for g
    using assms(1) unfolding writers_ok_def by (meson order_trans)
  moreover have "w \<in># gp_writers s" if "w \<in># ws" for w using that assms(2) by (rule mset_subset_eqD [rotated])
  ultimately show ?thesis using assms(1) by (simp add: writers_ok_def)
qed

lemma gate_step_keeps:
  assumes "gate_step profile s s'" "registry_ok s" "files_ok profile s" "writers_ok s"
  shows "registry_ok s' \<and> files_ok profile s' \<and> writers_ok s'"
  using assms
proof cases
  case (opened d f i n)
  have f: "cf_gate f = None" using opened(3) by (auto simp: cached_file_new_def cached_file_held_def)
  have none: "(d, g) \<notin># gp_calls s" "(d, g) \<notin># gp_writers s" for g
    using call_file [OF assms(3), of d g] assms(4) opened(2) by (auto simp: writers_ok_def)
  have "registry_ok s'"
    by (rule registry_ok_mono [OF assms(2)]) (use opened(1) f none in \<open>auto simp: shared_def split: if_splits\<close>)
  moreover have "files_ok profile s'" using assms(3) f none by (auto simp: files_ok_def opened(1))
  moreover have "writers_ok s'" using assms(4) none by (auto simp: writers_ok_def opened(1))
  ultimately show ?thesis by blast
next
  case (fetched d f)
  then show ?thesis using fetch_gate_keeps [OF assms(2-4)] by blast
next
  case (stored d g f)
  then show ?thesis using set_gate_keeps [OF assms(2-4)] by blast
next
  case (locked d f g)
  have "registry_ok s'" by (rule registry_ok_mono [OF assms(2)]) (auto simp: locked(1) shared_def)
  moreover have "size (filter_mset (\<lambda>w. snd w = Some h) (gp_writers s)) = 0" if "g = Some h" for h
    using locked(4) that by force
  then have "writers_ok s'" using assms(4) locked(2,3) by (auto simp: writers_ok_def locked(1))
  ultimately show ?thesis using assms(3) by (simp add: files_ok_def locked(1))
next
  case (unlocked d g)
  have "registry_ok s'" by (rule registry_ok_mono [OF assms(2)]) (auto simp: unlocked(1) shared_def)
  moreover have "writers_ok s'" unfolding unlocked(1) by (rule fewer_writers [OF assms(4)]) simp
  ultimately show ?thesis using assms(3) by (simp add: files_ok_def unlocked(1))
next
  case (closed d)
  have none: "(d, g) \<notin># gp_calls s" "(d, g) \<notin># gp_writers s" for g using closed(2,3) by force+
  have "registry_ok s'"
    by (rule registry_ok_mono [OF assms(2)]) (auto simp: closed(1) shared_def split: if_splits)
  moreover have "files_ok profile s'" using assms(3) none by (auto simp: files_ok_def closed(1))
  moreover have "writers_ok s'" using assms(4) none by (auto simp: writers_ok_def closed(1))
  ultimately show ?thesis by blast
qed

interpretation gates: kept_invariant "gate_step profile" "\<lambda>s. registry_ok s \<and> files_ok profile s \<and> writers_ok s"
  for profile
  by unfold_locales (simp add: gate_step_keeps)

lemma gates_ok:
  assumes "(gate_step profile)\<^sup>*\<^sup>* process_new s"
  shows "registry_ok s" "files_ok profile s" "writers_ok s"
proof -
  have "registry_ok process_new \<and> files_ok profile process_new \<and> writers_ok process_new"
    by (simp add: process_new_def registry_new_def registry_ok_def files_ok_def writers_ok_def shared_def)
  from gates.kept_steps [OF assms this] show "registry_ok s" "files_ok profile s" "writers_ok s" by simp_all
qed

lemma distinct_pairs:
  assumes "distinct (map fst xs)" "distinct (map snd xs)" "(a, b) \<in> set xs" "(a', b') \<in> set xs"
  shows "b = b' \<longleftrightarrow> a = a'"
  using inj_onD [of fst "set xs", OF _ _ assms(3,4)] inj_onD [of snd "set xs", OF _ _ assms(3,4)] assms(1,2)
  by (auto simp: distinct_map)

lemma shared_eq:
  assumes "registry_ok s" "shared s i g" "shared s i' g'"
  shows "g = g' \<longleftrightarrow> i = i'"
  using assms(1) distinct_pairs [of "rg_gates (gp_registry s)" i g i' g'] assms(2,3) unfolding registry_ok_def by blast

lemma writer_gate:
  assumes "files_ok profile s" "writers_ok s" "(d, x) \<in># gp_writers s" "gp_files s d = Some f" "profile (fst (cf_inode f))"
  shows "\<exists>g. x = Some g \<and> shared s (cf_inode f) g"
proof -
  have x: "cf_gate f = Some x" using assms(2-4) by (fastforce simp: writers_ok_def)
  with cell_file [OF assms(1,4) x] assms(5) obtain g where "x = Some g" by blast
  with x assms(4) show ?thesis by (auto simp: shared_def)
qed

text \<open>C16. Writers of one file take turns. In every state that is reached, the gates of two open files are
  the same exactly when the files are one inode, and on a device whose writes are serialized at most one
  writer at a time is at work on an inode, through whichever descriptors it is open.\<close>

theorem write_gate_exclusive:
  assumes "(gate_step profile)\<^sup>*\<^sup>* process_new s"
  shows "(gp_files s d = Some f \<and> gp_files s d' = Some f' \<and> cf_gate f = Some (Some g) \<and> cf_gate f' = Some (Some g') \<longrightarrow>
      (g = g' \<longleftrightarrow> cf_inode f = cf_inode f')) \<and>
    (profile (fst i) \<longrightarrow>
      size (filter_mset (\<lambda>(d, _). map_option cf_inode (gp_files s d) = Some i) (gp_writers s)) \<le> 1)"
proof (intro conjI impI)
  note ok = gates_ok [OF assms]
  show "g = g' \<longleftrightarrow> cf_inode f = cf_inode f'"
    if "gp_files s d = Some f \<and> gp_files s d' = Some f' \<and> cf_gate f = Some (Some g) \<and> cf_gate f' = Some (Some g')"
    using shared_eq [OF ok(1), of "cf_inode f" g "cf_inode f'" g'] that by (auto simp: shared_def)
  assume serialized: "profile (fst i)"
  let ?at = "\<lambda>(d, _). map_option cf_inode (gp_files s d) = Some i"
  have gate: "\<exists>g. snd w = Some g \<and> shared s i g" if "w \<in># gp_writers s" "?at w" for w
    using writer_gate [OF ok(2,3), of "fst w" "snd w"] that serialized by (auto simp: split_beta)
  show "size (filter_mset ?at (gp_writers s)) \<le> 1"
  proof (cases "filter_mset ?at (gp_writers s) = {#}")
    case False
    then obtain w where "w \<in># gp_writers s" "?at w" by auto
    then obtain g where g: "shared s i g" using gate by blast
    have "filter_mset ?at (gp_writers s) \<subseteq># filter_mset (\<lambda>w. snd w = Some g) (gp_writers s)"
      by (rule filter_mset_mono_strong) (use gate shared_eq [OF ok(1) g] in \<open>simp, blast\<close>)
    then have "size (filter_mset ?at (gp_writers s)) \<le> size (filter_mset (\<lambda>w. snd w = Some g) (gp_writers s))"
      by (rule size_mset_mono)
    also have "\<dots> \<le> 1" using ok(3) by (simp add: writers_ok_def)
    finally show ?thesis .
  next
    case True
    show ?thesis unfolding True by simp
  qed
qed

text \<open>A file is opened twice and both descriptors have its gate; one is writing.\<close>

definition sample_process :: gate_process where
  "sample_process =
     \<lparr>gp_registry = \<lparr>rg_gates = [((1, 7), 0)], rg_sweep_at = 1024\<rparr>, gp_devices = [1 \<mapsto> True],
      gp_files = [3 \<mapsto> (cached_file_new (1, 7))\<lparr>cf_gate := Some (Some 0)\<rparr>,
                  4 \<mapsto> (cached_file_new (1, 7))\<lparr>cf_gate := Some (Some 0)\<rparr>],
      gp_calls = {#}, gp_writers = {#(4, Some 0)#}, gp_next = 2\<rparr>"

lemma sample_process_reached: "(gate_step (\<lambda>_. True))\<^sup>*\<^sup>* process_new sample_process"
proof -
  let ?f = "cached_file_new (1, 7)" and ?g = "(cached_file_new (1, 7))\<lparr>cf_gate := Some (Some 0)\<rparr>"
  let ?s1 = "process_new\<lparr>gp_files := [3 \<mapsto> ?f]\<rparr>"
  let ?s2 = "process_new\<lparr>gp_files := [3 \<mapsto> ?f, 4 \<mapsto> ?f]\<rparr>"
  let ?s3 = "?s2\<lparr>gp_devices := [1 \<mapsto> True], gp_registry := \<lparr>rg_gates = [((1, 7), 0)], rg_sweep_at = 1024\<rparr>,
      gp_next := 1, gp_calls := {#(3, Some 0)#}\<rparr>"
  let ?s4 = "?s3\<lparr>gp_next := 2, gp_calls := {#(4, Some 0), (3, Some 0)#}\<rparr>"
  let ?s5 = "?s4\<lparr>gp_calls := {#(4, Some 0)#}, gp_files := [3 \<mapsto> ?g, 4 \<mapsto> ?f]\<rparr>"
  let ?s6 = "?s5\<lparr>gp_calls := {#}, gp_files := [3 \<mapsto> ?g, 4 \<mapsto> ?g]\<rparr>"
  note defs = process_new_def registry_new_def registry_gate_def registry_sweep_def serializes_range_writes_def
    fetch_gate_def cached_file_new_def Let_def
  have e3: "fetch_gate (\<lambda>_. True) 3 ?f ?s2 = ?s3" by (simp add: defs)
  have "alive ?s3 0" by (auto simp: alive_def)
  then have e4: "fetch_gate (\<lambda>_. True) 4 ?f ?s3 = ?s4" by (simp add: defs)
  have e5: "set_gate 3 (Some 0) ?f ?s4 = ?s5" by (simp add: set_gate_def cached_file_new_def process_new_def fun_upd_twist)
  have e6: "set_gate 4 (Some 0) ?f ?s5 = ?s6" by (simp add: set_gate_def cached_file_new_def process_new_def)
  have "gate_step (\<lambda>_. True) process_new ?s1"
    using gate_step.opened [of process_new 3 ?f "(1, 7)"] by (simp add: process_new_def)
  moreover have "gate_step (\<lambda>_. True) ?s1 ?s2" using gate_step.opened [of ?s1 4 ?f "(1, 7)"] by simp
  moreover have "gate_step (\<lambda>_. True) ?s2 ?s3"
    using gate_step.fetched [of ?s2 3 ?f "\<lambda>_. True"] unfolding e3 by (simp add: cached_file_new_def)
  moreover have "gate_step (\<lambda>_. True) ?s3 ?s4"
    using gate_step.fetched [of ?s3 4 ?f "\<lambda>_. True"] unfolding e4 by (simp add: cached_file_new_def)
  moreover have "gate_step (\<lambda>_. True) ?s4 ?s5" using gate_step.stored [of 3 "Some 0" ?s4 ?f] unfolding e5 by simp
  moreover have "gate_step (\<lambda>_. True) ?s5 ?s6" using gate_step.stored [of 4 "Some 0" ?s5 ?f] unfolding e6 by simp
  moreover have "gate_step (\<lambda>_. True) ?s6 sample_process"
    using gate_step.locked [of ?s6 4 ?g "Some 0"]
    by (simp add: cached_file_new_def process_new_def sample_process_def)
  ultimately show ?thesis by (meson converse_rtranclp_into_rtranclp rtranclp.rtrancl_refl)
qed

theorem write_gate_exclusive_witness:
  "size (filter_mset (\<lambda>(d, _). map_option cf_inode (gp_files sample_process d) = Some (1, 7)) (gp_writers sample_process)) \<le> 1"
  using write_gate_exclusive [OF sample_process_reached, of undefined undefined undefined undefined undefined undefined "(1, 7)"]
  by blast

end
