(* ===== verification/Wire_Budget.thy ===== *)
theory Wire_Budget
  imports Transition
begin

section \<open>Memory budgets of decoded frames\<close>

text \<open>
  \<open>src/src/wire_budget.rs\<close>: what a server's connections may hold in memory together. An expansion is
  room for the bytes that decompression adds to a frame; a reader waits for it. A hold is
  room for the collections decoded from a frame; decoding fails when there is none left. Both are
  given back when the message is dropped. \<open>usize\<close> is 64 bits wide: \<^const>\<open>None\<close> is the panic of a
  subtraction or sum out of range, and \<open>fetch_sub\<close> wraps around. One turn of the loop of
  \<open>Expansion::reserve\<close> says whether it waits, gives up or has its room.

  The step relation interleaves the calls of all connections. In every state that is reached both
  counters are exactly what the live messages hold, no call panics or wraps around, and the limits
  hold, but for a single expansion larger than its limit.
\<close>

definition MEMORY_LIMIT :: nat where
  "MEMORY_LIMIT = 512 * 2 ^ 20"

definition RESERVATION_GRANULE :: nat where
  "RESERVATION_GRANULE = 64 * 2 ^ 10"

definition EXPANSION_LIMIT :: nat where
  "EXPANSION_LIMIT = 2 ^ 30"

subsection \<open>Decompressed bytes\<close>

record shared_budget =
  sb_used :: nat
  sb_limit :: nat

definition budget_with_limit :: "nat \<Rightarrow> shared_budget" where
  "budget_with_limit limit = \<lparr>sb_used = 0, sb_limit = limit\<rparr>"

datatype reserve_turn = Waiting | ConnectionAborted | Reserved shared_budget

definition expansion_reserve :: "shared_budget \<Rightarrow> nat \<Rightarrow> bool \<Rightarrow> reserve_turn option" where
  "expansion_reserve b bytes closed =
     (if sb_used b > 0 \<and> sat_add (sb_used b) bytes > sb_limit b then
        Some (if closed then ConnectionAborted else Waiting)
      else map_option (\<lambda>used. Reserved (b\<lparr>sb_used := used\<rparr>)) (uadd (sb_used b) bytes))"

definition expansion_shrink_to :: "nat \<Rightarrow> nat \<Rightarrow> shared_budget \<Rightarrow> (nat \<times> shared_budget) option" where
  "expansion_shrink_to held bytes b =
     (if bytes < held then map_option (\<lambda>used. (bytes, b\<lparr>sb_used := used\<rparr>)) (usub (sb_used b) (held - bytes))
      else Some (held, b))"

definition expansion_drop :: "nat \<Rightarrow> shared_budget \<Rightarrow> shared_budget option" where
  "expansion_drop held b =
     (if held > 0 then map_option (\<lambda>used. b\<lparr>sb_used := used\<rparr>) (usub (sb_used b) held) else Some b)"

subsection \<open>Decoded collections\<close>

record hold =
  ho_used :: nat
  ho_reserved :: nat
  ho_exhausted :: bool
  ho_expansion :: "nat option"

definition hold_new :: hold where
  "hold_new = \<lparr>ho_used = 0, ho_reserved = 0, ho_exhausted = False, ho_expansion = None\<rparr>"

text \<open>The expansion a hold had before is dropped.\<close>

definition drop_kept :: "hold \<Rightarrow> shared_budget \<Rightarrow> shared_budget option" where
  "drop_kept h b = (case ho_expansion h of None \<Rightarrow> Some b | Some e \<Rightarrow> expansion_drop e b)"

definition hold_keep :: "nat \<Rightarrow> hold \<Rightarrow> shared_budget \<Rightarrow> (hold \<times> shared_budget) option" where
  "hold_keep expansion h b = map_option (\<lambda>b. (h\<lparr>ho_expansion := Some expansion\<rparr>, b)) (drop_kept h b)"

definition release_expansion :: "hold \<Rightarrow> shared_budget \<Rightarrow> (hold \<times> shared_budget) option" where
  "release_expansion h b = map_option (\<lambda>b. (h\<lparr>ho_expansion := None\<rparr>, b)) (drop_kept h b)"

definition try_grow :: "nat \<Rightarrow> hold \<Rightarrow> shared_budget \<Rightarrow> (hold \<times> shared_budget) option" where
  "try_grow bytes h b = do {
     used \<leftarrow> uadd (ho_used h) bytes;
     if used > ho_reserved h then do {
       up \<leftarrow> uadd used (RESERVATION_GRANULE - 1);
       let wanted = up div RESERVATION_GRANULE * RESERVATION_GRANULE;
       let extra = wanted - ho_reserved h;
       now \<leftarrow> uadd (sb_used b) extra;
       ensure (now \<le> sb_limit b);
       Some (h\<lparr>ho_used := used, ho_reserved := wanted\<rparr>, b\<lparr>sb_used := now\<rparr>)
     } else Some (h\<lparr>ho_used := used\<rparr>, b)
   }"

text \<open>Here \<^const>\<open>None\<close> of \<^const>\<open>try_grow\<close> is the error, not a panic: it is noted in the hold.\<close>

definition hold_grow :: "nat \<Rightarrow> hold \<Rightarrow> shared_budget \<Rightarrow> bool \<times> hold \<times> shared_budget" where
  "hold_grow bytes h b =
     (case try_grow bytes h b of
        None \<Rightarrow> (False, h\<lparr>ho_exhausted := True\<rparr>, b)
      | Some (h, b) \<Rightarrow> (True, h, b))"

definition fetch_sub :: "nat \<Rightarrow> nat \<Rightarrow> nat" where
  "fetch_sub a b = (a + 2 ^ 64 - b) mod 2 ^ 64"

definition hold_drop :: "hold \<Rightarrow> shared_budget \<Rightarrow> shared_budget" where
  "hold_drop h b = b\<lparr>sb_used := fetch_sub (sb_used b) (ho_reserved h)\<rparr>"

text \<open>
  Decoding a value: its own size is charged, then each element, key or value of a collection before it is
  read, at eight times its size. \<open>asked\<close> has the sizes of the elements that the decoder of the
  third-party package asks for, up to where it ends with the value or an error of its own.
\<close>

datatype decode_error = BudgetExhausted | InvalidData

definition element_charge :: "nat \<Rightarrow> nat" where
  "element_charge n = sat_mul (max n 1) 8"

primrec charge_elements :: "nat list \<Rightarrow> hold \<Rightarrow> shared_budget \<Rightarrow> bool \<times> hold \<times> shared_budget" where
  "charge_elements [] h b = (True, h, b)"
| "charge_elements (n # ns) h b =
     (case hold_grow (element_charge n) h b of
        (True, h, b) \<Rightarrow> charge_elements ns h b
      | (False, h, b) \<Rightarrow> (False, h, b))"

definition decode_with_hold ::
  "nat \<Rightarrow> nat list \<Rightarrow> 'a option \<Rightarrow> hold \<Rightarrow> shared_budget \<Rightarrow> (decode_error + 'a) \<times> hold \<times> shared_budget" where
  "decode_with_hold size_of asked outcome h b =
     (case hold_grow size_of h b of
        (False, h, b) \<Rightarrow> (Inl BudgetExhausted, h, b)
      | (True, h, b) \<Rightarrow>
          (case charge_elements asked h b of
             (True, h, b) \<Rightarrow>
               (case outcome of
                  Some v \<Rightarrow> (Inr v, h, b)
                | None \<Rightarrow> (Inl (if ho_exhausted h then BudgetExhausted else InvalidData), h, b))
           | (False, h, b) \<Rightarrow> (Inl (if ho_exhausted h then BudgetExhausted else InvalidData), h, b)))"

subsection \<open>Connections\<close>

text \<open>What the connections of a process share and hold: expansions not yet kept with a message, by the
  bytes they stand for, and the holds of messages.\<close>

record memory =
  me_expansion :: shared_budget
  me_budget :: shared_budget
  me_free :: "nat multiset"
  me_holds :: "hold multiset"

definition memory_new :: memory where
  "memory_new = \<lparr>me_expansion = budget_with_limit EXPANSION_LIMIT, me_budget = budget_with_limit MEMORY_LIMIT,
     me_free = {#}, me_holds = {#}\<rparr>"

text \<open>The calls of a connection, each under the lock of the budget it changes.\<close>

datatype memory_call =
  Reserve nat bool | ShrinkTo nat nat | DropExpansion nat | NewHold | Grow nat hold | Keep nat hold
  | ReleaseExpansion hold | DropHold hold

text \<open>A connection makes a call only on what it holds, and asks for room that \<open>usize\<close> can count.\<close>

fun has_objects :: "memory \<Rightarrow> memory_call \<Rightarrow> bool" where
  "has_objects m (Reserve bytes closed) \<longleftrightarrow> bytes \<le> u64_max"
| "has_objects m (ShrinkTo held bytes) \<longleftrightarrow> held \<in># me_free m"
| "has_objects m (DropExpansion held) \<longleftrightarrow> held \<in># me_free m"
| "has_objects m (Grow bytes h) \<longleftrightarrow> h \<in># me_holds m"
| "has_objects m (Keep e h) \<longleftrightarrow> e \<in># me_free m \<and> h \<in># me_holds m"
| "has_objects m (ReleaseExpansion h) \<longleftrightarrow> h \<in># me_holds m"
| "has_objects m (DropHold h) \<longleftrightarrow> h \<in># me_holds m"
| "has_objects m NewHold \<longleftrightarrow> True"

fun memory_run :: "memory_call \<Rightarrow> memory \<Rightarrow> memory option" where
  "memory_run (Reserve bytes closed) m =
     map_option (\<lambda>t. case t of
         Reserved b \<Rightarrow> m\<lparr>me_expansion := b, me_free := add_mset bytes (me_free m)\<rparr>
       | _ \<Rightarrow> m) (expansion_reserve (me_expansion m) bytes closed)"
| "memory_run (ShrinkTo held bytes) m =
     map_option (\<lambda>(e, b). m\<lparr>me_expansion := b, me_free := add_mset e (me_free m - {#held#})\<rparr>)
       (expansion_shrink_to held bytes (me_expansion m))"
| "memory_run (DropExpansion held) m =
     map_option (\<lambda>b. m\<lparr>me_expansion := b, me_free := me_free m - {#held#}\<rparr>) (expansion_drop held (me_expansion m))"
| "memory_run NewHold m = Some (m\<lparr>me_holds := add_mset hold_new (me_holds m)\<rparr>)"
| "memory_run (Grow bytes h) m =
     (case hold_grow bytes h (me_budget m) of
        (_, h', b) \<Rightarrow> Some (m\<lparr>me_budget := b, me_holds := add_mset h' (me_holds m - {#h#})\<rparr>))"
| "memory_run (Keep e h) m =
     map_option (\<lambda>(h', b). m\<lparr>me_expansion := b, me_free := me_free m - {#e#}, me_holds := add_mset h' (me_holds m - {#h#})\<rparr>)
       (hold_keep e h (me_expansion m))"
| "memory_run (ReleaseExpansion h) m =
     map_option (\<lambda>(h', b). m\<lparr>me_expansion := b, me_holds := add_mset h' (me_holds m - {#h#})\<rparr>)
       (release_expansion h (me_expansion m))"
| "memory_run (DropHold h) m =
     map_option (\<lambda>b. m\<lparr>me_budget := hold_drop h (me_budget m), me_expansion := b, me_holds := me_holds m - {#h#}\<rparr>)
       (drop_kept h (me_expansion m))"

inductive memory_step :: "memory \<Rightarrow> memory \<Rightarrow> bool" where
  "has_objects m c \<Longrightarrow> memory_run c m = Some m' \<Longrightarrow> memory_step m m'"

subsection \<open>The invariant\<close>

definition kept :: "hold \<Rightarrow> nat" where
  "kept h = (case ho_expansion h of None \<Rightarrow> 0 | Some e \<Rightarrow> e)"

text \<open>The live expansions: a hold without one counts as one of no bytes.\<close>

definition expansions :: "memory \<Rightarrow> nat multiset" where
  "expansions m = me_free m + image_mset kept (me_holds m)"

definition expansion_ok :: "shared_budget \<Rightarrow> nat multiset \<Rightarrow> bool" where
  "expansion_ok b A \<longleftrightarrow> sb_limit b = EXPANSION_LIMIT \<and> sb_used b = sum_mset A \<and> sb_used b \<le> u64_max \<and>
     (sb_used b \<le> EXPANSION_LIMIT \<or> size (filter_mset (\<lambda>e. 0 < e) A) \<le> 1)"

definition hold_ok :: "hold \<Rightarrow> bool" where
  "hold_ok h \<longleftrightarrow> ho_used h \<le> ho_reserved h \<and> ho_reserved h < ho_used h + RESERVATION_GRANULE"

definition budget_exact :: "shared_budget \<Rightarrow> hold multiset \<Rightarrow> bool" where
  "budget_exact b H \<longleftrightarrow> sb_limit b = MEMORY_LIMIT \<and> sb_used b \<le> MEMORY_LIMIT \<and>
     sb_used b = sum_mset (image_mset ho_reserved H) \<and> (\<forall>h\<in>#H. hold_ok h)"

definition memory_ok :: "memory \<Rightarrow> bool" where
  "memory_ok m \<longleftrightarrow> expansion_ok (me_expansion m) (expansions m) \<and> budget_exact (me_budget m) (me_holds m)"

text \<open>A live expansion gives back a part of its bytes, or all of them.\<close>

lemma expansion_gives_back:
  assumes "expansion_ok b (add_mset x A)" "y \<le> x"
  shows "expansion_ok (b\<lparr>sb_used := sb_used b - (x - y)\<rparr>) (add_mset y A)" "x - y \<le> sb_used b"
proof -
  from assms have "sb_used b = x + sum_mset A" by (simp add: expansion_ok_def)
  then show "x - y \<le> sb_used b" by simp
  have fewer: "size (filter_mset (\<lambda>e. 0 < e) (add_mset y A)) \<le> size (filter_mset (\<lambda>e. 0 < e) (add_mset x A))"
    using assms(2) by simp
  show "expansion_ok (b\<lparr>sb_used := sb_used b - (x - y)\<rparr>) (add_mset y A)"
    using assms \<open>sb_used b = _\<close> fewer by (auto simp: expansion_ok_def simp del: filter_mset_add_mset)
qed

lemma expansion_ok_zero: "expansion_ok b (add_mset 0 A) \<longleftrightarrow> expansion_ok b A"
  by (simp add: expansion_ok_def)

lemma expansion_drop_ok:
  assumes "expansion_ok b (add_mset x A)"
  obtains b' where "expansion_drop x b = Some b'" "expansion_ok b' A"
proof (cases "x = 0")
  case True
  with assms that [of b] show ?thesis by (simp add: expansion_drop_def expansion_ok_zero)
next
  case False
  note less = expansion_gives_back [OF assms, of 0]
  from less(2) have "expansion_drop x b = Some (b\<lparr>sb_used := sb_used b - x\<rparr>)" using False by (simp add: expansion_drop_def usub_le)
  with less(1) that show ?thesis by (simp add: expansion_ok_zero)
qed

lemma drop_kept_ok:
  assumes "expansion_ok b (add_mset (kept h) A)"
  obtains b' where "drop_kept h b = Some b'" "expansion_ok b' A"
proof (cases "ho_expansion h")
  case None
  with assms that [of b] show ?thesis by (simp add: drop_kept_def kept_def expansion_ok_zero)
next
  case (Some e)
  with assms that show ?thesis by (auto simp: drop_kept_def kept_def elim: expansion_drop_ok)
qed

lemma reserve_ok:
  assumes "expansion_ok b A" "bytes \<le> u64_max"
  obtains "sb_used b > 0" "expansion_reserve b bytes closed = Some (if closed then ConnectionAborted else Waiting)"
  | b' where "expansion_reserve b bytes closed = Some (Reserved b')" "expansion_ok b' (add_mset bytes A)"
proof (cases "sb_used b > 0 \<and> sat_add (sb_used b) bytes > sb_limit b")
  case True
  then show ?thesis by (intro that(1)) (simp_all add: expansion_reserve_def)
next
  case False
  have fits: "sb_used b + bytes \<le> u64_max"
  proof (cases "sb_used b = 0")
    case nonzero: False
    then have "sat_add (sb_used b) bytes \<le> 2 ^ 30" using False assms(1) by (simp add: expansion_ok_def EXPANSION_LIMIT_def)
    then show ?thesis by (auto simp: sat_add_def u64_max_def)
  qed (use assms(2) in simp)
  have "expansion_ok (b\<lparr>sb_used := sb_used b + bytes\<rparr>) (add_mset bytes A)"
  proof (cases "sb_used b = 0")
    case True
    then have "filter_mset (\<lambda>e. 0 < e) A = {#}" using assms(1) by (simp add: expansion_ok_def)
    with True show ?thesis using assms fits by (simp add: expansion_ok_def)
  next
    case nonzero: False
    then have "sb_used b + bytes \<le> EXPANSION_LIMIT" using False assms(1) fits by (simp add: expansion_ok_def sat_add_ok)
    then show ?thesis using assms(1) fits by (simp add: expansion_ok_def)
  qed
  moreover have "expansion_reserve b bytes closed = Some (Reserved (b\<lparr>sb_used := sb_used b + bytes\<rparr>))"
    using False fits by (auto simp: expansion_reserve_def uadd_ok)
  ultimately show ?thesis by (rule that(2) [rotated])
qed

lemma granule_round:
  "u \<le> (u + (RESERVATION_GRANULE - 1)) div RESERVATION_GRANULE * RESERVATION_GRANULE"
  "(u + (RESERVATION_GRANULE - 1)) div RESERVATION_GRANULE * RESERVATION_GRANULE < u + RESERVATION_GRANULE"
proof -
  have "(u + 65535) div 65536 * 65536 + (u + 65535) mod 65536 = u + (65535::nat)" by simp
  moreover have "(u + 65535) mod 65536 < (65536::nat)" by simp
  ultimately have "u \<le> (u + 65535) div 65536 * 65536" "(u + 65535) div 65536 * 65536 < u + 65536" by linarith+
  then show "u \<le> (u + (RESERVATION_GRANULE - 1)) div RESERVATION_GRANULE * RESERVATION_GRANULE"
    "(u + (RESERVATION_GRANULE - 1)) div RESERVATION_GRANULE * RESERVATION_GRANULE < u + RESERVATION_GRANULE"
    by (simp_all add: RESERVATION_GRANULE_def)
qed

lemma try_grow_ok:
  assumes "budget_exact b (add_mset h H)" "try_grow bytes h b = Some (h', b')"
  shows "budget_exact b' (add_mset h' H)" "ho_expansion h' = ho_expansion h" "ho_used h' = ho_used h + bytes"
proof -
  let ?u = "ho_used h + bytes"
  let ?w = "(?u + (RESERVATION_GRANULE - 1)) div RESERVATION_GRANULE * RESERVATION_GRANULE"
  have h: "hold_ok h" "sb_used b = ho_reserved h + sum_mset (image_mset ho_reserved H)" "sb_limit b = MEMORY_LIMIT"
    using assms(1) by (auto simp: budget_exact_def)
  have "budget_exact b' (add_mset h' H) \<and> ho_expansion h' = ho_expansion h \<and> ho_used h' = ?u"
  proof (cases "?u > ho_reserved h")
    case True
    with assms(2) have "h' = h\<lparr>ho_used := ?u, ho_reserved := ?w\<rparr>" "b' = b\<lparr>sb_used := sb_used b + (?w - ho_reserved h)\<rparr>"
      "sb_used b + (?w - ho_reserved h) \<le> MEMORY_LIMIT"
      using h(3) by (auto simp: try_grow_def Let_def bind_eq_Some_conv split: if_splits)
    moreover have "ho_reserved h \<le> ?w" using True granule_round(1) [of ?u] by linarith
    ultimately show ?thesis
      using assms(1) h granule_round [of ?u] by (auto simp: budget_exact_def hold_ok_def)
  next
    case False
    then have "h' = h\<lparr>ho_used := ?u\<rparr>" "b' = b" using assms(2) by (auto simp: try_grow_def bind_eq_Some_conv split: if_splits)
    with False assms(1) h(1) show ?thesis by (auto simp: budget_exact_def hold_ok_def)
  qed
  then show "budget_exact b' (add_mset h' H)" "ho_expansion h' = ho_expansion h" "ho_used h' = ho_used h + bytes" by simp_all
qed

lemma hold_grow_ok:
  assumes "budget_exact b (add_mset h H)" "hold_grow bytes h b = (fits, h', b')"
  shows "budget_exact b' (add_mset h' H)" "kept h' = kept h"
  using assms try_grow_ok [OF assms(1), of bytes h' b']
  by (auto simp: hold_grow_def kept_def budget_exact_def hold_ok_def split: option.splits)

lemma hold_drop_ok:
  assumes "budget_exact b (add_mset h H)"
  shows "budget_exact (hold_drop h b) H" "fetch_sub (sb_used b) (ho_reserved h) = sb_used b - ho_reserved h"
proof -
  have used: "sb_used b = ho_reserved h + sum_mset (image_mset ho_reserved H)" "sb_used b \<le> 512 * 2 ^ 20"
    using assms by (auto simp: budget_exact_def MEMORY_LIMIT_def)
  then have "(sb_used b - ho_reserved h + 2 ^ 64) mod 2 ^ 64 = sb_used b - ho_reserved h"
    unfolding mod_add_self2 by (intro mod_less) simp
  moreover have "sb_used b + 2 ^ 64 - ho_reserved h = sb_used b - ho_reserved h + 2 ^ 64" using used by simp
  ultimately show eq: "fetch_sub (sb_used b) (ho_reserved h) = sb_used b - ho_reserved h" by (simp only: fetch_sub_def)
  show "budget_exact (hold_drop h b) H"
    using assms by (simp add: hold_drop_def eq) (simp add: budget_exact_def)
qed

text \<open>Every element of a decoded value has been charged, so what decoding returns fits in the budget.\<close>

lemma charge_elements_ok:
  assumes "budget_exact b (add_mset h H)" "charge_elements ns h b = (fits, h', b')"
  shows "budget_exact b' (add_mset h' H) \<and> (fits \<longrightarrow> ho_used h' = ho_used h + sum_list (map element_charge ns))"
  using assms
proof (induction ns arbitrary: h b)
  case (Cons n ns)
  obtain ok h1 b1 where g: "hold_grow (element_charge n) h b = (ok, h1, b1)" by (metis prod_cases3)
  have one: "budget_exact b1 (add_mset h1 H)" using hold_grow_ok(1) [OF Cons.prems(1) g] .
  have used: "ho_used h1 = ho_used h + element_charge n" if ok
    using g that try_grow_ok(3) [OF Cons.prems(1)] by (auto simp: hold_grow_def split: option.splits)
  show ?case using Cons.prems(2) g one used Cons.IH [of b1 h1] by (cases ok) auto
qed auto

lemma decode_charged:
  assumes "budget_exact b (add_mset hold_new H)" "decode_with_hold size_of asked outcome hold_new b = (r, h', b')"
  shows "budget_exact b' (add_mset h' H)"
    "r = Inr v \<Longrightarrow> size_of + sum_list (map element_charge asked) \<le> MEMORY_LIMIT"
proof -
  obtain ok h1 b1 where g: "hold_grow size_of hold_new b = (ok, h1, b1)" by (metis prod_cases3)
  obtain ok2 h2 b2 where e: "charge_elements asked h1 b1 = (ok2, h2, b2)" by (metis prod_cases3)
  have one: "budget_exact b1 (add_mset h1 H)" using hold_grow_ok(1) [OF assms(1) g] .
  note two = charge_elements_ok [OF one e]
  show exact: "budget_exact b' (add_mset h' H)"
    using assms(2) g e one two by (cases ok; cases ok2) (auto simp: decode_with_hold_def split: option.splits)
  assume "r = Inr v"
  then have "ok" "ok2" "h' = h2" using assms(2) g e by (cases ok; cases ok2; auto simp: decode_with_hold_def split: option.splits)+
  then have "ho_used h' = size_of + sum_list (map element_charge asked)"
    using two g try_grow_ok(3) [OF assms(1)] by (auto simp: hold_grow_def hold_new_def split: option.splits)
  moreover have "ho_used h' \<le> ho_reserved h'" "ho_reserved h' \<le> MEMORY_LIMIT" using exact by (auto simp: budget_exact_def hold_ok_def)
  ultimately show "size_of + sum_list (map element_charge asked) \<le> MEMORY_LIMIT" by simp
qed

lemma memory_run_ok:
  assumes ok: "memory_ok m" and has: "has_objects m c"
  shows "\<exists>m'. memory_run c m = Some m' \<and> memory_ok m'"
proof (cases c)
  case (Reserve bytes closed)
  have "expansion_ok (me_expansion m) (expansions m)" "bytes \<le> u64_max" using ok has Reserve by (auto simp: memory_ok_def)
  then show ?thesis
    using ok Reserve by (cases rule: reserve_ok [where closed = closed]) (auto simp: memory_ok_def expansions_def)
next
  case (ShrinkTo held bytes)
  then obtain F where F: "me_free m = add_mset held F" using has by (auto dest: multi_member_split)
  then have A: "expansion_ok (me_expansion m) (add_mset held (F + image_mset kept (me_holds m)))"
    using ok by (simp add: memory_ok_def expansions_def)
  show ?thesis
  proof (cases "bytes < held")
    case True
    with expansion_gives_back [OF A, of bytes] ok F show ?thesis
      by (simp add: ShrinkTo expansion_shrink_to_def usub_le memory_ok_def expansions_def)
  qed (use ok F in \<open>simp add: ShrinkTo expansion_shrink_to_def memory_ok_def expansions_def\<close>)
next
  case (DropExpansion held)
  then obtain F where F: "me_free m = add_mset held F" using has by (auto dest: multi_member_split)
  then have "expansion_ok (me_expansion m) (add_mset held (F + image_mset kept (me_holds m)))"
    using ok by (simp add: memory_ok_def expansions_def)
  then show ?thesis by (rule expansion_drop_ok) (use ok F in \<open>simp add: DropExpansion memory_ok_def expansions_def\<close>)
next
  case NewHold
  then show ?thesis using ok
    by (simp add: memory_ok_def expansions_def budget_exact_def hold_new_def hold_ok_def kept_def expansion_ok_zero RESERVATION_GRANULE_def)
next
  case (Grow bytes h)
  then obtain H where H: "me_holds m = add_mset h H" using has by (auto dest: multi_member_split)
  obtain fits h' b where g: "hold_grow bytes h (me_budget m) = (fits, h', b)" by (metis prod_cases3)
  with hold_grow_ok [OF _ g, of H] ok H show ?thesis by (simp add: Grow memory_ok_def expansions_def)
next
  case (Keep e h)
  then obtain F H where H: "me_free m = add_mset e F" "me_holds m = add_mset h H" using has by (auto dest!: multi_member_split)
  then have "expansion_ok (me_expansion m) (add_mset (kept h) (add_mset e (F + image_mset kept H)))"
    using ok by (simp add: memory_ok_def expansions_def add_mset_commute)
  then show ?thesis
    by (rule drop_kept_ok) (use ok H in \<open>simp add: Keep hold_keep_def memory_ok_def expansions_def kept_def budget_exact_def hold_ok_def\<close>)
next
  case (ReleaseExpansion h)
  then obtain H where H: "me_holds m = add_mset h H" using has by (auto dest: multi_member_split)
  then have "expansion_ok (me_expansion m) (add_mset (kept h) (me_free m + image_mset kept H))"
    using ok by (simp add: memory_ok_def expansions_def)
  then show ?thesis
    by (rule drop_kept_ok) (use ok H in \<open>simp add: ReleaseExpansion release_expansion_def memory_ok_def expansions_def kept_def
          expansion_ok_zero budget_exact_def hold_ok_def\<close>)
next
  case (DropHold h)
  then obtain H where H: "me_holds m = add_mset h H" using has by (auto dest: multi_member_split)
  then have "expansion_ok (me_expansion m) (add_mset (kept h) (me_free m + image_mset kept H))"
    using ok by (simp add: memory_ok_def expansions_def)
  then show ?thesis
    by (rule drop_kept_ok) (use ok H hold_drop_ok(1) in \<open>simp add: DropHold memory_ok_def expansions_def\<close>)
qed

interpretation memory: kept_invariant memory_step memory_ok
proof
  fix m m'
  assume "memory_step m m'" "memory_ok m"
  then obtain c where "has_objects m c" "memory_run c m = Some m'" by (auto elim: memory_step.cases)
  with memory_run_ok [OF \<open>memory_ok m\<close>, of c] show "memory_ok m'" by simp
qed

lemma memory_reached_ok:
  assumes "memory_step\<^sup>*\<^sup>* memory_new m"
  shows "memory_ok m"
proof (rule memory.kept_steps [OF assms])
  show "memory_ok memory_new"
    by (simp add: memory_ok_def memory_new_def expansions_def expansion_ok_def budget_exact_def budget_with_limit_def)
qed

text \<open>C17. The memory budgets are exact. In every state that calls of any connections reach, the bytes
  counted as expansions are those of the live ones and stay within the limit unless a single one is larger; the
  collection budget counts exactly what the live holds have reserved, within its limit, and each hold has
  reserved what it uses up to one granule. No further call panics, and a reader with nothing
  else held does not wait.\<close>

theorem memory_budgets_exact:
  assumes "memory_step\<^sup>*\<^sup>* memory_new m"
  shows "sb_used (me_expansion m) = sum_mset (expansions m) \<and>
    (sb_used (me_expansion m) \<le> EXPANSION_LIMIT \<or> size (filter_mset (\<lambda>e. 0 < e) (expansions m)) = 1) \<and>
    sb_used (me_budget m) = sum_mset (image_mset ho_reserved (me_holds m)) \<and> sb_used (me_budget m) \<le> MEMORY_LIMIT \<and>
    (\<forall>h\<in>#me_holds m. ho_used h \<le> ho_reserved h \<and> ho_reserved h < ho_used h + RESERVATION_GRANULE) \<and>
    (\<forall>c. has_objects m c \<longrightarrow> memory_run c m \<noteq> None) \<and>
    (sum_mset (expansions m) = 0 \<longrightarrow> expansion_reserve (me_expansion m) bytes closed \<noteq> Some Waiting)"
proof -
  note ok = memory_reached_ok [OF assms]
  have "sb_used (me_expansion m) = sum_mset (expansions m) \<and>
      (sb_used (me_expansion m) \<le> EXPANSION_LIMIT \<or> size (filter_mset (\<lambda>e. 0 < e) (expansions m)) = 1)"
  proof (cases "size (filter_mset (\<lambda>e. 0 < e) (expansions m)) = 0")
    case True
    then have zero: "sum_mset (expansions m) = 0" by simp
    have used: "sb_used (me_expansion m) = sum_mset (expansions m)" using ok by (simp add: memory_ok_def expansion_ok_def)
    with trans [OF used zero] show ?thesis by (metis le0)
  next
    case False
    then have "size (filter_mset (\<lambda>e. 0 < e) (expansions m)) \<le> 1 \<Longrightarrow> size (filter_mset (\<lambda>e. 0 < e) (expansions m)) = 1"
      by linarith
    then show ?thesis using ok unfolding memory_ok_def expansion_ok_def by blast
  qed
  moreover have "expansion_reserve (me_expansion m) bytes closed \<noteq> Some Waiting" if "sum_mset (expansions m) = 0"
  proof -
    have "sb_used (me_expansion m) = 0" using ok that by (simp add: memory_ok_def expansion_ok_def)
    then show ?thesis by (simp add: expansion_reserve_def)
  qed
  moreover have "memory_run c m \<noteq> None" if "has_objects m c" for c using memory_run_ok [OF ok that] by auto
  ultimately show ?thesis
    using ok unfolding memory_ok_def budget_exact_def hold_ok_def by blast
qed

theorem memory_budgets_exact_witness:
  "\<exists>m. memory_step\<^sup>*\<^sup>* memory_new m \<and> sb_used (me_expansion m) = 7 \<and> sum_mset (expansions m) = 7"
proof -
  let ?m = "memory_new\<lparr>me_expansion := \<lparr>sb_used = 7, sb_limit = EXPANSION_LIMIT\<rparr>, me_free := {#7#}\<rparr>"
  have "memory_run (Reserve 7 False) memory_new = Some ?m"
    by (simp add: memory_new_def budget_with_limit_def expansion_reserve_def uadd_def u64_max_def)
  then have "memory_step\<^sup>*\<^sup>* memory_new ?m"
    by (intro r_into_rtranclp memory_step.intros [of _ "Reserve 7 False"]) (simp_all add: u64_max_def)
  with memory_budgets_exact [OF this] show ?thesis by (intro exI [of _ ?m]) auto
qed

end
