(* ===== verification/Spec2Isabelle.thy ===== *)
theory Spec2Isabelle
  imports Sched_Props Expr_Props Grant_Accounting S3_Listing_Runs Work_Budget Write_Gate Wire_Budget
begin

text \<open>
  syq copies trees of files between hosts and to and from S3. This library models the parts of it that
  decide what is copied, in which order, within which limits and by whose authority, and proves
  that they do what the rest of the program relies on. Sources are under \<open>src/src/\<close>.

  \<^bold>\<open>The program.\<close> A sender scans its source, selects entries (\<open>expression\<close>, \<open>mapping.rs\<close>) and hands files to
  a scheduler (\<open>sched.rs\<close>) shared by workers. Each worker owns a pair of connections; it claims whole
  files, batches of small files or byte ranges, sizes its requests by the service it sees
  (\<open>transfer/work_budget.rs\<close>), and steals from the largest range when nothing is queued. The receiver writes
  ranges under one gate per inode (\<open>write_gate.rs\<close>), leaving zeros out (\<open>sparse.rs\<close>), and bounds the
  memory of decoded frames (\<open>wire_budget.rs\<close>). A receiver that runs for someone else has a signed grant
  (\<open>delegation.rs\<close>, \<open>restricted/authority.rs\<close>): each request is checked against its paths, mapping and
  options and counted against its limits. S3 sources are listed by key pattern (\<open>s3/listing\<close>).

  \<^bold>\<open>Conventions.\<close> \<open>Syq_Prelude\<close> states them. A panic is \<^const>\<open>None\<close> of an option type, an error is \<^const>\<open>Inl\<close>
  of a sum. Unsigned integers are natural numbers with checked, saturating or wrapping operations where the
  code has them; flag bytes are words of 8 bits; \<open>i128\<close> values are integers with their range proved. A lock is
  an atomic operation, a condition variable is a log of the signals sent, and a blocked wait is a
  returned state. A \<open>HashMap\<close> is a map, and where the code iterates one the order is a parameter.
  Third-party code is a parameter as well (serde and base64 in \<open>wire_library\<close>, hash functions in
  \<open>engine\<close>, globs, regular expressions and times in the libraries of the expression language,
  \<open>regex_library\<close>, gitignore rules, the S3 service, system calls), and what is relied on of it is a named
  predicate, such as \<open>engine_streams\<close>, \<open>regex_documented\<close>, \<open>service\<close> and \<open>calls_documented\<close>.

  \<^bold>\<open>Scheduling.\<close> \<open>sched.rs\<close> in seven theories of definitions and interfaces.
  \<^item> \<open>Queue_Interface\<close> is the contract of a queue that serves its largest item first (locale
    \<open>largest_first\<close>); \<open>Range_Queue\<close> (\<open>RangeQueue\<close>) and \<open>File_Queue\<close> (\<open>FileOrder\<close>, \<open>FileQueue\<close> and batches of small
    files) model the two queues and interpret it.
  \<^item> \<open>Jobs\<close> is the chunked, copy-on-write table of jobs and its snapshots, shown to refine a list;
    \<open>Fast_Batch\<close> is the claim of a run of unread files.
  \<^item> \<open>Scheduler\<close> has every operation of \<open>Sched\<close> under its lock. \<open>Sched_Ranges\<close>, \<open>Sched_Split\<close>, \<open>Sched_Inv\<close>,
    \<open>Sched_Steps\<close> and \<open>Sched_Run\<close> prove its invariant step by step for workers that keep their contract;
    \<open>Sched_Props\<close> has the properties: no panic, each byte of a range in exactly one place until it is
    done, each file in one place, no deadlock, exit exactly when finished, and what stealing takes.

  \<^bold>\<open>Expressions.\<close> \<open>expression/mod.rs\<close> and \<open>expression/parser.rs\<close>: \<open>Expression\<close> (values, nodes, type check,
  evaluation), \<open>Expr_Typing\<close> (type soundness), \<open>Expr_Policy\<close> (evaluation on known metadata, policies, S3
  objects), \<open>Expr_Lexer\<close>, \<open>Expr_Parser\<close>, \<open>Expr_Compile\<close> (every call of the parser returns) and \<open>Expr_Props\<close>. The
  mutually recursive parser has fuel, four times the number of tokens and one more: a call makes at most four
  nested calls before it takes a token, and \<open>Expr_Compile\<close> proves that this fuel is never exhausted.

  \<^bold>\<open>Mappings and checksums.\<close> \<open>Bytes\<close> and \<open>Hashing\<close> (\<open>hashing.rs\<close>), \<open>Manifest\<close> (the entries of \<open>mapping.rs\<close>
  and their checks), \<open>Admission\<close> and \<open>Admission_Props\<close>: however a manifest is cut into chunks, nothing opens
  before the signed length and digest are there, and the sender's check before sending predicts the receiver's answer.
  \<open>Proto_Types\<close> has the entries and registered paths of \<open>proto.rs\<close>, and that a registered path stays below
  its root.

  \<^bold>\<open>Signed grants.\<close> \<open>Wire_Limits\<close> (bounds of \<open>proto.rs\<close> and \<open>bwlimit.rs\<close>), \<open>Grant_Rules\<close> (what is signed and its
  validation), \<open>Grant_Authority\<close> (the checks of a request), \<open>Grant_Limits\<close> (the counters of
  \<open>AuthorityState\<close>) and \<open>Grant_Accounting\<close>: along every sequence of requests the limits of the grant hold and
  a file is counted as long as a request has a share of it. The instance number of a reservation is
  unbounded here, where the code has 64 bits. This theory has the property that spans them: a receiver
  changes only paths that the signed mapping names.

  \<^bold>\<open>S3 listings.\<close> \<open>S3_Pattern\<close> (\<open>s3/listing/pattern.rs\<close>, with the table-filling matcher shown to decide patterns),
  \<open>S3_Listing\<close> (\<open>s3/listing/engine.rs\<close>), \<open>S3_Listing_Props\<close> (what each job hands over) and
  \<open>S3_Listing_Runs\<close>: for any order in which concurrent requests end, a listing ends, and one that succeeds has each
  matching object exactly once. The order on jobs that makes runs end is a multiset order on
  pages left and components left, so no fuel is needed.

  \<^bold>\<open>Receiving and pacing.\<close> \<open>Sparse_Write\<close> (a sparse write is a write), \<open>Write_Gate\<close> (one writer per inode),
  \<open>Wire_Budget\<close> (the memory budgets are exact) and \<open>Work_Budget\<close> (requests follow the service, never
  panic and recover). \<open>Transition\<close> has the locales of a step relation with an invariant and with an effort that
  goes down, which the gates, the budgets and the listing interpret.

  \<^bold>\<open>Not modelled.\<close> System calls and what they do to a file system (\<open>fsops\<close>, \<open>rooted\<close>, \<open>scan.rs\<close>,
  \<open>deletion\<close>, \<open>descriptor_copy\<close>, \<open>local_copy\<close>): their behaviour is the kernel's. The planner and the loop of a
  worker (\<open>transfer.rs\<close>, \<open>transfer/\<close>), which drive connections; what they ask of the scheduler is
  its contract in \<open>Sched_Steps\<close>. Connections, processes, TLS, SSH, brokers and daemons (\<open>conn\<close>, \<open>server.rs\<close>,
  \<open>destination\<close>, \<open>receive_service\<close>, \<open>remote_to_remote.rs\<close>): sockets, threads and external programs. Keys and
  signatures (\<open>enrollment.rs\<close>, \<open>restricted/keys.rs\<close>): third-party cryptography. S3 requests and transfers
  (\<open>s3/client.rs\<close>, \<open>s3/transfer\<close>): third-party clients. Tuning (\<open>tune\<close>, \<open>transfer_observations.rs\<close>,
  \<open>s3/admission.rs\<close>): floating-point estimates over measured times. Command line, progress, updates and
  diagnostics: parsing by a third-party package and terminal output. Inside modelled files, the sparse write
  is the Linux build, the serde adapters of \<open>wire_budget.rs\<close> are the sizes they charge, and the
  records of results that \<open>restricted/authority.rs\<close> keeps are left out.
\<close>

section \<open>A receiver under a signed grant\<close>

text \<open>
  The life of a restricted receiver as far as paths go: it starts from rules it has validated, takes
  chunks of the signed mapping in any order, and its control connection and its results may end.
\<close>

inductive receiver_reached ::
  "wire_library \<Rightarrow> ('s, string) engine \<Rightarrow> (string list \<Rightarrow> (path_bytes \<Rightarrow> bool \<Rightarrow> bool) option) \<Rightarrow>
   copy_operation \<Rightarrow> grant_constraints \<Rightarrow> 's authority \<Rightarrow> bool"
  for L B build_ignore c g where
  accepted: "validate_rules accepts c g = Inr g' \<Longrightarrow> receiver_reached L B build_ignore c g (authority_of B build_ignore c g')"
| mapping_chunk: "receiver_reached L B build_ignore c g a \<Longrightarrow>
    receiver_reached L B build_ignore c g (snd (authorize_mapping_chunk L B over_ssh a offset data finish))"
| control_closed: "receiver_reached L B build_ignore c g a \<Longrightarrow>
    receiver_reached L B build_ignore c g (a\<lparr>ra_control_open := False\<rparr>)"
| results_ending: "receiver_reached L B build_ignore c g a \<Longrightarrow>
    receiver_reached L B build_ignore c g (a\<lparr>ra_results_closing := True\<rparr>)"

lemma validate_rules_keeps:
  assumes "validate_rules accepts c g = Inr g'"
  shows "copy_validate c = Inr ()" "gc_mapping g' = gc_mapping g"
  using assms by (auto simp: validate_rules_def and_then_Inr Let_def split: if_splits)

lemma receiver_keeps_grant:
  assumes "receiver_reached L B build_ignore c g a"
  shows "copy_validate (ra_copy a) = Inr () \<and> ra_copy a = c \<and> ra_destination a = cop_destination c \<and>
    (case gc_mapping g of
       None \<Rightarrow> ra_mapping a = None
     | Some auth \<Rightarrow> \<exists>m. ra_mapping a = Some m \<and> admission_reached L B auth (cl_max_entries (cop_limits c)) m)"
  using assms
proof induction
  case (accepted accepts g')
  note kept = validate_rules_keeps [OF accepted]
  then show ?case by (auto simp: authority_of_def intro: admission_reached.start split: option.split)
next
  case (mapping_chunk a over_ssh offset data finish)
  show ?case
  proof (cases "over_ssh \<and> ra_mapping a \<noteq> None")
    case True
    then obtain m auth where m: "ra_mapping a = Some m" "gc_mapping g = Some auth"
        "admission_reached L B auth (cl_max_entries (cop_limits c)) m"
      using mapping_chunk.IH by (auto split: option.splits)
    with True mapping_chunk.IH admission_reached.append [OF m(3), of offset data finish] show ?thesis
      by (auto simp: authorize_mapping_chunk_def case_prod_beta)
  next
    case False
    then have same: "snd (authorize_mapping_chunk L B over_ssh a offset data finish) = a"
      by (auto simp: authorize_mapping_chunk_def split: option.split)
    show ?thesis unfolding same by (rule mapping_chunk.IH)
  qed
qed (auto split: option.splits)

lemma sample_receiver:
  "receiver_reached sample_wire sample_blake3 (\<lambda>_. None) sample_copy
     (sample_constraints\<lparr>gc_mapping := Some (authorization_from_contents sample_blake3 sample_manifest)\<rparr>)
     sample_authority"
proof -
  let ?g = "sample_constraints\<lparr>gc_mapping := Some (authorization_from_contents sample_blake3 sample_manifest)\<rparr>"
  have "validate_rules (\<lambda>_. True) sample_copy ?g = Inr ?g"
    using sample_copy_valid
    by (simp add: validate_rules_def filter_normalize_def filter_validate_def receipt_validate_def
        sample_constraints_def sample_extra_def MAX_FILTER_RULES_def DEFAULT_MAX_RECORDS_def
        DEFAULT_MAX_PLAINTEXT_BYTES_def Let_def) (simp add: sample_copy_def)
  note start = receiver_reached.accepted [OF this, of sample_wire sample_blake3 "\<lambda>_. None"]
  have "cl_max_entries (cop_limits sample_copy) = 9" by (simp add: sample_copy_def)
  then have "snd (authorize_mapping_chunk sample_wire sample_blake3 True
      (authority_of sample_blake3 (\<lambda>_. None) sample_copy ?g) 0 sample_manifest True) = sample_authority"
    by (simp add: authorize_mapping_chunk_def authority_of_def sample_authority_def sample_admission_def
        sample_constraints_def case_prod_beta)
  with receiver_reached.mapping_chunk [OF start, of True 0 sample_manifest True] show ?thesis by simp
qed



end
